(* ===== verification/Prelude.thy ===== *)
theory Prelude
  imports Main "HOL-Library.Word" "HOL-Library.Signed_Division" "HOL-Library.Monad_Syntax"
begin

text \<open>
  Shared vocabulary of the development: the C integer types as words, the ChibiOS message
  codes and system-time type, positional numerals (used by both number printers of the
  firmware), byte/half-word packing, and the lemma collections the component theories use.
\<close>

unbundle bit_operations_syntax

named_theorems frame_simps \<open>what an operation leaves unchanged\<close>
named_theorems lld_defs \<open>definitions of the register level operations\<close>
named_theorems app_defs \<open>definitions of the application operations\<close>

type_synonym u8 = "8 word"
type_synonym u16 = "16 word"
type_synonym u32 = "32 word"
type_synonym u64 = "64 word"
type_synonym systime_t = "32 word"
type_synonym msg_t = int

text \<open>\<^verbatim>\<open>os/rt/include/chschd.h\<close>: wakeup messages; \<^verbatim>\<open>TIME_IMMEDIATE\<close>, \<^verbatim>\<open>TIME_INFINITE\<close>.\<close>

abbreviation (input) MSG_OK :: msg_t where "MSG_OK \<equiv> 0"
abbreviation (input) MSG_TIMEOUT :: msg_t where "MSG_TIMEOUT \<equiv> - 1"
abbreviation (input) MSG_RESET :: msg_t where "MSG_RESET \<equiv> - 2"
abbreviation (input) TIME_IMMEDIATE :: systime_t where "TIME_IMMEDIATE \<equiv> 0"
abbreviation (input) TIME_INFINITE :: systime_t where "TIME_INFINITE \<equiv> - 1"

section \<open>Positional numerals\<close>

text \<open>
  \<open>nat_of_digits b ds\<close> is the value of the digit list \<open>ds\<close>, most significant digit first,
  in base \<open>b\<close>: the reference the printers are measured against.
\<close>

definition nat_of_digits :: "nat \<Rightarrow> nat list \<Rightarrow> nat" where
  "nat_of_digits b ds = foldl (\<lambda>v d. v * b + d) 0 ds"

lemma foldl_digits:
  "foldl (\<lambda>v d. v * b + d) a ds = a * b ^ length ds + nat_of_digits b ds"
  for a b :: nat
proof (induction ds arbitrary: a)
  case Nil
  then show ?case by (simp add: nat_of_digits_def)
next
  case (Cons d ds)
  show ?case
    using Cons [of "a * b + d"] Cons [of d]
    by (simp add: nat_of_digits_def algebra_simps)
qed

lemma nat_of_digits_Nil [simp]: "nat_of_digits b [] = 0"
  by (simp add: nat_of_digits_def)

lemma nat_of_digits_Cons: "nat_of_digits b (d # ds) = d * b ^ length ds + nat_of_digits b ds"
  using foldl_digits [of b d ds] by (simp add: nat_of_digits_def)

lemma nat_of_digits_append:
  "nat_of_digits b (xs @ ys) = nat_of_digits b xs * b ^ length ys + nat_of_digits b ys"
  using foldl_digits [of b "nat_of_digits b xs" ys] by (simp add: nat_of_digits_def)

lemma nat_of_digits_snoc [simp]: "nat_of_digits b (ds @ [d]) = nat_of_digits b ds * b + d"
  by (simp add: nat_of_digits_append nat_of_digits_Cons)

lemma nat_of_digits_less:
  "\<forall>d \<in> set ds. d < b \<Longrightarrow> 0 < b \<Longrightarrow> nat_of_digits b ds < b ^ length ds"
proof (induction ds)
  case Nil
  then show ?case by simp
next
  case (Cons d ds)
  then have "nat_of_digits b ds < b ^ length ds" and "d + 1 \<le> b" by auto
  moreover from \<open>d + 1 \<le> b\<close> have "(d + 1) * b ^ length ds \<le> b * b ^ length ds"
    by (rule mult_le_mono1)
  ultimately show ?case by (simp add: nat_of_digits_Cons)
qed

text \<open>A numeral with a non-zero leading digit is at least its leading power.\<close>

lemma nat_of_digits_ge:
  assumes "ds \<noteq> []" and "hd ds \<noteq> 0"
  shows "b ^ (length ds - 1) \<le> nat_of_digits b ds"
proof (cases ds)
  case Nil
  with assms show ?thesis by simp
next
  case (Cons d ds')
  with assms have "1 * b ^ length ds' \<le> d * b ^ length ds'" by (intro mult_le_mono1) simp
  then have "b ^ length ds' \<le> d * b ^ length ds' + nat_of_digits b ds'" by linarith
  with Cons show ?thesis by (simp add: nat_of_digits_Cons)
qed

text \<open>The digits of a number, most significant first, without leading zeros: the printers' reference.\<close>

function digits :: "nat \<Rightarrow> nat \<Rightarrow> nat list" where
  "digits b n = (if n < b \<or> b < 2 then [n] else digits b (n div b) @ [n mod b])"
  by pat_completeness auto
termination
  by (relation "measure snd") auto

declare digits.simps [simp del]

lemma digits_small: "n < b \<Longrightarrow> digits b n = [n]"
  by (subst digits.simps) simp

lemma digits_step: "2 \<le> b \<Longrightarrow> b \<le> n \<Longrightarrow> digits b n = digits b (n div b) @ [n mod b]"
  by (subst digits.simps) simp

lemma digits_not_Nil [simp]: "digits b n \<noteq> []"
  by (subst digits.simps) simp

lemma nat_of_digits_digits [simp]: "nat_of_digits b (digits b n) = n"
proof (induction b n rule: digits.induct)
  case (1 b n)
  show ?case
  proof (cases "n < b \<or> b < 2")
    case True
    then show ?thesis by (subst digits.simps) (simp add: nat_of_digits_Cons)
  next
    case False
    with 1 have "nat_of_digits b (digits b (n div b)) = n div b" by blast
    with False show ?thesis by (simp add: digits_step)
  qed
qed

lemma digits_bound: "2 \<le> b \<Longrightarrow> d \<in> set (digits b n) \<Longrightarrow> d < b"
proof (induction b n rule: digits.induct)
  case (1 b n)
  show ?case
  proof (cases "n < b")
    case True
    with 1 show ?thesis by (simp add: digits_small)
  next
    case False
    with 1 show ?thesis by (auto simp: digits_step)
  qed
qed

lemma digits_hd: "2 \<le> b \<Longrightarrow> 0 < n \<Longrightarrow> hd (digits b n) \<noteq> 0"
proof (induction b n rule: digits.induct)
  case (1 b n)
  show ?case
  proof (cases "n < b")
    case True
    with 1 show ?thesis by (simp add: digits_small)
  next
    case False
    with 1 have "hd (digits b (n div b)) \<noteq> 0" by (simp add: div_greater_zero_iff)
    with False 1 show ?thesis by (simp add: digits_step)
  qed
qed

lemma length_digits_le:
  assumes "2 \<le> b" and "n < b ^ k" and "0 < k"
  shows "length (digits b n) \<le> k"
proof (cases "n = 0")
  case True
  with assms show ?thesis by (simp add: digits_small)
next
  case False
  with assms have "b ^ (length (digits b n) - 1) \<le> n"
    using nat_of_digits_ge [of "digits b n" b] by (simp add: digits_hd)
  with assms have "b ^ (length (digits b n) - 1) < b ^ k" by linarith
  with assms have "length (digits b n) - 1 < k" by (simp add: power_strict_increasing_iff)
  then show ?thesis by linarith
qed

lemma length_digits_gt:
  assumes "2 \<le> b" and "b ^ k \<le> n"
  shows "k < length (digits b n)"
proof -
  have "n < b ^ length (digits b n)"
    using nat_of_digits_less [of "digits b n" b] digits_bound [OF assms(1)] assms(1) by simp
  with assms have "b ^ k < b ^ length (digits b n)" by linarith
  with assms(1) show ?thesis by (simp add: power_strict_increasing_iff)
qed

text \<open>The value of a digit character, upper or lower case.\<close>

definition digit_val :: "char \<Rightarrow> nat" where
  "digit_val c = (let n = of_char c in if n \<le> 57 then n - 48 else if n \<le> 90 then n - 55 else n - 87)"

text \<open>What a printed signed number denotes.\<close>

definition signed_value :: "nat \<Rightarrow> string \<Rightarrow> int" where
  "signed_value b s = (if s \<noteq> [] \<and> hd s = CHR ''-''
     then - int (nat_of_digits b (map digit_val (tl s)))
     else int (nat_of_digits b (map digit_val s)))"

section \<open>Truncating division\<close>

lemma abs_sdiv: "0 < b \<Longrightarrow> \<bar>a sdiv b\<bar> = \<bar>a\<bar> div b" for a b :: int
  by (simp add: signed_divide_int_def abs_mult sgn_if pos_imp_zdiv_nonneg_iff)

lemma abs_sdiv_less:
  fixes a b :: int
  assumes "2 \<le> b" and "a sdiv b \<noteq> 0"
  shows "\<bar>a sdiv b\<bar> < \<bar>a\<bar>"
proof -
  have "a \<noteq> 0" using assms by (auto simp: signed_divide_int_def)
  then have "\<bar>a\<bar> div b < \<bar>a\<bar>" using assms(1) by (intro int_div_less_self) auto
  with assms(1) show ?thesis by (simp add: abs_sdiv)
qed

lemma sdiv_nonneg: "0 \<le> a \<Longrightarrow> 0 < b \<Longrightarrow> a sdiv b = a div b" for a b :: int
  by (cases "a = 0") (simp_all add: signed_divide_int_def)

section \<open>Words\<close>

lemma unat_div_word [simp]: "unat (a div b) = unat a div unat b"
  for a b :: "'a::len word"
  by (rule unat_div)

lemma unat_mod_word [simp]: "unat (a mod b) = unat a mod unat b"
  for a b :: "'a::len word"
  by (rule unat_mod)

lemma unat_lt_2p [simp]: "unat (w :: 'a::len word) < 2 ^ LENGTH('a)"
  by (rule unsigned_less)

lemma of_nat_unat_word [simp]: "of_nat (unat w) = (w :: 'a::len word)"
  by (simp add: unsigned_ucast_eq)

lemma unat_of_nat_small: "n < 2 ^ LENGTH('a) \<Longrightarrow> unat (of_nat n :: 'a::len word) = n"
  by (simp add: unat_of_nat)

lemma unat_add_small:
  "unat (a + b) = unat a + unat b" if "unat a + unat b < 2 ^ LENGTH('a)"
  for a b :: "'a::len word"
  using that by (simp add: unat_word_ariths)

lemma unat_sub_small:
  "unat (a - b) = unat a - unat b" if "unat b \<le> unat a"
  for a b :: "'a::len word"
  using that by (simp add: unat_sub_if_size word_size)

lemma uint_word_of_int_32: "uint (word_of_int k :: u32) = k mod 2 ^ 32"
  by (simp add: take_bit_eq_mod uint_word_of_int_eq)

text \<open>A negative 32-bit value negated is its magnitude, the most negative one included.\<close>

lemma unat_neg_signed:
  assumes "sint (v :: u32) < 0"
  shows "int (unat (- v)) = - sint v"
proof -
  have lo: "- (2 ^ 31) \<le> sint v" using sint_greater_eq [of v] by simp
  have "uint (- v) = uint (word_of_int (- sint v) :: u32)" by simp
  also have "\<dots> = (- sint v) mod 2 ^ 32" by (rule uint_word_of_int_32)
  also have "\<dots> = - sint v" using assms lo by (intro mod_pos_pos_trivial) auto
  finally show ?thesis by simp
qed

lemma unat_nonneg_signed:
  assumes "0 \<le> sint (v :: u32)"
  shows "int (unat v) = sint v"
proof -
  have hi: "sint v < 2 ^ 31" using sint_less [of v] by simp
  have "uint v = uint (word_of_int (sint v) :: u32)" by simp
  also have "\<dots> = sint v mod 2 ^ 32" by (rule uint_word_of_int_32)
  also have "\<dots> = sint v" using assms hi by (intro mod_pos_pos_trivial) auto
  finally show ?thesis by simp
qed

lemma sint_neg_word:
  assumes "sint (v :: 'a::len word) \<noteq> - (2 ^ (LENGTH('a) - 1))"
  shows "sint (- v) = - sint v"
proof -
  have lo: "- (2 ^ (LENGTH('a) - 1)) \<le> sint v" by (rule sint_ge)
  have hi: "sint v < 2 ^ (LENGTH('a) - 1)" by (rule sint_lt)
  have "sint (- v) = sint (word_of_int (- sint v) :: 'a word)" by simp
  also have "\<dots> = signed_take_bit (LENGTH('a) - 1) (- sint v)"
    by (rule sint_sbintrunc')
  also have "\<dots> = - sint v"
    using assms lo hi by (intro signed_take_bit_int_eq_self) linarith+
  finally show ?thesis .
qed

section \<open>Bytes, half words and words, little endian\<close>

definition lo8 :: "u16 \<Rightarrow> u8" where "lo8 w = ucast w"
definition hi8 :: "u16 \<Rightarrow> u8" where "hi8 w = ucast (drop_bit 8 w)"
definition mk16 :: "u8 \<Rightarrow> u8 \<Rightarrow> u16" where
  "mk16 lo hi = ucast lo OR push_bit 8 (ucast hi)"
definition mk32 :: "u8 \<Rightarrow> u8 \<Rightarrow> u8 \<Rightarrow> u8 \<Rightarrow> u32" where
  "mk32 a b c d = ucast a OR push_bit 8 (ucast b) OR push_bit 16 (ucast c) OR push_bit 24 (ucast d)"
definition byte32 :: "nat \<Rightarrow> u32 \<Rightarrow> u8" where "byte32 k w = ucast (drop_bit (8 * k) w)"

lemma mk16_split [simp]: "mk16 (lo8 w) (hi8 w) = w"
  unfolding mk16_def lo8_def hi8_def
  by (rule bit_word_eqI) (auto simp: bit_simps)

lemma lo8_mk16 [simp]: "lo8 (mk16 a b) = a"
  unfolding mk16_def lo8_def by (rule bit_word_eqI) (auto simp: bit_simps)

lemma hi8_mk16 [simp]: "hi8 (mk16 a b) = b"
  unfolding mk16_def hi8_def by (rule bit_word_eqI) (auto simp: bit_simps dest: bit_imp_le_length)

lemma byte32_mk32 [simp]:
  "byte32 0 (mk32 a b c d) = a" "byte32 1 (mk32 a b c d) = b"
  "byte32 (Suc 0) (mk32 a b c d) = b"
  "byte32 2 (mk32 a b c d) = c" "byte32 3 (mk32 a b c d) = d"
  unfolding mk32_def byte32_def
  by ((rule bit_word_eqI, auto simp: bit_simps dest: bit_imp_le_length)[1])+

lemma mk32_bytes [simp]: "mk32 (byte32 0 w) (byte32 1 w) (byte32 2 w) (byte32 3 w) = w"
proof (rule bit_word_eqI)
  fix n assume "n < LENGTH(32)"
  then consider "n < 8" | "8 \<le> n" "n < 16" | "16 \<le> n" "n < 24" | "24 \<le> n" "n < 32"
    by fastforce
  then show "bit (mk32 (byte32 0 w) (byte32 1 w) (byte32 2 w) (byte32 3 w)) n = bit w n"
    by cases (auto simp: mk32_def byte32_def bit_simps)
qed

section \<open>Lists\<close>

lemma length_8_conv:
  "length xs = 8 \<longleftrightarrow> (\<exists>a b c d e f g h. xs = [a, b, c, d, e, f, g, h])"
  by (auto simp: numeral_eq_Suc length_Suc_conv)

section \<open>Bit fields\<close>

lemma and_field_nonzero:
  fixes w :: "'a::len word"
  assumes "n + k \<le> LENGTH('a)"
  shows "w AND push_bit n (mask k) \<noteq> 0 \<longleftrightarrow> (\<exists>i < k. bit w (n + i))"
proof
  assume "w AND push_bit n (mask k) \<noteq> 0"
  then obtain j where "bit (w AND push_bit n (mask k)) j"
    by (metis bit_eqI bit_0_eq bot_apply bot_bool_def)
  then have "bit w j" "n \<le> j" "j - n < k" by (auto simp: bit_simps)
  then show "\<exists>i < k. bit w (n + i)" by (intro exI [of _ "j - n"]) simp
next
  assume "\<exists>i < k. bit w (n + i)"
  then obtain i where i: "i < k" "bit w (n + i)" by blast
  then have "bit (w AND push_bit n (mask k)) (n + i)" using assms by (auto simp: bit_simps)
  then show "w AND push_bit n (mask k) \<noteq> 0" by (metis bit_0_eq bot_apply bot_bool_def)
qed

lemma drop_field:
  fixes w :: "'a::len word"
  assumes "n + k \<le> LENGTH('a)"
  shows "drop_bit n (w AND push_bit n (mask k)) = take_bit k (drop_bit n w)"
  using assms by (intro bit_word_eqI) (auto simp: bit_simps)

definition field :: "nat \<Rightarrow> nat \<Rightarrow> 'a::len word \<Rightarrow> 'a word" where
  "field k i w = take_bit k (drop_bit (k * i) w)"

definition set_field :: "nat \<Rightarrow> nat \<Rightarrow> 'a::len word \<Rightarrow> 'a word \<Rightarrow> 'a word" where
  "set_field k i v w = (w AND NOT (push_bit (k * i) (mask k))) OR push_bit (k * i) (take_bit k v)"

lemma field_set_field_same:
  fixes w :: "'a::len word"
  assumes "k * (i + 1) \<le> LENGTH('a)"
  shows "field k i (set_field k i v w) = take_bit k v"
proof (rule bit_word_eqI)
  fix n assume "n < LENGTH('a)"
  show "bit (field k i (set_field k i v w)) n = bit (take_bit k v) n"
    using assms by (auto simp: field_def set_field_def bit_simps)
qed

lemma field_set_field_other:
  fixes w :: "'a::len word"
  assumes "i \<noteq> j"
  shows "field k j (set_field k i v w) = field k j w"
proof (rule bit_word_eqI)
  fix n assume "n < LENGTH('a)"
  have "\<not> (k * i \<le> k * j + n \<and> k * j + n - k * i < k)" if "n < k"
  proof (cases "i < j")
    case True
    then have "k * (i + 1) \<le> k * j" by (intro mult_le_mono2) simp
    then show ?thesis by simp
  next
    case False
    then have "k * (j + 1) \<le> k * i" using assms by (intro mult_le_mono2) simp
    then show ?thesis using that by simp
  qed
  then show "bit (field k j (set_field k i v w)) n = bit (field k j w) n"
    by (auto simp: field_def set_field_def bit_simps dest: bit_imp_le_length)
qed

lemma field_set_field:
  fixes w :: "'a::len word"
  assumes "k * (i + 1) \<le> LENGTH('a)"
  shows "field k j (set_field k i v w) = (if j = i then take_bit k v else field k j w)"
  using field_set_field_same [OF assms] field_set_field_other by metis

section \<open>Repetition\<close>

fun repeat_opt :: "nat \<Rightarrow> ('k \<Rightarrow> 'k option) \<Rightarrow> 'k \<Rightarrow> 'k option" where
  "repeat_opt 0 f k = Some k"
| "repeat_opt (Suc n) f k = do { k \<leftarrow> f k; repeat_opt n f k }"

end
