(* ===== verification/Chprintf.thy ===== *)
theory Chprintf
  imports Prelude
begin

text \<open>
  \<^verbatim>\<open>os/hal/lib/streams/chprintf.c\<close> and \<^verbatim>\<open>memstreams.c\<close>: the formatter every log line of the
  firmware goes through, and the bounded memory stream behind \<^verbatim>\<open>chsnprintf\<close>.

  A format string is the list of its characters, the terminating NUL included; reading past it
  is undefined in C and \<^const>\<open>None\<close> here. The variable arguments are a list of tagged values, and
  fetching a missing argument or one of the wrong kind is \<^const>\<open>None\<close> too. \<open>int\<close> and \<open>long\<close> are both
  32 bits on the Cortex-M0, so the \<open>is_long\<close> flag of the source only decides which type name the
  fetch uses. Field widths are taken as unbounded (the source would overflow an \<open>int\<close>).

  The stream is an argument of the formatter, as the virtual table is in the source: \<open>put\<close> is
  \<open>streamPut\<close> with its ignored result, acting on a stream state.
\<close>

section \<open>Definitions\<close>

subsection \<open>Memory streams\<close>

record MemoryStream =
  ms_buffer :: "char list"
  ms_size :: u32
  ms_eos :: u32
  ms_offset :: u32

definition writes :: "char list \<Rightarrow> u32 \<Rightarrow> MemoryStream \<Rightarrow> u32 \<times> MemoryStream" where
  "writes bp n0 ms =
     (let n = (if ms_size ms - ms_eos ms < n0 then ms_size ms - ms_eos ms else n0)
      in (n, ms\<lparr>ms_buffer := take (unat (ms_eos ms)) (ms_buffer ms) @ take (unat n) bp
                 @ drop (unat (ms_eos ms) + unat n) (ms_buffer ms),
                ms_eos := ms_eos ms + n\<rparr>))"

definition reads :: "u32 \<Rightarrow> MemoryStream \<Rightarrow> char list \<times> u32 \<times> MemoryStream" where
  "reads n0 ms =
     (let n = (if ms_eos ms - ms_offset ms < n0 then ms_eos ms - ms_offset ms else n0)
      in (take (unat n) (drop (unat (ms_offset ms)) (ms_buffer ms)), n,
          ms\<lparr>ms_offset := ms_offset ms + n\<rparr>))"

definition ms_put :: "char \<Rightarrow> MemoryStream \<Rightarrow> msg_t \<times> MemoryStream" where
  "ms_put b ms =
     (if ms_size ms - ms_eos ms \<le> 0 then (MSG_RESET, ms)
      else (MSG_OK, ms\<lparr>ms_buffer := (ms_buffer ms)[unat (ms_eos ms) := b],
                       ms_eos := ms_eos ms + 1\<rparr>))"

definition ms_get :: "MemoryStream \<Rightarrow> msg_t \<times> MemoryStream" where
  "ms_get ms =
     (if ms_eos ms - ms_offset ms \<le> 0 then (MSG_RESET, ms)
      else (int (of_char (ms_buffer ms ! unat (ms_offset ms))),
            ms\<lparr>ms_offset := ms_offset ms + 1\<rparr>))"

definition msObjectInit :: "char list \<Rightarrow> u32 \<Rightarrow> u32 \<Rightarrow> MemoryStream" where
  "msObjectInit buffer sz eos =
     \<lparr>ms_buffer = buffer, ms_size = sz, ms_eos = eos, ms_offset = 0\<rparr>"

subsection \<open>Number to text\<close>

abbreviation MAX_FILLER :: nat where "MAX_FILLER \<equiv> 11"

definition digit_char :: "u32 \<Rightarrow> char" where
  "digit_char r = (let i = unat r + 48 in char_of (if 57 < i then i + (65 - 48 - 10) else i))"

text \<open>
  The digit loop, run backwards from \<open>p + MAX_FILLER\<close>: \<open>acc\<close> is what \<open>q\<close> points at. \<open>long\<close> and
  \<open>unsigned\<close> operands convert to \<open>unsigned long\<close>, so division and remainder are unsigned. The
  callers pass the radices 8, 10 and 16; below 2 the source divides by zero or never stops, and
  the model stops at once.
\<close>

function ltoa_loop :: "u32 \<Rightarrow> u32 \<Rightarrow> u32 \<Rightarrow> string \<Rightarrow> string" where
  "ltoa_loop radix l ll acc =
     (let acc' = digit_char (l mod radix) # acc; ll' = ll div radix
      in if ll' = 0 \<or> radix < 2 then acc' else ltoa_loop radix (l div radix) ll' acc')"
  by pat_completeness auto
termination
proof (relation "measure (\<lambda>(radix, l, ll, acc). unat ll)", goal_cases)
  case (2 radix l ll acc acc' ll')
  then have "2 \<le> unat radix" by (simp add: word_less_nat_alt linorder_not_less)
  moreover from 2 have "unat ll div unat radix \<noteq> 0"
    by (metis unat_div_word unat_eq_zero)
  ultimately have "unat ll div unat radix < unat ll"
    by (metis div_less_dividend div_0 gr0I less_2_cases_iff linorder_not_less numeral_2_eq_2 one_less_numeral_iff order_less_le_trans semiring_norm(76))
  with 2 show ?case by simp
qed simp

declare ltoa_loop.simps [simp del]

definition long_to_string_with_divisor :: "u32 \<Rightarrow> u32 \<Rightarrow> u32 \<Rightarrow> string" where
  "long_to_string_with_divisor num radix divisor =
     ltoa_loop radix num (if divisor = 0 then num else divisor) []"

definition ch_ltoa :: "u32 \<Rightarrow> u32 \<Rightarrow> string" where
  "ch_ltoa num radix = long_to_string_with_divisor num radix 0"

subsection \<open>The formatter\<close>

datatype va = VInt u32 | VStr "string option"

fun va_int :: "va list \<Rightarrow> (u32 \<times> va list) option" where
  "va_int (VInt v # ap) = Some (v, ap)"
| "va_int _ = None"

fun va_str :: "va list \<Rightarrow> (string option \<times> va list) option" where
  "va_str (VStr s # ap) = Some (s, ap)"
| "va_str _ = None"

abbreviation NUL :: char where "NUL \<equiv> CHR 0x00"

definition cstring :: "string \<Rightarrow> string" where "cstring s = s @ [NUL]"

definition is_dec :: "char \<Rightarrow> bool" where
  "is_dec c \<longleftrightarrow> 48 \<le> (of_char c :: nat) \<and> of_char c \<le> (57 :: nat)"

fun peek :: "string \<Rightarrow> char" where
  "peek [] = NUL"
| "peek (c # fmt) = c"

text \<open>The width and the precision loops: \<open>c\<close> is a \<open>char\<close>, so a starred argument is cut to 8 bits.\<close>

fun parse_number :: "nat \<Rightarrow> string \<Rightarrow> va list \<Rightarrow> (nat \<times> char \<times> string \<times> va list) option" where
  "parse_number w [] ap = None"
| "parse_number w (c # fmt) ap =
     (if is_dec c then parse_number (w * 10 + (of_char c - 48)) fmt ap
      else if c = CHR ''*'' then
        (case va_int ap of
           None \<Rightarrow> None
         | Some (v, ap') \<Rightarrow> parse_number (w * 10 + unat v mod 256) fmt ap')
      else Some (w, c, fmt, ap))"

definition signed_text :: "u32 \<Rightarrow> string" where
  "signed_text l = (if sint l < 0 then CHR ''-'' # ch_ltoa (- l) 10 else ch_ltoa l 10)"

definition conversion :: "char \<Rightarrow> nat \<Rightarrow> char \<Rightarrow> va list \<Rightarrow> (string \<times> char \<times> va list) option" where
  "conversion c precision filler ap =
     (if c = CHR ''c'' then do {
        (v, ap) \<leftarrow> va_int ap;
        Some ([char_of (unat v mod 256)], CHR '' '', ap) }
      else if c = CHR ''s'' then do {
        (s, ap) \<leftarrow> va_str ap;
        let s = (case s of None \<Rightarrow> ''(null)'' | Some t \<Rightarrow> t);
        let precision = (if precision = 0 then 32767 else precision);
        Some (take precision (takeWhile (\<lambda>x. x \<noteq> NUL) s), CHR '' '', ap) }
      else if c \<in> {CHR ''D'', CHR ''d'', CHR ''I'', CHR ''i''} then do {
        (l, ap) \<leftarrow> va_int ap;
        Some (signed_text l, filler, ap) }
      else if c \<in> {CHR ''X'', CHR ''x''} then do {
        (l, ap) \<leftarrow> va_int ap;
        Some (ch_ltoa l 16, filler, ap) }
      else if c \<in> {CHR ''U'', CHR ''u''} then do {
        (l, ap) \<leftarrow> va_int ap;
        Some (ch_ltoa l 10, filler, ap) }
      else if c \<in> {CHR ''O'', CHR ''o''} then do {
        (l, ap) \<leftarrow> va_int ap;
        Some (ch_ltoa l 8, filler, ap) }
      else Some ([c], filler, ap))"

text \<open>The characters one conversion puts: a leading minus goes before zero filling.\<close>

definition field_text :: "bool \<Rightarrow> char \<Rightarrow> nat \<Rightarrow> string \<Rightarrow> string" where
  "field_text left_align filler width s =
     (let pad = replicate (width - length s) filler
      in if left_align then s @ pad
         else if pad \<noteq> [] \<and> peek s = CHR ''-'' \<and> filler = CHR ''0'' then hd s # pad @ tl s
         else pad @ s)"

text \<open>The flag characters after the percent sign, and the long modifier.\<close>

definition spec_flags :: "string \<Rightarrow> bool \<times> char \<times> string" where
  "spec_flags fmt =
     (let left_align = (peek fmt = CHR ''-'');
          fmt1 = (if left_align then tl fmt else fmt);
          zero = (peek fmt1 = CHR ''0'');
          fmt2 = (if zero then tl fmt1 else fmt1)
      in (left_align, if zero then CHR ''0'' else CHR '' '', fmt2))"

definition parse_precision :: "char \<Rightarrow> string \<Rightarrow> va list \<Rightarrow> (nat \<times> char \<times> string \<times> va list) option" where
  "parse_precision c fmt ap = (if c = CHR ''.'' then parse_number 0 fmt ap else Some (0, c, fmt, ap))"

definition long_modifier :: "char \<Rightarrow> string \<Rightarrow> char \<times> string" where
  "long_modifier c fmt =
     (if (c = CHR ''l'' \<or> c = CHR ''L'') \<and> peek fmt \<noteq> NUL then (hd fmt, tl fmt) else (c, fmt))"

definition format_spec :: "string \<Rightarrow> va list \<Rightarrow> (string \<times> string \<times> va list) option" where
  "format_spec fmt0 ap0 =
     (case spec_flags fmt0 of (left_align, filler0, fmt1) \<Rightarrow> do {
        (width, c1, fmt2, ap1) \<leftarrow> parse_number 0 fmt1 ap0;
        (precision, c2, fmt3, ap2) \<leftarrow> parse_precision c1 fmt2 ap1;
        let (c3, fmt4) = long_modifier c2 fmt3;
        (s, filler, ap3) \<leftarrow> conversion c3 precision filler0 ap2;
        Some (field_text left_align filler width s, fmt4, ap3) })"

lemma parse_number_shorter:
  "parse_number w fmt ap = Some (w', c, fmt', ap') \<Longrightarrow> length fmt' < length fmt"
  by (induction w fmt ap rule: parse_number.induct) (fastforce split: if_splits option.splits)+

lemma parse_precision_shorter:
  "parse_precision c fmt ap = Some (p, c', fmt', ap') \<Longrightarrow> length fmt' \<le> length fmt"
  by (auto simp: parse_precision_def split: if_splits dest: parse_number_shorter)

lemma spec_flags_shorter: "spec_flags fmt = (l, f, fmt') \<Longrightarrow> length fmt' \<le> length fmt"
  by (auto simp: spec_flags_def Let_def split: if_splits)

lemma long_modifier_shorter: "length (snd (long_modifier c fmt)) \<le> length fmt"
  by (auto simp: long_modifier_def)

lemma format_spec_shorter:
  assumes "format_spec fmt ap = Some (s, fmt', ap')"
  shows "length fmt' \<le> length fmt"
proof -
  obtain l f f1 where fl: "spec_flags fmt = (l, f, f1)" by (cases "spec_flags fmt")
  with assms obtain w c f2 a2 p c3 f3 a3 where
      w: "parse_number 0 f1 ap = Some (w, c, f2, a2)"
    and p: "parse_precision c f2 a2 = Some (p, c3, f3, a3)"
    and m: "snd (long_modifier c3 f3) = fmt'"
    by (auto simp: format_spec_def bind_eq_Some_conv case_prod_beta Let_def)
  show ?thesis
    using parse_number_shorter [OF w] parse_precision_shorter [OF p] long_modifier_shorter [of c3 f3] m
      spec_flags_shorter [OF fl] by auto
qed

function chvprintf :: "(char \<Rightarrow> 's \<Rightarrow> 's) \<Rightarrow> string \<Rightarrow> va list \<Rightarrow> 's \<Rightarrow> nat \<Rightarrow> ('s \<times> nat) option" where
  "chvprintf put [] ap st n = None"
| "chvprintf put (c # fmt) ap st n =
     (if c = NUL then Some (st, n)
      else if c \<noteq> CHR ''%'' then chvprintf put fmt ap (put c st) (n + 1)
      else (case format_spec fmt ap of
              None \<Rightarrow> None
            | Some (s, fmt', ap') \<Rightarrow> chvprintf put fmt' ap' (fold put s st) (n + length s)))"
  by pat_completeness auto
termination
  by (relation "measure (\<lambda>(put, fmt, ap, st, n). length fmt)")
     (auto dest: format_spec_shorter)

text \<open>\<open>chprintf\<close> starts the count at zero.\<close>

definition chprintf :: "(char \<Rightarrow> 's \<Rightarrow> 's) \<Rightarrow> 's \<Rightarrow> string \<Rightarrow> va list \<Rightarrow> ('s \<times> nat) option" where
  "chprintf put st fmt ap = chvprintf put (cstring fmt) ap st 0"

definition chsnprintf :: "char list \<Rightarrow> u32 \<Rightarrow> string \<Rightarrow> va list \<Rightarrow> (char list \<times> nat) option" where
  "chsnprintf str sz fmt ap =
     (let size_wo_nul = (if 0 < sz then sz - 1 else 0)
      in case chprintf (\<lambda>c ms. snd (ms_put c ms)) (msObjectInit str size_wo_nul 0) fmt ap of
           None \<Rightarrow> None
         | Some (ms, retval) \<Rightarrow>
             Some (if ms_eos ms < sz then (ms_buffer ms)[unat (ms_eos ms) := NUL] else ms_buffer ms,
                   retval))"

text \<open>
  The reference: the text a format and its arguments denote, with no stream in sight
  (\<^const>\<open>None\<close> where the source is undefined).
\<close>

function fmt_text :: "string \<Rightarrow> va list \<Rightarrow> string option" where
  "fmt_text [] ap = None"
| "fmt_text (c # fmt) ap =
     (if c = NUL then Some []
      else if c \<noteq> CHR ''%'' then map_option ((#) c) (fmt_text fmt ap)
      else (case format_spec fmt ap of
              None \<Rightarrow> None
            | Some (s, fmt', ap') \<Rightarrow> map_option ((@) s) (fmt_text fmt' ap')))"
  by pat_completeness auto
termination
  by (relation "measure (\<lambda>(fmt, ap). length fmt)") (auto dest: format_spec_shorter)

definition rendered :: "string \<Rightarrow> va list \<Rightarrow> string option" where
  "rendered fmt ap = fmt_text (cstring fmt) ap"

section \<open>Number printing\<close>

lemma digit_val_digit_char:
  assumes "unat r < 36"
  shows "digit_val (digit_char r) = unat r"
proof -
  define n where "n = (if 57 < unat r + 48 then unat r + 48 + (65 - 48 - 10) else unat r + 48)"
  with assms have "n < 256" by simp
  moreover have "digit_char r = char_of n"
    by (simp add: digit_char_def n_def Let_def)
  ultimately show ?thesis
    using assms by (auto simp: digit_val_def n_def Let_def)
qed

lemma ltoa_loop_digits:
  assumes "2 \<le> unat radix"
  shows "ltoa_loop radix l l acc = map (\<lambda>d. digit_char (of_nat d)) (digits (unat radix) (unat l)) @ acc"
proof (induction "unat l" arbitrary: l acc rule: less_induct)
  case less
  have r: "\<not> radix < 2" using assms by (simp add: word_less_nat_alt)
  show ?case
  proof (cases "unat l < unat radix")
    case True
    then have "l div radix = 0" and "l mod radix = l"
      by (simp_all add: word_arith_nat_div word_arith_nat_mod)
    with True show ?thesis
      by (subst ltoa_loop.simps) (simp add: digits_small)
  next
    case False
    with assms have "unat l div unat radix \<noteq> 0" by (simp add: div_eq_0_iff)
    then have nz: "l div radix \<noteq> 0" by (metis unat_0 unat_div_word)
    from False assms have "unat (l div radix) < unat l" by simp
    from less [OF this] have "ltoa_loop radix (l div radix) (l div radix) (digit_char (l mod radix) # acc) =
        map (\<lambda>d. digit_char (of_nat d)) (digits (unat radix) (unat (l div radix))) @ digit_char (l mod radix) # acc" .
    moreover have "digit_char (of_nat (unat l mod unat radix)) = digit_char (l mod radix)"
      by (metis unat_mod_word of_nat_unat_word)
    ultimately show ?thesis
      using False assms nz r by (subst ltoa_loop.simps) (simp add: Let_def digits_step)
  qed
qed

lemma ch_ltoa_digits:
  "2 \<le> unat radix \<Longrightarrow> ch_ltoa num radix = map (\<lambda>d. digit_char (of_nat d)) (digits (unat radix) (unat num))"
  by (simp add: ch_ltoa_def long_to_string_with_divisor_def ltoa_loop_digits)

lemma map_digit_val_ch_ltoa:
  assumes "2 \<le> unat radix" and "unat radix \<le> 36"
  shows "map digit_val (ch_ltoa num radix) = digits (unat radix) (unat num)"
proof -
  have "digit_val (digit_char (of_nat d)) = d" if "d \<in> set (digits (unat radix) (unat num))" for d
  proof -
    from that assms have "d < 36" using digits_bound [of "unat radix" d] by fastforce
    moreover from this have "unat (of_nat d :: u32) = d" by (simp add: unat_of_nat_small)
    ultimately show ?thesis using digit_val_digit_char [of "of_nat d"] by simp
  qed
  then show ?thesis using assms(1) by (simp add: ch_ltoa_digits map_idI)
qed

lemma length_ch_ltoa:
  assumes "8 \<le> unat radix"
  shows "length (ch_ltoa num radix) \<le> MAX_FILLER"
proof -
  have "unat num < 8 ^ MAX_FILLER" using unat_lt_2p [of num] by simp
  also have "(8::nat) ^ MAX_FILLER \<le> unat radix ^ MAX_FILLER"
    by (rule power_mono) (use assms in auto)
  finally show ?thesis using assms by (simp add: ch_ltoa_digits length_digits_le)
qed

text \<open>
  \<open>ch_ltoa\<close> writes the canonical digits of the unsigned value: they read back as the value,
  there is no leading zero, and they fit the 11 bytes the routine reserves behind \<open>p\<close>, whatever
  the value.
\<close>

lemma ch_ltoa_correct:
  assumes "8 \<le> unat radix" and "unat radix \<le> 36"
  shows "nat_of_digits (unat radix) (map digit_val (ch_ltoa num radix)) = unat num
    \<and> (num \<noteq> 0 \<longrightarrow> digit_val (hd (ch_ltoa num radix)) \<noteq> 0)
    \<and> 0 < length (ch_ltoa num radix) \<and> length (ch_ltoa num radix) \<le> MAX_FILLER"
proof -
  have m: "map digit_val (ch_ltoa num radix) = digits (unat radix) (unat num)"
    using assms by (intro map_digit_val_ch_ltoa) auto
  then have ne: "ch_ltoa num radix \<noteq> []" by (metis digits_not_Nil list.map_disc_iff)
  then have h: "digit_val (hd (ch_ltoa num radix)) = hd (digits (unat radix) (unat num))"
    using m by (metis hd_map)
  have "hd (digits (unat radix) (unat num)) \<noteq> 0" if "num \<noteq> 0"
    using that assms(1) by (intro digits_hd) (auto simp: unat_gt_0)
  with h ne show ?thesis
    using length_ch_ltoa [OF assms(1)] by (simp add: m)
qed


lemma ch_ltoa_no_minus:
  assumes "8 \<le> unat radix" and "unat radix \<le> 36"
  shows "CHR ''-'' \<notin> set (ch_ltoa num radix)"
proof
  assume "CHR ''-'' \<in> set (ch_ltoa num radix)"
  with assms obtain d where d: "d \<in> set (digits (unat radix) (unat num))"
    and c: "CHR ''-'' = digit_char (of_nat d)" by (auto simp: ch_ltoa_digits)
  from d assms have "d < 36" using digits_bound [of "unat radix" d] by fastforce
  then have "unat (of_nat d :: u32) = d" by (simp add: unat_of_nat_small)
  with c have "CHR ''-'' = char_of (if 57 < d + 48 then d + 48 + 7 else d + 48)"
    by (simp add: digit_char_def Let_def)
  then have "of_char (CHR ''-'') = (of_char (char_of (if 57 < d + 48 then d + 48 + 7 else d + 48)) :: nat)"
    by simp
  with \<open>d < 36\<close> show False by (simp split: if_splits)
qed

text \<open>
  The text of the \<open>d\<close> and \<open>i\<close> conversions denotes the signed value of the argument, for every
  32-bit value including the most negative one (where the source negates \<open>LONG_MIN\<close>), and with its
  sign it fits the 12 bytes of \<open>tmpbuf\<close>.
\<close>

lemma signed_text_correct:
  "signed_value 10 (signed_text v) = sint v \<and> length (signed_text v) \<le> MAX_FILLER + 1"
proof (cases "sint v < 0")
  case True
  then show ?thesis
    using length_ch_ltoa [of 10 "- v"] map_digit_val_ch_ltoa [of 10 "- v"] unat_neg_signed [of v]
    by (simp add: signed_text_def signed_value_def)
next
  case False
  moreover have "\<not> (ch_ltoa v 10 \<noteq> [] \<and> hd (ch_ltoa v 10) = CHR ''-'')"
    using ch_ltoa_no_minus [of 10 v] by (auto dest: hd_in_set)
  ultimately show ?thesis
    using length_ch_ltoa [of 10 v] map_digit_val_ch_ltoa [of 10 v] unat_nonneg_signed [of v]
    by (auto simp: signed_text_def signed_value_def)
qed
section \<open>Streams\<close>

lemma chvprintf_fmt_text:
  "chvprintf put fmt ap st n = map_option (\<lambda>t. (fold put t st, n + length t)) (fmt_text fmt ap)"
proof (induction put fmt ap st n rule: chvprintf.induct)
  case (1 put ap st n)
  show ?case by simp
next
  case (2 put c fmt ap st n)
  then show ?case
    by (auto simp: option.map_comp comp_def add.assoc split: option.splits)
qed

lemma chprintf_rendered:
  "chprintf put st fmt ap = map_option (\<lambda>t. (fold put t st, length t)) (rendered fmt ap)"
  by (simp add: chprintf_def rendered_def chvprintf_fmt_text)

text \<open>
  The contract of a byte stream: an abstraction \<open>text\<close> of what it holds, the \<open>room\<close> left, and
  the law of \<open>streamPut\<close>. The formatter's client lemma is proved once from it.
\<close>

locale byte_stream =
  fixes put :: "char \<Rightarrow> 's \<Rightarrow> 's"
    and invar :: "'s \<Rightarrow> bool"
    and stext :: "'s \<Rightarrow> string"
    and room :: "'s \<Rightarrow> nat"
  assumes invar_put: "invar s \<Longrightarrow> invar (put c s)"
    and stext_put: "invar s \<Longrightarrow> stext (put c s) = (if room s = 0 then stext s else stext s @ [c])"
    and room_put: "invar s \<Longrightarrow> room (put c s) = room s - 1"
begin

lemma fold_put:
  "invar s \<Longrightarrow> invar (fold put cs s) \<and> stext (fold put cs s) = stext s @ take (room s) cs
     \<and> room (fold put cs s) = room s - length cs"
proof (induction cs arbitrary: s)
  case Nil
  then show ?case by simp
next
  case (Cons c cs)
  from Cons.prems have "invar (put c s)" by (rule invar_put)
  from Cons.IH [OF this] Cons.prems show ?case
    by (cases "room s") (simp_all add: stext_put room_put)
qed

lemma printf_stream:
  assumes "invar s" and "rendered fmt ap = Some t"
  shows "\<exists>s'. chprintf put s fmt ap = Some (s', length t) \<and> invar s'
    \<and> stext s' = stext s @ take (room s) t \<and> room s' = room s - length t"
  using assms fold_put [of s t] by (simp add: chprintf_rendered)

end

text \<open>A memory stream laid over \<open>str\<close>: it stays inside \<open>sz\<close> bytes and leaves the rest alone.\<close>

definition ms_over :: "char list \<Rightarrow> u32 \<Rightarrow> MemoryStream \<Rightarrow> bool" where
  "ms_over str sz ms \<longleftrightarrow> ms_size ms = sz \<and> unat (ms_eos ms) \<le> unat sz \<and> unat sz \<le> length str
     \<and> length (ms_buffer ms) = length str
     \<and> drop (unat (ms_eos ms)) (ms_buffer ms) = drop (unat (ms_eos ms)) str"

lemma ms_put_cases:
  assumes "ms_over str sz ms"
  shows "ms_put c ms = (if ms_eos ms = sz then (MSG_RESET, ms)
     else (MSG_OK, ms\<lparr>ms_buffer := (ms_buffer ms)[unat (ms_eos ms) := c], ms_eos := ms_eos ms + 1\<rparr>))"
  using assms by (auto simp: ms_put_def ms_over_def)

lemma ms_eos_Suc:
  assumes "ms_over str sz ms" and "ms_eos ms \<noteq> sz"
  shows "unat (ms_eos ms + 1) = Suc (unat (ms_eos ms))" and "unat (ms_eos ms) < unat sz"
proof -
  have "unat (ms_eos ms) \<noteq> unat sz" using assms(2) by (metis of_nat_unat_word)
  then show less: "unat (ms_eos ms) < unat sz" using assms(1) by (simp add: ms_over_def)
  have "unat sz < 2 ^ 32" using unat_lt_2p [of sz] by simp
  with less show "unat (ms_eos ms + 1) = Suc (unat (ms_eos ms))"
    by (subst unat_add_small) auto
qed

lemma drop_Suc_cong: "drop k xs = drop k ys \<Longrightarrow> drop (Suc k) xs = drop (Suc k) ys"
  by (metis drop_Suc tl_drop)

interpretation ms: byte_stream "\<lambda>c ms. snd (ms_put c ms)" "ms_over str sz"
  "\<lambda>ms. take (unat (ms_eos ms)) (ms_buffer ms)" "\<lambda>ms. unat sz - unat (ms_eos ms)" for str sz
proof (unfold_locales, goal_cases)
  case (1 s c)
  then show ?case
    using ms_eos_Suc [OF 1] by (auto simp: ms_put_cases [OF 1]) (auto simp: ms_over_def intro: drop_Suc_cong)
next
  case (2 s c)
  show ?case
  proof (cases "ms_eos s = sz")
    case False
    with ms_eos_Suc [OF 2] 2 have "unat (ms_eos s) < length (ms_buffer s)" and "unat sz - unat (ms_eos s) \<noteq> 0"
      by (auto simp: ms_over_def)
    with False ms_eos_Suc(1) [OF 2] show ?thesis
      by (simp add: ms_put_cases [OF 2] take_Suc_conv_app_nth)
  qed (simp add: ms_put_cases [OF 2])
next
  case (3 s c)
  then show ?case
    using ms_eos_Suc [OF 3] by (auto simp: ms_put_cases [OF 3])
qed

text \<open>
  C38: \<open>chsnprintf\<close> stores the rendered text cut to \<open>size - 1\<close> characters, a NUL right behind it, and
  nothing else: the rest of the destination, inside \<open>size\<close> or beyond, is what it was. It returns
  the length of the uncut text.
\<close>

theorem chsnprintf_correct:
  assumes "rendered fmt ap = Some t" and "0 < sz" and "unat sz \<le> length str"
  shows "chsnprintf str sz fmt ap =
    Some (take (unat sz - 1) t @ NUL # drop (Suc (min (unat sz - 1) (length t))) str, length t)"
proof -
  let ?ms = "msObjectInit str (sz - 1) 0" and ?t = "take (unat sz - 1) t"
  have sz1: "unat (sz - 1) = unat sz - 1"
    using assms(2) by (simp add: unat_minus_one word_less_nat_alt unat_gt_0)
  have sz0: "0 < unat sz" using assms(2) by (simp add: word_less_nat_alt)
  have "ms_over str (sz - 1) ?ms"
    using assms sz1 by (simp add: ms_over_def msObjectInit_def)
  from ms.printf_stream [OF this assms(1)] obtain ms' where
      run: "chprintf (\<lambda>c ms. snd (ms_put c ms)) ?ms fmt ap = Some (ms', length t)"
    and over: "ms_over str (sz - 1) ms'"
    and tx: "take (unat (ms_eos ms')) (ms_buffer ms') = ?t"
    and rm: "unat (sz - 1) - unat (ms_eos ms') = unat (sz - 1) - length t"
    by (auto simp: msObjectInit_def sz1)
  from tx over sz1 assms(3) have eos: "unat (ms_eos ms') = length ?t"
    by (auto simp: ms_over_def) (metis length_take min_absorb2 order_trans)
  have "ms_eos ms' < sz" using eos sz0 by (simp add: word_less_nat_alt)
  moreover have "(ms_buffer ms')[unat (ms_eos ms') := NUL] = ?t @ NUL # drop (Suc (length ?t)) str"
  proof -
    have "unat (ms_eos ms') < length (ms_buffer ms')"
      using over eos sz0 sz1 assms(3) by (simp add: ms_over_def)
    moreover have "drop (Suc (unat (ms_eos ms'))) (ms_buffer ms') = drop (Suc (unat (ms_eos ms'))) str"
      using over by (auto simp: ms_over_def intro: drop_Suc_cong)
    ultimately show ?thesis
      by (simp only: upd_conv_take_nth_drop tx) (simp add: eos)
  qed
  ultimately show ?thesis using run assms(2) eos
    by (simp add: chsnprintf_def min.commute)
qed

theorem chsnprintf_correct_witness:
  "chsnprintf ''zzzzzzzz'' 5 ''%u'' [VInt 123456] = Some (''1234'' @ NUL # ''zzz'', 6)"
proof -
  have "rendered ''%u'' [VInt 123456] = Some ''123456''" by code_simp
  from chsnprintf_correct [OF this, of 5 "''zzzzzzzz''"] show ?thesis by simp
qed

end
