(* ===== verification/Numtoa.thy ===== *)
theory Numtoa
  imports Prelude
begin

text \<open>
  \<^verbatim>\<open>util/modp_numtoa.c\<close>, the integer printers: \<^verbatim>\<open>strreverse\<close>, \<^verbatim>\<open>modp_itoa10\<close>, \<^verbatim>\<open>modp_uitoa10\<close>,
  \<^verbatim>\<open>modp_ltoa10\<close>, \<^verbatim>\<open>modp_ultoa10\<close>, \<^verbatim>\<open>modp_itoaX\<close> and \<^verbatim>\<open>trimLeadingZeros\<close>.

  A destination buffer is the list of its bytes from \<open>str\<close> on. The printers write a prefix of it
  (reversed number, sign, NUL) and reverse that prefix in place; a buffer shorter than what is
  written would be overrun, which shows in the model as a result longer than the buffer. Signed
  division and remainder truncate towards zero (\<open>sdiv\<close>, \<open>smod\<close>); negating the most negative value
  wraps, as it does on the target.
\<close>

section \<open>Definitions\<close>

abbreviation NUL0 :: char where "NUL0 \<equiv> CHR 0x00"

definition poke :: "char list \<Rightarrow> char list \<Rightarrow> char list" where
  "poke str s = s @ drop (length s) str"

fun strreverse :: "char list \<Rightarrow> nat \<Rightarrow> nat \<Rightarrow> char list" where
  "strreverse str b e =
     (if b < e then strreverse (str[e := str ! b, b := str ! e]) (b + 1) (e - 1) else str)"

declare strreverse.simps [simp del]

definition dig10 :: "int \<Rightarrow> char" where
  "dig10 r = char_of (nat ((48 + r) mod 256))"

function stoa_loop :: "int \<Rightarrow> string \<Rightarrow> string" where
  "stoa_loop value wstr =
     (let wstr' = wstr @ [dig10 (value smod 10)]; value' = value sdiv 10
      in if value' \<noteq> 0 then stoa_loop value' wstr' else wstr')"
  by pat_completeness auto
termination
proof (relation "measure (\<lambda>(v, w). nat \<bar>v\<bar>)", goal_cases)
  case (2 v w w' v')
  then show ?case using abs_sdiv_less [of 10 v] by simp
qed simp

fun utoa_loop :: "nat \<Rightarrow> string \<Rightarrow> string" where
  "utoa_loop value wstr =
     (let wstr' = wstr @ [dig10 (int (value mod 10))]; value' = value div 10
      in if value' \<noteq> 0 then utoa_loop value' wstr' else wstr')"

declare stoa_loop.simps [simp del] utoa_loop.simps [simp del]

definition modp_itoa10 :: "u32 \<Rightarrow> char list \<Rightarrow> char list" where
  "modp_itoa10 value str =
     (let value' = (if sint value < 0 then sint (- value) else sint value);
          wstr = stoa_loop value' [];
          wstr = (if sint value < 0 then wstr @ ''-'' else wstr)
      in strreverse (poke str (wstr @ [NUL0])) 0 (length wstr - 1))"

definition modp_uitoa10 :: "u32 \<Rightarrow> char list \<Rightarrow> char list" where
  "modp_uitoa10 value str =
     (let wstr = utoa_loop (unat value) []
      in strreverse (poke str (wstr @ [NUL0])) 0 (length wstr - 1))"

definition modp_ltoa10 :: "u64 \<Rightarrow> char list \<Rightarrow> char list" where
  "modp_ltoa10 value str =
     (let neg = sint value < 0;
          value' = (if neg then sint (- value) else sint value);
          wstr = stoa_loop value' [];
          wstr = (if neg then wstr @ ''-'' else wstr)
      in strreverse (poke str (wstr @ [NUL0])) 0 (length wstr - 1))"

definition modp_ultoa10 :: "u64 \<Rightarrow> char list \<Rightarrow> char list" where
  "modp_ultoa10 value str =
     (let wstr = utoa_loop (unat value) []
      in strreverse (poke str (wstr @ [NUL0])) 0 (length wstr - 1))"

text \<open>\<open>trimLeadingZeros\<close> works on the reversed text; it returns the buffer and the new start.\<close>

function trimLeadingZeros :: "char list \<Rightarrow> nat \<Rightarrow> char list \<times> nat" where
  "trimLeadingZeros str ptr =
     (if ptr + 1 < length str \<and> str ! ptr = CHR ''0'' then
        (if str ! (ptr + 1) = CHR ''.'' \<or> str ! (ptr + 1) = NUL0 then (str, ptr)
         else trimLeadingZeros (str[ptr := NUL0]) (ptr + 1))
      else (str, ptr))"
  by pat_completeness auto
termination
  by (relation "measure (\<lambda>(str, ptr). length str - ptr)") auto

definition itoaX_table :: string where
  "itoaX_table = ''zyxwvutsrqponmlkjihgfedcba9876543210123456789abcdefghijklmnopqrstuvwxyz''"

text \<open>The digit loop of \<open>modp_itoaX\<close>; it also yields the last \<open>tmp_value\<close>, whose sign decides the minus.\<close>

function itoaX_loop :: "int \<Rightarrow> int \<Rightarrow> string \<Rightarrow> string \<times> int" where
  "itoaX_loop base value ptr =
     (let tmp_value = value; value' = value sdiv base;
          ptr' = ptr @ [itoaX_table ! nat (35 + (tmp_value - value' * base))]
      in if value' \<noteq> 0 \<and> 2 \<le> base then itoaX_loop base value' ptr' else (ptr', tmp_value))"
  by pat_completeness auto
termination
proof (relation "measure (\<lambda>(b, v, p). nat \<bar>v\<bar>)", goal_cases)
  case (2 base v ptr tv v' p')
  then show ?case using abs_sdiv_less [of base v] by simp
qed simp

declare itoaX_loop.simps [simp del]

definition modp_itoaX :: "u32 \<Rightarrow> char list \<Rightarrow> int \<Rightarrow> char list" where
  "modp_itoaX value result base =
     (if base < 2 \<or> 36 < base then poke result [NUL0]
      else (case itoaX_loop base (sint value) [] of (ptr, tmp_value) \<Rightarrow>
              let ptr = (if tmp_value < 0 then ptr @ ''-'' else ptr)
              in strreverse (poke result (ptr @ [NUL0])) 0 (length ptr - 1)))"

section \<open>Reversal in place\<close>

lemma strreverse_segment:
  "seg \<noteq> [] \<Longrightarrow> strreverse (xs @ seg @ ys) (length xs) (length xs + length seg - 1) = xs @ rev seg @ ys"
proof (induction "length seg" arbitrary: seg xs ys rule: less_induct)
  case less
  show ?case
  proof (cases "length seg = 1")
    case True
    then obtain c where "seg = [c]" by (cases seg) auto
    then show ?thesis by (subst strreverse.simps) simp
  next
    case False
    with less.prems obtain a m z where seg: "seg = a # m @ [z]"
      by (metis append_butlast_last_id length_Cons list.exhaust list.size(3) One_nat_def)
    have upd: "(xs @ seg @ ys)[length xs + length seg - 1 := (xs @ seg @ ys) ! length xs,
        length xs := (xs @ seg @ ys) ! (length xs + length seg - 1)] = (xs @ [z]) @ m @ (a # ys)"
      by (simp add: seg nth_append list_update_append)
    show ?thesis
    proof (cases "m = []")
      case True
      have "strreverse ((xs @ [z]) @ m @ (a # ys)) (length xs + 1) (length xs) = (xs @ [z]) @ m @ (a # ys)"
        by (subst strreverse.simps) simp
      with upd True show ?thesis
        by (subst strreverse.simps) (simp add: seg)
    next
      case False
      have "strreverse ((xs @ [z]) @ m @ (a # ys)) (length (xs @ [z])) (length (xs @ [z]) + length m - 1) =
          (xs @ [z]) @ rev m @ (a # ys)"
        using False by (intro less.hyps) (simp_all add: seg)
      with upd False show ?thesis
        by (subst strreverse.simps) (simp add: seg)
    qed
  qed
qed

lemma strreverse_prefix:
  "seg \<noteq> [] \<Longrightarrow> strreverse (seg @ ys) 0 (length seg - 1) = rev seg @ ys"
  using strreverse_segment [of seg "[]" ys] by simp

lemma strreverse_poke:
  "w \<noteq> [] \<Longrightarrow> strreverse (poke str (w @ [c])) 0 (length w - 1) = rev w @ c # drop (Suc (length w)) str"
  using strreverse_prefix [of w "c # drop (Suc (length w)) str"] by (simp add: poke_def)

section \<open>Digit loops\<close>

definition dec_char :: "nat \<Rightarrow> char" where "dec_char d = char_of (48 + d)"

lemma dig10_nat: "d < 10 \<Longrightarrow> dig10 (int d) = dec_char d"
proof -
  assume "d < 10"
  then have "nat ((48 + int d) mod 256) = 48 + d" by simp
  then show ?thesis by (simp only: dig10_def dec_char_def)
qed

lemma digit_val_dec_char: "d < 10 \<Longrightarrow> digit_val (dec_char d) = d"
  by (simp add: digit_val_def dec_char_def Let_def)

lemma dec_char_not_special: "d < 10 \<Longrightarrow> dec_char d \<noteq> CHR ''-'' \<and> dec_char d \<noteq> NUL0"
proof -
  assume d: "d < 10"
  have "of_char (dec_char d) = 48 + d" using d by (simp add: dec_char_def)
  then show ?thesis by auto
qed

lemma utoa_loop_digits: "utoa_loop n w = w @ rev (map dec_char (digits 10 n))"
proof (induction n w rule: utoa_loop.induct)
  case (1 n w)
  show ?case
  proof (cases "n < 10")
    case True
    then show ?thesis by (subst utoa_loop.simps) (simp add: digits_small dig10_nat)
  next
    case False
    then have nz: "n div 10 \<noteq> 0" by simp
    have "utoa_loop (n div 10) (w @ [dig10 (int (n mod 10))]) =
        (w @ [dig10 (int (n mod 10))]) @ rev (map dec_char (digits 10 (n div 10)))"
      using nz by (intro "1.IH") simp_all
    moreover have "utoa_loop n w = utoa_loop (n div 10) (w @ [dig10 (int (n mod 10))])"
      using nz by (subst utoa_loop.simps) (simp add: Let_def)
    moreover have "dig10 (int (n mod 10)) = dec_char (n mod 10)" by (simp add: dig10_nat)
    ultimately show ?thesis using False by (simp add: digits_step)
  qed
qed

lemma stoa_loop_nonneg: "stoa_loop (int n) w = utoa_loop n w"
proof (induction n w rule: utoa_loop.induct)
  case (1 n w)
  have eqs: "int n sdiv 10 = int (n div 10)" "int n smod 10 = int (n mod 10)"
    by (simp_all add: sdiv_nonneg smod_mod_positive zdiv_int zmod_int)
  show ?case
  proof (cases "n div 10 = 0")
    case True
    then show ?thesis by (subst stoa_loop.simps, subst utoa_loop.simps) (simp add: eqs)
  next
    case False
    with 1 [OF refl refl] show ?thesis
      by (subst stoa_loop.simps, subst utoa_loop.simps) (simp add: eqs Let_def)
  qed
qed

definition dec_text :: "nat \<Rightarrow> string" where "dec_text n = map dec_char (digits 10 n)"

definition int_text :: "int \<Rightarrow> string" where
  "int_text v = (if v < 0 then CHR ''-'' # dec_text (nat (- v)) else dec_text (nat v))"

lemma dec_text_props:
  "map digit_val (dec_text n) = digits 10 n" "dec_text n \<noteq> []"
  "CHR ''-'' \<notin> set (dec_text n)" "NUL0 \<notin> set (dec_text n)" "hd (dec_text n) \<noteq> CHR ''-''"
proof -
  have d: "d < 10" if "d \<in> set (digits 10 n)" for d
    using digits_bound [of 10 d n] that by simp
  show "map digit_val (dec_text n) = digits 10 n"
    using d by (auto simp: dec_text_def digit_val_dec_char intro!: map_idI)
  show "dec_text n \<noteq> []" by (simp add: dec_text_def)
  show "CHR ''-'' \<notin> set (dec_text n)" "NUL0 \<notin> set (dec_text n)"
    using dec_char_not_special d by (auto simp: dec_text_def) (metis)+
  then show "hd (dec_text n) \<noteq> CHR ''-''"
    by (metis \<open>dec_text n \<noteq> []\<close> hd_in_set)
qed

lemma signed_value_int_text: "signed_value 10 (int_text v) = v"
  by (simp add: signed_value_def int_text_def dec_text_props)

lemma NUL_int_text: "NUL0 \<notin> set (int_text v)"
  by (simp add: int_text_def dec_text_props)

lemma int_text_not_Nil [simp]: "int_text v \<noteq> []"
  by (simp add: int_text_def dec_text_props)

lemma length_dec_text: "n < 10 ^ k \<Longrightarrow> 0 < k \<Longrightarrow> length (dec_text n) \<le> k"
  by (simp add: dec_text_def length_digits_le)

lemma uitoa_text:
  "strreverse (poke str (utoa_loop n [] @ [NUL0])) 0 (length (utoa_loop n []) - 1) =
     dec_text n @ NUL0 # drop (Suc (length (dec_text n))) str"
  by (subst strreverse_poke) (simp_all add: utoa_loop_digits dec_text_def)

lemma itoa_text:
  assumes "v' = \<bar>v\<bar>"
  shows "(let w = stoa_loop v' []; w = (if v < 0 then w @ ''-'' else w)
     in strreverse (poke str (w @ [NUL0])) 0 (length w - 1)) =
     int_text v @ NUL0 # drop (Suc (length (int_text v))) str"
proof -
  have w: "stoa_loop v' [] = rev (dec_text (nat \<bar>v\<bar>))"
    using stoa_loop_nonneg [of "nat \<bar>v\<bar>" "[]"] assms by (simp add: utoa_loop_digits dec_text_def)
  show ?thesis
    unfolding Let_def by (subst strreverse_poke) (auto simp: w int_text_def dec_text_props)
qed
section \<open>The decimal printers\<close>

text \<open>
  What the header promises of a decimal printer: on the values of its domain it writes the
  canonical decimal text and a NUL at the start of the buffer and touches nothing else, within
  \<open>cap\<close> bytes.
\<close>

locale decimal_printer =
  fixes print_num :: "'v \<Rightarrow> char list \<Rightarrow> char list"
    and num :: "'v \<Rightarrow> int"
    and valid :: "'v \<Rightarrow> bool"
    and cap :: nat
  assumes prints: "valid v \<Longrightarrow>
      print_num v str = int_text (num v) @ NUL0 # drop (Suc (length (int_text (num v)))) str"
    and fits: "valid v \<Longrightarrow> length (int_text (num v)) < cap"
begin

lemma read_back: "valid v \<Longrightarrow> signed_value 10 (takeWhile (\<lambda>c. c \<noteq> NUL0) (print_num v str)) = num v"
proof -
  assume v: "valid v"
  have "takeWhile (\<lambda>c. c \<noteq> NUL0) (print_num v str) = int_text (num v)"
    using NUL_int_text [of "num v"] unfolding prints [OF v] by (subst takeWhile_append2) auto
  then show ?thesis by (simp add: signed_value_int_text)
qed

lemma in_bounds:
  assumes "valid v" and "cap \<le> length str"
  shows "length (print_num v str) = length str" and "drop cap (print_num v str) = drop cap str"
  using fits [OF assms(1)] assms(2) by (auto simp: prints [OF assms(1)] drop_Cons')

end

lemma length_int_text:
  assumes "\<bar>v\<bar> < 10 ^ k" and "0 < k"
  shows "length (int_text v) \<le> (if v < 0 then Suc k else k)"
proof -
  have "nat \<bar>v\<bar> < 10 ^ k" using assms(1) by (simp add: nat_less_iff)
  with length_dec_text [OF this assms(2)] show ?thesis by (cases "v < 0") (simp_all add: int_text_def)
qed

interpretation itoa10: decimal_printer modp_itoa10 sint "\<lambda>v. sint v \<noteq> - (2 ^ 31)" 12
proof (unfold_locales, goal_cases)
  case (1 v str)
  then have "(if sint v < 0 then sint (- v) else sint v) = \<bar>sint v\<bar>" by (simp add: sint_neg_word)
  from itoa_text [OF this, of str] show ?case by (simp add: modp_itoa10_def Let_def)
next
  case (2 v)
  have "\<bar>sint v\<bar> < 10 ^ 10" using sint_ge [of v] sint_lt [of v] by simp
  from length_int_text [OF this] show ?case by (simp split: if_splits)
qed

interpretation ltoa10: decimal_printer modp_ltoa10 sint "\<lambda>v. sint v \<noteq> - (2 ^ 63)" 21
proof (unfold_locales, goal_cases)
  case (1 v str)
  then have "(if sint v < 0 then sint (- v) else sint v) = \<bar>sint v\<bar>" by (simp add: sint_neg_word)
  from itoa_text [OF this, of str] show ?case by (simp add: modp_ltoa10_def Let_def)
next
  case (2 v)
  have "\<bar>sint v\<bar> < 10 ^ 19" using sint_ge [of v] sint_lt [of v] by simp
  from length_int_text [OF this] show ?case by (simp split: if_splits)
qed

interpretation uitoa10: decimal_printer modp_uitoa10 uint "\<lambda>_. True" 11
proof (unfold_locales, goal_cases)
  case (1 v str)
  show ?case using uitoa_text [of str "unat v"] by (simp add: modp_uitoa10_def int_text_def)
next
  case (2 v)
  have "\<bar>uint v\<bar> < 10 ^ 10" using unsigned_less [of v, where 'a = int] by simp
  from length_int_text [OF this] show ?case by (simp split: if_splits)
qed

interpretation ultoa10: decimal_printer modp_ultoa10 uint "\<lambda>_. True" 21
proof (unfold_locales, goal_cases)
  case (1 v str)
  show ?case using uitoa_text [of str "unat v"] by (simp add: modp_ultoa10_def int_text_def)
next
  case (2 v)
  have "\<bar>uint v\<bar> < 10 ^ 20" using unsigned_less [of v, where 'a = int] by simp
  from length_int_text [OF this] show ?case by (simp split: if_splits)
qed

text \<open>
  \<open>modp_itoa10\<close> and \<open>modp_ltoa10\<close> write text that reads back as the argument, for every value
  but the most negative one, and touch at most 12 and 21 bytes of the buffer.
\<close>

lemma signed_printers_read_back:
  assumes "sint v \<noteq> - (2 ^ 31)" and "sint w \<noteq> - (2 ^ 63)" and "21 \<le> length str"
  shows "signed_value 10 (takeWhile (\<lambda>c. c \<noteq> NUL0) (modp_itoa10 v str)) = sint v
    \<and> length (modp_itoa10 v str) = length str \<and> drop 12 (modp_itoa10 v str) = drop 12 str
    \<and> signed_value 10 (takeWhile (\<lambda>c. c \<noteq> NUL0) (modp_ltoa10 w str)) = sint w
    \<and> length (modp_ltoa10 w str) = length str \<and> drop 21 (modp_ltoa10 w str) = drop 21 str"
  using assms by (simp add: itoa10.read_back itoa10.in_bounds ltoa10.read_back ltoa10.in_bounds)

text \<open>
  The unsigned printers write text that reads back as the argument, for every value, within 11
  and 21 bytes; and 21 bytes are needed: the largest 64-bit value overruns a buffer of any smaller
  size, in particular one of the 16 bytes the header asks for.
\<close>

lemma unsigned_printers_read_back:
  "signed_value 10 (takeWhile (\<lambda>c. c \<noteq> NUL0) (modp_uitoa10 v str)) = uint v
    \<and> signed_value 10 (takeWhile (\<lambda>c. c \<noteq> NUL0) (modp_ultoa10 w str)) = uint w
    \<and> (11 \<le> length str \<longrightarrow> length (modp_uitoa10 v str) = length str)
    \<and> (21 \<le> length str \<longrightarrow> length (modp_ultoa10 w str) = length str)
    \<and> (length str < 21 \<longrightarrow> length (modp_ultoa10 (- 1) str) = 21)"
proof -
  have "unat (- 1 :: u64) = 18446744073709551615"
    by (simp add: unsigned_minus_1_eq_mask mask_eq_exp_minus_1)
  then have "length (int_text (uint (- 1 :: u64))) = 20"
    using length_digits_gt [of 10 19 18446744073709551615] length_digits_le [of 10 18446744073709551615 20]
    by (simp add: int_text_def dec_text_def)
  then have "length (modp_ultoa10 (- 1) str) = 21" if "length str < 21"
    using that by (simp add: ultoa10.prints)
  then show ?thesis
    by (simp add: uitoa10.read_back uitoa10.in_bounds ultoa10.read_back ultoa10.in_bounds)
qed

text \<open>
  the most negative value is not printed: negating it leaves it negative, the remainders are
  negative, and the characters written are below the digits.
\<close>

lemma itoa10_most_negative:
  "modp_itoa10 0x80000000 str = ''-./,),(-*,('' @ NUL0 # drop 12 str"
proof -
  have "stoa_loop (- 2147483648) [] = rev ''./,),(-*,(''" by code_simp
  then show ?thesis
    by (simp add: modp_itoa10_def strreverse_poke [where w = "rev ''-./,),(-*,(''", simplified] eval_nat_numeral)
qed

section \<open>The printer with a base\<close>

abbreviation xchar :: "nat \<Rightarrow> char" where "xchar d \<equiv> itoaX_table ! (35 + d)"

lemma itoaX_table_entries:
  "d < 36 \<Longrightarrow> itoaX_table ! (35 - d) = xchar d \<and> digit_val (xchar d) = d
     \<and> xchar d \<noteq> NUL0 \<and> xchar d \<noteq> CHR ''-''"
proof -
  have "\<forall>d \<in> set [0..<36]. itoaX_table ! (35 - d) = xchar d \<and> digit_val (xchar d) = d
     \<and> xchar d \<noteq> NUL0 \<and> xchar d \<noteq> CHR ''-''" by code_simp
  then show "d < 36 \<Longrightarrow> ?thesis" by simp
qed

lemma itoaX_step:
  assumes "2 \<le> b" and "b \<le> 36" and "s = 1 \<or> s = - 1"
  shows "(s * int n) sdiv int b = s * int (n div b)"
    and "itoaX_table ! nat (35 + (s * int n - s * int (n div b) * int b)) = xchar (n mod b)"
proof -
  have "int n sdiv int b = int (n div b)"
    using assms(1) by (simp add: sdiv_nonneg zdiv_int)
  then show "(s * int n) sdiv int b = s * int (n div b)"
    using assms(3) by (auto simp: minus_sdiv_eq)
  have r: "int n - int (n div b) * int b = int (n mod b)"
    by (metis minus_div_mult_eq_mod zdiv_int zmod_int)
  have "n mod b < b" using assms(1) by simp
  with assms(2) have "n mod b < 36" by linarith
  then have "nat (35 + int (n mod b)) = 35 + n mod b" "nat (35 - int (n mod b)) = 35 - n mod b"
    by simp_all
  moreover have "s * int n - s * int (n div b) * int b = s * int (n mod b)"
    using r assms(3) by auto
  ultimately show "itoaX_table ! nat (35 + (s * int n - s * int (n div b) * int b)) = xchar (n mod b)"
    using itoaX_table_entries [OF \<open>n mod b < 36\<close>] assms(3) by auto
qed

lemma itoaX_loop_digits:
  assumes "2 \<le> b" and "b \<le> 36" and "s = 1 \<or> s = - 1"
  shows "itoaX_loop (int b) (s * int n) w =
    (w @ rev (map xchar (digits b n)), s * int (hd (digits b n)))"
proof (induction n arbitrary: w rule: less_induct)
  case (less n)
  note st = itoaX_step [OF assms, of n]
  show ?case
  proof (cases "n < b")
    case True
    with st show ?thesis
      by (subst itoaX_loop.simps) (simp add: Let_def digits_small)
  next
    case False
    then have "n div b < n" "n div b \<noteq> 0" using assms(1) by (simp_all add: div_greater_zero_iff)
    with less [of "n div b" "w @ [xchar (n mod b)]"]
    have ih: "itoaX_loop (int b) (s * int (n div b)) (w @ [xchar (n mod b)]) =
        ((w @ [xchar (n mod b)]) @ rev (map xchar (digits b (n div b))), s * int (hd (digits b (n div b))))"
      by blast
    have "s * int (n div b) \<noteq> 0" using \<open>n div b \<noteq> 0\<close> assms(3) by auto
    then have "itoaX_loop (int b) (s * int n) w = itoaX_loop (int b) (s * int (n div b)) (w @ [xchar (n mod b)])"
      using assms(1) by (subst itoaX_loop.simps) (simp only: Let_def st, simp)
    with ih show ?thesis using False assms(1) by (simp add: digits_step)
  qed
qed

text \<open>
  \<open>modp_itoaX\<close> with a base from 2 to 36 writes text that reads back as the signed argument in
  that base, for every value including the most negative one; with any other base it writes the
  empty string.
\<close>

lemma itoaX_reads_back:
  "if 2 \<le> base \<and> base \<le> 36
   then signed_value (nat base) (takeWhile (\<lambda>c. c \<noteq> NUL0) (modp_itoaX v result base)) = sint v
   else takeWhile (\<lambda>c. c \<noteq> NUL0) (modp_itoaX v result base) = []"
proof (cases "2 \<le> base \<and> base \<le> 36")
  case False
  then show ?thesis by (auto simp: modp_itoaX_def poke_def)
next
  case True
  define b where "b = nat base"
  define n where "n = nat \<bar>sint v\<bar>"
  define s :: int where "s = (if sint v < 0 then - 1 else 1)"
  let ?ds = "map xchar (digits b n)"
  from True have b: "2 \<le> b" "b \<le> 36" and base: "base = int b" by (auto simp: b_def)
  have sv: "sint v = s * int n" by (simp add: s_def n_def)
  have loop: "itoaX_loop base (sint v) [] = (rev ?ds, s * int (hd (digits b n)))"
  proof -
    have "s = 1 \<or> s = - 1" by (simp add: s_def)
    from itoaX_loop_digits [OF b this, of n "[]"] show ?thesis by (simp only: base sv append_Nil)
  qed
  have dig: "d < 36" if "d \<in> set (digits b n)" for d
    using digits_bound [OF b(1) that] b(2) by simp
  have neg: "s * int (hd (digits b n)) < 0 \<longleftrightarrow> sint v < 0"
    using digits_hd [OF b(1), of n] by (auto simp: s_def n_def)
  let ?t = "if sint v < 0 then CHR ''-'' # ?ds else ?ds"
  let ?w = "if sint v < 0 then rev ?ds @ ''-'' else rev ?ds"
  have "modp_itoaX v result base = strreverse (poke result (?w @ [NUL0])) 0 (length ?w - 1)"
    using True by (simp add: modp_itoaX_def loop neg)
  also have "\<dots> = rev ?w @ NUL0 # drop (Suc (length ?w)) result"
    by (rule strreverse_poke) simp
  finally have txt1: "modp_itoaX v result base = ?t @ NUL0 # drop (Suc (length ?t)) result"
    by (simp split: if_splits)
  have ent: "xchar d \<noteq> NUL0" "xchar d \<noteq> CHR ''-''" "digit_val (xchar d) = d"
    if "d \<in> set (digits b n)" for d
    using itoaX_table_entries [OF dig [OF that]] by simp_all
  have noNUL: "c \<noteq> NUL0" if "c \<in> set ?t" for c
  proof (cases "c = CHR ''-''")
    case False
    with that obtain d where "d \<in> set (digits b n)" and "c = xchar d" by (auto split: if_splits)
    with ent(1) [of d] show ?thesis by simp
  qed simp
  have nominus: "CHR ''-'' \<notin> set ?ds"
  proof
    assume "CHR ''-'' \<in> set ?ds"
    then obtain d where "d \<in> set (digits b n)" and "CHR ''-'' = xchar d" by auto
    with ent(2) [of d] show False by simp
  qed
  have tw: "takeWhile (\<lambda>c. c \<noteq> NUL0) (modp_itoaX v result base) = ?t"
    unfolding txt1 using noNUL by (subst takeWhile_append2) auto
  have "map digit_val ?ds = digits b n"
    using ent(3) by (simp add: map_idI)
  moreover have "hd ?ds \<noteq> CHR ''-''"
    using nominus by (metis digits_not_Nil hd_in_set list.map_disc_iff)
  ultimately show ?thesis
    using True tw by (cases "sint v < 0") (simp_all add: signed_value_def b_def [symmetric] n_def)
qed

end
