(* ===== verification/Floats.thy ===== *)
theory Floats
  imports Complex_Main Prelude
begin

text \<open>
  IEEE 754 arithmetic as the firmware's soft-float code performs it, on the values it meets:
  positive numbers in the normal range.  A floating point number is the rational it denotes;
  an operation is the exact rational operation followed by rounding to \<open>p\<close> significant bits,
  to nearest with ties to even (\<open>p = 53\<close> for double, \<open>p = 24\<close> for float).
\<close>

section \<open>Rounding\<close>

text \<open>\<open>ilog2 x\<close> is the exponent of the binade of \<open>x\<close>.\<close>

function ilog2 :: "rat \<Rightarrow> int" where
  "ilog2 x = (if x \<le> 0 then 0 else if x < 1 then ilog2 (2 * x) - 1
              else if x < 2 then 0 else ilog2 (x / 2) + 1)"
  by pat_completeness auto
termination
proof (relation "measure (\<lambda>x. nat \<lfloor>x\<rfloor> + (if x < 1 then nat \<lceil>1 / x\<rceil> else 0))", simp, goal_cases)
  case (1 x)
  then have x: "0 < x" "x < 1" by auto
  show ?case
  proof (cases "2 * x < 1")
    case True
    have "1 / (2 * x) \<le> 1 / x - 1" using x True by (simp add: field_simps)
    then have "\<lceil>1 / (2 * x)\<rceil> \<le> \<lceil>1 / x\<rceil> - 1"
      by (metis ceiling_diff_one ceiling_mono)
    moreover have "0 < \<lceil>1 / x\<rceil>" using x by simp
    moreover have "\<lfloor>x\<rfloor> = 0" "\<lfloor>2 * x\<rfloor> = 0" using x True by (simp_all add: floor_eq_iff)
    ultimately show ?thesis using x True by simp
  next
    case False
    have "\<lfloor>2 * x\<rfloor> = 1" using False x by (simp add: floor_eq_iff)
    moreover have "1 < \<lceil>1 / x\<rceil>" using x by (simp add: less_ceiling_iff)
    ultimately show ?thesis using False x by simp
  qed
next
  case (2 x)
  then have x: "2 \<le> x" by auto
  have "\<lfloor>x / 2\<rfloor> \<le> \<lfloor>x - 1\<rfloor>" using x by (intro floor_mono) simp
  moreover have "1 \<le> \<lfloor>x / 2\<rfloor>" using x by (simp add: le_floor_iff)
  ultimately show ?case using x by simp
qed

declare ilog2.simps [simp del]

lemma ilog2_bounds:
  "0 < x \<Longrightarrow> 2 powi ilog2 x \<le> x \<and> x < 2 powi (ilog2 x + 1)"
proof (induction x rule: ilog2.induct)
  case (1 x)
  consider "x < 1" | "1 \<le> x" "x < 2" | "2 \<le> x" by linarith
  then show ?case
  proof cases
    case 1
    have "ilog2 x = ilog2 (2 * x) - 1" using 1 \<open>0 < x\<close> by (subst ilog2.simps) simp
    then show ?thesis
      using "1.IH"(1) 1 \<open>0 < x\<close> by (simp add: power_int_diff power_int_add)
  next
    case 2
    then show ?thesis by (simp add: ilog2.simps)
  next
    case 3
    have "ilog2 x = ilog2 (x / 2) + 1" using 3 by (subst ilog2.simps) simp
    then show ?thesis
      using "1.IH"(2) 3 \<open>0 < x\<close> by (simp add: power_int_add)
  qed
qed

definition rne :: "rat \<Rightarrow> int" where
  "rne x = (let q = \<lfloor>x\<rfloor>; r = x - of_int q
            in if r < 1 / 2 \<or> (r = 1 / 2 \<and> even q) then q else q + 1)"

definition fl :: "nat \<Rightarrow> rat \<Rightarrow> rat" where
  "fl p x = (if x \<le> 0 then 0
             else let e = ilog2 x - (int p - 1) in of_int (rne (x * 2 powi (- e))) * 2 powi e)"

abbreviation fl64 :: "rat \<Rightarrow> rat" where "fl64 \<equiv> fl 53"
abbreviation fl32 :: "rat \<Rightarrow> rat" where "fl32 \<equiv> fl 24"

lemma rne_error: "\<bar>of_int (rne x) - x\<bar> \<le> 1 / 2"
proof -
  have "0 \<le> x - of_int \<lfloor>x\<rfloor>" "x - of_int \<lfloor>x\<rfloor> < 1" by linarith+
  then show ?thesis by (auto simp: rne_def Let_def)
qed

lemma rne_ge: "of_int n \<le> x \<Longrightarrow> n \<le> rne x"
proof -
  assume "of_int n \<le> x"
  then have "n \<le> \<lfloor>x\<rfloor>" by (simp add: le_floor_iff)
  then show ?thesis by (auto simp: rne_def Let_def)
qed

lemma rne_le: "x \<le> of_int n \<Longrightarrow> rne x \<le> n"
proof -
  assume le: "x \<le> of_int n"
  have "\<lfloor>x\<rfloor> \<le> n" using le by linarith
  moreover have "\<lfloor>x\<rfloor> + 1 \<le> n" if "x \<noteq> of_int \<lfloor>x\<rfloor>"
  proof -
    have "of_int \<lfloor>x\<rfloor> < x" using that of_int_floor_le [of x] by linarith
    then show ?thesis using le by linarith
  qed
  ultimately show ?thesis by (auto simp: rne_def Let_def)
qed

text \<open>Rounding errs by at most half a unit in the last place.\<close>

lemma fl_error:
  assumes "0 < x" "x < 2 ^ k"
  shows "\<bar>fl p x - x\<bar> \<le> 2 powi (int k - int p - 1)"
proof -
  define e where "e = ilog2 x - (int p - 1)"
  have fl: "fl p x = of_int (rne (x * 2 powi (- e))) * 2 powi e"
    using assms(1) by (simp add: fl_def e_def Let_def)
  have "\<bar>fl p x - x\<bar> = \<bar>of_int (rne (x * 2 powi (- e))) - x * 2 powi (- e)\<bar> * 2 powi e"
    unfolding fl by (simp add: power_int_minus field_simps flip: abs_mult_pos')
  also have "\<dots> \<le> 1 / 2 * 2 powi e"
    by (intro mult_right_mono rne_error) simp
  also have "\<dots> = 2 powi (ilog2 x - int p)" by (simp add: e_def power_int_diff)
  also have "\<dots> \<le> 2 powi (int k - int p - 1)"
  proof -
    have "(2::rat) powi ilog2 x < 2 powi (int k)"
      using ilog2_bounds [OF assms(1)] assms(2) by simp
    then have "ilog2 x < int k"
      by (metis linorder_not_le power_int_increasing one_le_numeral)
    then show ?thesis by (intro power_int_increasing) auto
  qed
  finally show ?thesis .
qed

text \<open>An integer of at most \<open>p\<close> bits is on the grid: rounding cannot cross it.\<close>

lemma ilog2_less:
  assumes "0 < x" "x < 2 ^ k"
  shows "ilog2 x < int k"
proof -
  have "(2::rat) powi ilog2 x < 2 powi (int k)"
    using ilog2_bounds [OF assms(1)] assms(2) by simp
  then show ?thesis by (metis linorder_not_le power_int_increasing one_le_numeral)
qed

lemma fl_grid:
  assumes "0 < x" "x < 2 ^ p"
  shows "of_nat n \<le> x \<Longrightarrow> of_nat n \<le> fl p x" "x \<le> of_nat n \<Longrightarrow> fl p x \<le> of_nat n"
proof -
  define e where "e = ilog2 x - (int p - 1)"
  have "e \<le> 0" using ilog2_less [OF assms] by (simp add: e_def)
  then obtain k where k: "e = - int k" by (metis int_nat_eq minus_minus neg_0_le_iff_le nonneg_int_cases)
  have "fl p x = of_int (rne (x * 2 powi (- e))) * 2 powi e"
    using assms(1) by (simp add: fl_def e_def Let_def)
  then have fl: "fl p x = of_int (rne (x * 2 ^ k)) / 2 ^ k"
    by (simp add: k power_int_minus field_simps)
  have g: "of_int (int n * 2 ^ k) = (of_nat n * 2 ^ k :: rat)" by simp
  show "of_nat n \<le> fl p x" if "of_nat n \<le> x"
  proof -
    have "int n * 2 ^ k \<le> rne (x * 2 ^ k)"
      by (rule rne_ge) (use that in simp)
    then have "of_int (int n * 2 ^ k) \<le> (of_int (rne (x * 2 ^ k)) :: rat)" by (simp only: of_int_le_iff)
    then show ?thesis unfolding fl g by (simp add: field_simps)
  qed
  show "fl p x \<le> of_nat n" if "x \<le> of_nat n"
  proof -
    have "rne (x * 2 ^ k) \<le> int n * 2 ^ k"
      by (rule rne_le) (use that in simp)
    then have "(of_int (rne (x * 2 ^ k)) :: rat) \<le> of_int (int n * 2 ^ k)" by (simp only: of_int_le_iff)
    then show ?thesis unfolding fl g by (simp add: field_simps)
  qed
qed

lemma fl_pos: "0 < x \<Longrightarrow> 0 < fl p x" if "0 < p"
proof -
  assume x: "0 < x"
  define e where "e = ilog2 x - (int p - 1)"
  have "1 \<le> x * 2 powi (- e)"
  proof -
    have "(1::rat) \<le> 2 powi (ilog2 x) * 2 powi (- e)"
      using that by (simp add: power_int_add [symmetric] e_def)
    also have "\<dots> \<le> x * 2 powi (- e)" using ilog2_bounds [OF x] by (intro mult_right_mono) auto
    finally show ?thesis .
  qed
  then have "1 \<le> rne (x * 2 powi (- e))" by (intro rne_ge) simp
  moreover have "fl p x = of_int (rne (x * 2 powi (- e))) * 2 powi e"
    using x by (simp add: fl_def e_def Let_def)
  ultimately show ?thesis by simp
qed

end
