(* ===== verification/Ftoa.thy ===== *)
theory Ftoa
  imports Numtoa Floats
begin

text \<open>
  \<^verbatim>\<open>util/modp_numtoa.c\<close>, the floating point printers \<^verbatim>\<open>modp_ftoa\<close> and \<^verbatim>\<open>modp_dtoa\<close>.  The two have the
  same text and differ in the type of the intermediate results, so the model has the common steps
  once, with the number \<open>p\<close> of significant bits as an argument (24 for \<^verbatim>\<open>float\<close>, 53 for \<^verbatim>\<open>double\<close>).
  Every arithmetic operation rounds.  Converting a number beyond the range of the integer type is
  left undefined by the language; what the run-time library then returns are the arguments \<open>f2iz\<close>
  and \<open>f2uiz\<close>.  A signed increment past the largest value wraps, as it does on the target.  Infinities
  and not-a-numbers are not modelled.
\<close>

section \<open>Definitions\<close>

definition sfl :: "nat \<Rightarrow> rat \<Rightarrow> rat" where
  "sfl p x = (if x < 0 then - fl p (- x) else fl p x)"

definition aPow10 :: "rat list" where
  "aPow10 = [1, 10, 100, 1000, 10000, 100000, 1000000, 10000000, 100000000, 1000000000]"

definition c_int :: "(rat \<Rightarrow> u32) \<Rightarrow> rat \<Rightarrow> u32" where
  "c_int f2iz x = (if 0 \<le> x \<and> x < 2 ^ 31 then word_of_int \<lfloor>x\<rfloor> else f2iz x)"

definition c_uint :: "(rat \<Rightarrow> u32) \<Rightarrow> rat \<Rightarrow> u32" where
  "c_uint f2uiz x = (if 0 \<le> x \<and> x < 2 ^ 32 then word_of_int \<lfloor>x\<rfloor> else f2uiz x)"

definition clamp_prec :: "int \<Rightarrow> nat" where
  "clamp_prec prec = (if prec < 0 then 0 else if 9 < prec then 9 else nat prec)"

text \<open>The scaled fraction and its rounding; the comparison with the table is done in \<^verbatim>\<open>float\<close> in both functions.\<close>

definition fp_tmp :: "nat \<Rightarrow> nat \<Rightarrow> rat \<Rightarrow> u32 \<Rightarrow> rat" where
  "fp_tmp p prec value whole = sfl p (sfl p (value - sfl p (of_int (sint whole))) * aPow10 ! prec)"

definition fp_round :: "nat \<Rightarrow> nat \<Rightarrow> u32 \<Rightarrow> rat \<Rightarrow> u32 \<Rightarrow> u32 \<times> u32" where
  "fp_round p prec whole tmp frc =
     (let diff = sfl p (tmp - sfl p (of_nat (unat frc)))
      in if 1 / 2 < diff then
           (if aPow10 ! prec \<le> sfl 24 (of_nat (unat (frc + 1))) then (whole + 1, 0)
            else (whole, frc + 1))
         else if diff = 1 / 2 \<and> (frc = 0 \<or> frc AND 1 \<noteq> 0) then (whole, frc + 1)
         else (whole, frc))"

definition fp_whole :: "nat \<Rightarrow> rat \<Rightarrow> u32 \<Rightarrow> u32" where
  "fp_whole p value whole =
     (let diff = sfl p (value - sfl p (of_int (sint whole)))
      in if 1 / 2 < diff then whole + 1
         else if diff = 1 / 2 \<and> whole AND 1 \<noteq> 0 then whole + 1 else whole)"

definition fp_fraction :: "nat \<Rightarrow> u32 \<Rightarrow> string" where
  "fp_fraction prec frc =
     (let wstr = utoa_loop (unat frc) [] in wstr @ replicate (prec - length wstr) CHR ''0'' @ ''.'')"

definition fptoa :: "nat \<Rightarrow> rat \<Rightarrow> (rat \<Rightarrow> u32) \<Rightarrow> (rat \<Rightarrow> u32) \<Rightarrow> rat \<Rightarrow> char list \<Rightarrow> int \<Rightarrow> char list" where
  "fptoa p thres_max f2iz f2uiz value0 str prec0 =
     (let prec = clamp_prec prec0;
          neg = value0 < 0;
          value = (if neg then - value0 else value0);
          whole = c_int f2iz value;
          tmp = fp_tmp p prec value whole;
          frc = c_uint f2uiz tmp
      in case fp_round p prec whole tmp frc of (whole, frc) \<Rightarrow>
           if thres_max < value then poke str (''3735928559'' @ [NUL0])
           else let whole = (if prec = 0 then fp_whole p value whole else whole);
                    wstr = (if prec = 0 then [] else fp_fraction prec frc);
                    wstr = stoa_loop (sint whole) wstr;
                    wstr = (if neg then wstr @ ''-'' else wstr);
                    str = poke str (wstr @ [NUL0]);
                    str = (if 0 < prec then fst (trimLeadingZeros str 0) else str)
                in strreverse str 0 (length wstr - 1))"

definition modp_ftoa :: "(rat \<Rightarrow> u32) \<Rightarrow> (rat \<Rightarrow> u32) \<Rightarrow> rat \<Rightarrow> char list \<Rightarrow> int \<Rightarrow> char list" where
  "modp_ftoa f2iz f2uiz value str prec = fptoa 24 (sfl 24 0x7FFFFFFF) f2iz f2uiz value str prec"

definition modp_dtoa :: "(rat \<Rightarrow> u32) \<Rightarrow> (rat \<Rightarrow> u32) \<Rightarrow> rat \<Rightarrow> char list \<Rightarrow> int \<Rightarrow> char list" where
  "modp_dtoa f2iz f2uiz value str prec = fptoa 53 (sfl 53 0x7FFFFFFFFFFFFFFF) f2iz f2uiz value str prec"

section \<open>Exact operations\<close>

lemma rne_int [simp]: "rne (of_int n) = n"
  by (simp add: rne_def Let_def)

text \<open>The numbers a format holds: a mantissa of \<open>p\<close> bits and an exponent.\<close>

lemma fl_exact:
  assumes "0 \<le> m" and "m < 2 ^ p"
  shows "fl p (of_int m * 2 powi e) = of_int m * 2 powi e"
proof (cases "m = 0")
  case False
  let ?x = "of_int m * 2 powi e :: rat"
  have x: "0 < ?x" using False assms(1) by simp
  have "ilog2 ?x - (int p - 1) \<le> e"
  proof (rule ccontr)
    assume "\<not> ?thesis"
    then have "int p + e \<le> ilog2 ?x" by simp
    then have "(2::rat) powi (int p + e) \<le> 2 powi ilog2 ?x" by (intro power_int_increasing) auto
    also have "\<dots> \<le> ?x" using ilog2_bounds [OF x] by blast
    finally have "(2::rat) ^ p \<le> of_int m" by (simp add: power_int_add)
    then have "of_int (2 ^ p) \<le> (of_int m :: rat)" by simp
    then have "2 ^ p \<le> m" by (simp only: of_int_le_iff)
    with assms(2) show False by simp
  qed
  then obtain j where j: "e = ilog2 ?x - (int p - 1) + int j"
    by (metis add_diff_cancel_left' diff_ge_0_iff_ge nonneg_int_cases diff_add_cancel add.commute)
  define d where "d = ilog2 ?x - (int p - 1)"
  have *: "?x * 2 powi (- d) = of_int (m * 2 ^ j)"
  proof -
    have "2 powi e * 2 powi (- d) = (2 ^ j :: rat)"
      using j by (simp add: power_int_add [symmetric] d_def [symmetric])
    then show ?thesis by (simp add: mult.assoc)
  qed
  have "fl p ?x = of_int (rne (?x * 2 powi (- d))) * 2 powi d"
    using x by (simp add: fl_def d_def Let_def)
  also have "\<dots> = ?x * 2 powi (- d) * 2 powi d" unfolding * by (simp only: rne_int)
  also have "\<dots> = ?x" by (simp add: mult.assoc power_int_add [symmetric])
  finally show ?thesis .
qed (simp add: fl_def)

lemma fl_form:
  assumes "0 < p" and "0 \<le> x"
  obtains m e where "0 \<le> m" and "m < 2 ^ p" and "fl p x = of_int m * 2 powi e"
proof (cases "x = 0")
  case True
  then show ?thesis using that [of 0 0] by (simp add: fl_def)
next
  case False
  define d where "d = ilog2 x - (int p - 1)"
  let ?n = "rne (x * 2 powi (- d))"
  have x: "0 < x" using False assms(2) by simp
  have fl: "fl p x = of_int ?n * 2 powi d" using x by (simp add: fl_def d_def Let_def)
  have "x * 2 powi (- d) \<le> 2 powi (ilog2 x + 1) * 2 powi (- d)"
    using ilog2_bounds [OF x] by (intro mult_right_mono) auto
  also have "\<dots> = 2 powi (int p)" by (simp add: power_int_add [symmetric] d_def)
  finally have "x * 2 powi (- d) \<le> of_int (2 ^ p)" by simp
  then have le: "?n \<le> 2 ^ p" by (rule rne_le)
  have ge: "0 \<le> ?n" using x by (intro rne_ge) simp
  show ?thesis
  proof (cases "?n = 2 ^ p")
    case True
    have "(2::int) ^ (p - 1) < 2 ^ p" using assms(1) by simp
    moreover have "fl p x = of_int (2 ^ (p - 1)) * 2 powi (d + 1)"
      using assms(1) unfolding fl True by (simp add: power_int_add power_eq_if)
    ultimately show ?thesis using that [of "2 ^ (p - 1)" "d + 1"] by simp
  next
    case False
    then show ?thesis using that [of ?n d] fl le ge by simp
  qed
qed

lemma fl_idem: "0 < p \<Longrightarrow> 0 \<le> x \<Longrightarrow> fl p (fl p x) = fl p x"
  by (metis fl_form fl_exact)

lemma fl_nonneg [simp]: "0 \<le> fl p x" if "0 < p"
  using fl_pos [OF that, of x] by (cases "0 < x") (auto simp: fl_def)

lemma sfl_nonneg [simp]: "0 \<le> x \<Longrightarrow> sfl p x = fl p x"
  by (simp add: sfl_def)

text \<open>Splitting a number into its whole part and its fraction is exact.\<close>

lemma fl_split:
  assumes "0 < p" and "0 \<le> x" and "fl p x = x"
  shows "fl p (of_int \<lfloor>x\<rfloor>) = of_int \<lfloor>x\<rfloor>" and "fl p (x - of_int \<lfloor>x\<rfloor>) = x - of_int \<lfloor>x\<rfloor>"
proof -
  obtain m e where m: "0 \<le> m" "m < 2 ^ p" and x: "x = of_int m * 2 powi e"
    using fl_form [OF assms(1,2)] assms(3) by metis
  have "fl p (of_int \<lfloor>x\<rfloor>) = of_int \<lfloor>x\<rfloor> \<and> fl p (x - of_int \<lfloor>x\<rfloor>) = x - of_int \<lfloor>x\<rfloor>"
  proof (cases "0 \<le> e")
    case True
    then obtain n where "e = int n" using nonneg_int_cases by blast
    then have "x = of_int (m * 2 ^ n)" by (simp add: x)
    then have "of_int \<lfloor>x\<rfloor> = x" by (metis floor_of_int)
    moreover have "fl p 0 = 0" by (simp add: fl_def)
    ultimately show ?thesis using assms(3) by (metis diff_self)
  next
    case False
    then obtain n where n: "e = - int n" by (metis int_cases3 linorder_not_less neg_0_less_iff_less less_imp_le of_nat_0_le_iff)
    have xn: "x = of_int m / of_int (2 ^ n)" by (simp add: x n power_int_minus field_simps)
    have fl: "\<lfloor>x\<rfloor> = m div 2 ^ n" unfolding xn by (rule floor_divide_of_int_eq)
    have "m div 2 ^ n \<le> m" using zdiv_mono2 [of m 1 "2 ^ n"] m(1) by simp
    then have w: "0 \<le> m div 2 ^ n" "m div 2 ^ n < 2 ^ p" using m by (simp_all add: pos_imp_zdiv_nonneg_iff)
    have "m mod 2 ^ n \<le> m" using m(1) by (simp add: zmod_le_nonneg_dividend)
    then have r: "0 \<le> m mod 2 ^ n" "m mod 2 ^ n < 2 ^ p" using m by simp_all
    have "x - of_int \<lfloor>x\<rfloor> = (of_int m - of_int (m div 2 ^ n) * of_int (2 ^ n)) / of_int (2 ^ n)"
      unfolding fl by (simp add: xn diff_divide_distrib)
    also have "of_int m - of_int (m div 2 ^ n) * of_int (2 ^ n) = (of_int (m mod 2 ^ n) :: rat)"
      by (metis minus_div_mult_eq_mod of_int_diff of_int_mult)
    finally have d: "x - of_int \<lfloor>x\<rfloor> = of_int (m mod 2 ^ n) * 2 powi e"
      by (simp add: n power_int_minus field_simps)
    show ?thesis
      using fl_exact [OF w, of 0] fl_exact [OF r, of e] unfolding d unfolding fl by simp
  qed
  then show "fl p (of_int \<lfloor>x\<rfloor>) = of_int \<lfloor>x\<rfloor>" "fl p (x - of_int \<lfloor>x\<rfloor>) = x - of_int \<lfloor>x\<rfloor>" by blast+
qed

section \<open>The text\<close>

definition frac_text :: "nat \<Rightarrow> nat \<Rightarrow> string" where
  "frac_text k n = map dec_char (replicate (k - length (digits 10 n)) 0 @ digits 10 n)"

definition trim_text :: "string \<Rightarrow> string" where
  "trim_text s = (if list_all (\<lambda>c. c = CHR ''0'') s then ''0'' else rev (dropWhile (\<lambda>c. c = CHR ''0'') (rev s)))"

definition fp_text :: "bool \<Rightarrow> nat \<Rightarrow> nat \<Rightarrow> nat \<Rightarrow> string" where
  "fp_text neg whole k n =
     (if neg then ''-'' else []) @ dec_text whole @ (if k = 0 then [] else CHR ''.'' # trim_text (frac_text k n))"

abbreviation cstr :: "char list \<Rightarrow> string" where "cstr \<equiv> takeWhile (\<lambda>c. c \<noteq> NUL0)"

lemma dec_char_0: "dec_char 0 = CHR ''0''"
  by code_simp

lemma all_zeros: "list_all (\<lambda>c. c = CHR ''0'') s \<Longrightarrow> s \<noteq> [] \<Longrightarrow> \<exists>n. s = replicate (Suc n) CHR ''0''"
proof -
  assume "list_all (\<lambda>c. c = CHR ''0'') s" and "s \<noteq> []"
  then have "replicate (length s) CHR ''0'' = s" and "length s = Suc (length s - 1)"
    by (auto simp: list_all_iff intro: replicate_length_same)
  then show ?thesis by metis
qed

lemma dec_char_dot: "d < 10 \<Longrightarrow> dec_char d \<noteq> CHR ''.''"
proof -
  assume d: "d < 10"
  have "of_char (dec_char d) = 48 + d" using d by (simp add: dec_char_def)
  then show ?thesis by auto
qed

lemma frac_text_chars:
  "c \<in> set (frac_text k n) \<Longrightarrow> c \<noteq> CHR ''.'' \<and> c \<noteq> NUL0" "frac_text k n \<noteq> []"
  using digits_bound [of 10 _ n] by (auto simp: frac_text_def dec_char_0 dec_char_dot dec_char_not_special)

lemma dec_text_dot: "CHR ''.'' \<notin> set (dec_text n)"
  using digits_bound [of 10 _ n] dec_char_dot by (auto simp: dec_text_def) metis

lemma fp_fraction_text: "fp_fraction k f = rev (frac_text k (unat f)) @ ''.''"
  by (simp add: fp_fraction_def frac_text_def utoa_loop_digits dec_char_0 rev_map Let_def)

text \<open>Trimming the reversed text.\<close>

declare trimLeadingZeros.simps [simp del]

lemma trim_to_digit:
  "c \<noteq> CHR ''0'' \<Longrightarrow> c \<noteq> CHR ''.'' \<Longrightarrow> c \<noteq> NUL0 \<Longrightarrow>
   fst (trimLeadingZeros (pre @ replicate j CHR ''0'' @ c # rest) (length pre)) = pre @ replicate j NUL0 @ c # rest"
proof (induction j arbitrary: pre)
  case 0
  then show ?case by (subst trimLeadingZeros.simps) (simp add: nth_append)
next
  case (Suc j)
  have "(pre @ replicate (Suc j) CHR ''0'' @ c # rest) ! (length pre + 1) \<in> {CHR ''0'', c}"
    by (cases j) (simp_all add: nth_append)
  then have "trimLeadingZeros (pre @ replicate (Suc j) CHR ''0'' @ c # rest) (length pre) =
      trimLeadingZeros ((pre @ [NUL0]) @ replicate j CHR ''0'' @ c # rest) (length (pre @ [NUL0]))"
    using Suc.prems by (subst trimLeadingZeros.simps) (auto simp: nth_append list_update_append)
  then show ?case using Suc.IH [OF Suc.prems, of "pre @ [NUL0]"] by simp
qed

lemma trim_to_dot:
  "fst (trimLeadingZeros (pre @ replicate (Suc j) CHR ''0'' @ CHR ''.'' # rest) (length pre)) =
     pre @ replicate j NUL0 @ CHR ''0'' # CHR ''.'' # rest"
proof (induction j arbitrary: pre)
  case 0
  then show ?case by (subst trimLeadingZeros.simps) (simp add: nth_append)
next
  case (Suc j)
  have "trimLeadingZeros (pre @ replicate (Suc (Suc j)) CHR ''0'' @ CHR ''.'' # rest) (length pre) =
      trimLeadingZeros ((pre @ [NUL0]) @ replicate (Suc j) CHR ''0'' @ CHR ''.'' # rest) (length (pre @ [NUL0]))"
    by (subst trimLeadingZeros.simps) (simp add: nth_append list_update_append)
  then show ?case using Suc.IH [of "pre @ [NUL0]"] by simp
qed

lemma trim_text_props:
  assumes "s \<noteq> []"
  shows "s = trim_text s @ replicate (length s - length (trim_text s)) CHR ''0''" and "set (trim_text s) \<subseteq> set s"
    and "trim_text s \<noteq> []"
proof -
  have "s = trim_text s @ replicate (length s - length (trim_text s)) CHR ''0'' \<and> set (trim_text s) \<subseteq> set s \<and> trim_text s \<noteq> []"
  proof (cases "list_all (\<lambda>c. c = CHR ''0'') s")
    case True
    then obtain n where "s = replicate (Suc n) CHR ''0''" using all_zeros assms by blast
    then show ?thesis by (simp add: trim_text_def list_all_iff)
  next
    case False
    let ?z = "takeWhile (\<lambda>c. c = CHR ''0'') (rev s)"
    have "?z = replicate (length ?z) CHR ''0''"
      by (metis (full_types) replicate_length_same set_takeWhileD)
    moreover have "rev s = ?z @ dropWhile (\<lambda>c. c = CHR ''0'') (rev s)" by simp
    ultimately have "s = rev (dropWhile (\<lambda>c. c = CHR ''0'') (rev s)) @ replicate (length ?z) CHR ''0''"
      by (metis rev_append rev_replicate rev_rev_ident)
    moreover have "length ?z = length s - length (dropWhile (\<lambda>c. c = CHR ''0'') (rev s))"
      by (metis add_diff_cancel_right' length_append length_rev takeWhile_dropWhile_id)
    moreover have "dropWhile (\<lambda>c. c = CHR ''0'') (rev s) \<noteq> []" using False by (auto simp: list_all_iff)
    ultimately show ?thesis
      using False by (auto simp: trim_text_def list_all_iff dest: set_dropWhileD)
  qed
  then show "s = trim_text s @ replicate (length s - length (trim_text s)) CHR ''0''"
    "set (trim_text s) \<subseteq> set s" "trim_text s \<noteq> []" by blast+
qed

lemma trim_buffer:
  assumes "s \<noteq> []" and ok: "\<And>c. c \<in> set s \<Longrightarrow> c \<noteq> CHR ''.'' \<and> c \<noteq> NUL0"
  shows "fst (trimLeadingZeros (rev s @ CHR ''.'' # rest) 0) =
    replicate (length s - length (trim_text s)) NUL0 @ rev (trim_text s) @ CHR ''.'' # rest"
proof (cases "list_all (\<lambda>c. c = CHR ''0'') s")
  case True
  then obtain n where "s = replicate (Suc n) CHR ''0''" using all_zeros assms(1) by blast
  then show ?thesis using trim_to_dot [of "[]" n rest] by (simp add: trim_text_def list_all_iff replicate_app_Cons_same)
next
  case False
  let ?r = "dropWhile (\<lambda>c. c = CHR ''0'') (rev s)"
  have "?r \<noteq> []" using False by (auto simp: list_all_iff)
  then obtain c r where r: "?r = c # r" by (cases ?r) auto
  have t: "trim_text s = rev (c # r)" using False r by (simp add: trim_text_def)
  have "c \<in> set s" using r by (metis list.set_intros(1) set_dropWhileD set_rev)
  then have c: "c \<noteq> CHR ''0''" "c \<noteq> CHR ''.''" "c \<noteq> NUL0"
    using ok r hd_dropWhile [of "\<lambda>c. c = CHR ''0''" "rev s"] by auto
  define n where "n = length s - length (trim_text s)"
  have "rev s = rev (trim_text s @ replicate n CHR ''0'')"
    unfolding n_def by (rule arg_cong [OF trim_text_props(1) [OF assms(1)]])
  then have "rev s = replicate n CHR ''0'' @ c # r" by (simp add: t)
  then have "fst (trimLeadingZeros (rev s @ CHR ''.'' # rest) 0) =
      replicate n NUL0 @ c # r @ CHR ''.'' # rest"
    using trim_to_digit [OF c, of "[]" n "r @ CHR ''.'' # rest"] by simp
  then show ?thesis unfolding n_def by (simp add: t)
qed

text \<open>The buffer the printers leave, as a string.\<close>

lemma emit_text:
  assumes "w = (if k = 0 then [] else fp_fraction k f)"
    and "w' = stoa_loop (int whole) w" and "w'' = (if neg then w' @ ''-'' else w')"
    and "buf = poke str (w'' @ [NUL0])"
  shows "cstr (strreverse (if 0 < k then fst (trimLeadingZeros buf 0) else buf) 0 (length w'' - 1)) =
    fp_text neg whole k (unat f)"
proof -
  let ?sg = "if neg then ''-'' else []" and ?F = "frac_text k (unat f)"
  let ?tail = "NUL0 # drop (Suc (length w'')) str"
  have w'': "w'' = w @ rev (dec_text whole) @ ?sg"
    by (simp add: assms(2,3) stoa_loop_nonneg utoa_loop_digits dec_text_def)
  have buf: "buf = w @ rev (dec_text whole) @ ?sg @ ?tail" by (simp add: assms(4) poke_def w'')
  have nn: "c \<noteq> NUL0" if "c \<in> set (dec_text whole)" for c using that dec_text_props(4) by metis
  show ?thesis
  proof (cases "k = 0")
    case True
    have w: "w = []" using True by (simp add: assms(1))
    have "strreverse buf 0 (length w'' - 1) = rev (rev (dec_text whole) @ ?sg) @ ?tail"
      using strreverse_prefix [of "rev (dec_text whole) @ ?sg" ?tail] dec_text_props(2) [of whole]
      by (simp add: buf w'' w)
    then have "cstr (strreverse buf 0 (length w'' - 1)) = ?sg @ dec_text whole"
      using nn by (cases neg) (simp_all add: takeWhile_append2)
    then show ?thesis using True by (simp add: fp_text_def)
  next
    case False
    let ?n = "length ?F - length (trim_text ?F)"
    note F = frac_text_chars(1) [of _ k "unat f"] frac_text_chars(2) [of k "unat f"]
    have w: "w = rev ?F @ ''.''" using False by (simp add: assms(1) fp_fraction_text)
    have "fst (trimLeadingZeros buf 0) = (replicate ?n NUL0 @ rev (trim_text ?F) @ CHR ''.'' # rev (dec_text whole) @ ?sg) @ ?tail"
      using trim_buffer [of ?F "rev (dec_text whole) @ ?sg @ ?tail"] F by (simp add: buf w)
    moreover have "length w'' = length (replicate ?n NUL0 @ rev (trim_text ?F) @ CHR ''.'' # rev (dec_text whole) @ ?sg)"
      using arg_cong [OF trim_text_props(1) [OF F(2)], of length] by (simp add: w'' w)
    ultimately have "strreverse (fst (trimLeadingZeros buf 0)) 0 (length w'' - 1) =
        rev (replicate ?n NUL0 @ rev (trim_text ?F) @ CHR ''.'' # rev (dec_text whole) @ ?sg) @ ?tail"
      using strreverse_prefix [of "replicate ?n NUL0 @ rev (trim_text ?F) @ CHR ''.'' # rev (dec_text whole) @ ?sg" ?tail]
      by simp
    then have "strreverse (fst (trimLeadingZeros buf 0)) 0 (length w'' - 1) =
        (?sg @ dec_text whole @ CHR ''.'' # trim_text ?F) @ replicate ?n NUL0 @ ?tail" by simp
    moreover have "c \<noteq> NUL0" if "c \<in> set (trim_text ?F)" for c
      using that trim_text_props(2) [OF F(2)] F(1) by blast
    ultimately have "cstr (strreverse (fst (trimLeadingZeros buf 0)) 0 (length w'' - 1)) =
        ?sg @ dec_text whole @ CHR ''.'' # trim_text ?F"
      using nn by (cases neg; cases ?n) (simp_all add: takeWhile_append2)
    then show ?thesis using False by (simp add: fp_text_def)
  qed
qed

section \<open>The value of a decimal text\<close>

definition frac_value :: "string \<Rightarrow> rat" where
  "frac_value s = of_nat (nat_of_digits 10 (map digit_val s)) / 10 ^ length s"

definition dec_value :: "string \<Rightarrow> rat" where
  "dec_value s =
     (let body = (if s \<noteq> [] \<and> hd s = CHR ''-'' then tl s else s);
          i = takeWhile (\<lambda>c. c \<noteq> CHR ''.'') body; f = drop (Suc (length i)) body;
          v = of_nat (nat_of_digits 10 (map digit_val i)) + frac_value f
      in if s \<noteq> [] \<and> hd s = CHR ''-'' then - v else v)"

lemma frac_value_zeros: "frac_value (s @ replicate n CHR ''0'') = frac_value s"
proof (induction n)
  case (Suc n)
  have "digit_val CHR ''0'' = 0" by code_simp
  then have "frac_value (s' @ ''0'') = frac_value s'" for s'
    by (simp add: frac_value_def field_simps)
  from this [of "s @ replicate n CHR ''0''"] show ?case using Suc by (simp add: replicate_append_same)
qed simp

lemma frac_value_frac_text: "n < 10 ^ k \<Longrightarrow> 0 < k \<Longrightarrow> frac_value (frac_text k n) = of_nat n / 10 ^ k"
proof -
  assume n: "n < 10 ^ k" "0 < k"
  have "length (digits 10 n) \<le> k" using length_digits_le [of 10 n k] n by simp
  moreover have "map digit_val (frac_text k n) = replicate (k - length (digits 10 n)) 0 @ digits 10 n"
    using digits_bound [of 10 _ n] by (auto simp: frac_text_def digit_val_dec_char intro!: map_idI)
  moreover have "nat_of_digits 10 (replicate j 0 @ ds) = nat_of_digits 10 ds" for j ds
    by (induction j) (simp_all add: nat_of_digits_Cons)
  ultimately show ?thesis by (simp add: frac_value_def) (simp add: frac_text_def)
qed

lemma dec_value_fp_text:
  assumes "n < 10 ^ k"
  shows "dec_value (fp_text neg whole k n) = (if neg then - 1 else 1) * (of_nat whole + of_nat n / 10 ^ k)"
proof -
  let ?f = "if k = 0 then [] else trim_text (frac_text k n)"
  let ?b = "dec_text whole @ (if k = 0 then [] else CHR ''.'' # trim_text (frac_text k n))"
  have hd: "hd ?b \<noteq> CHR ''-''" "?b \<noteq> []" using dec_text_props(2,5) [of whole] by (simp_all add: hd_append)
  have "takeWhile (\<lambda>c. c \<noteq> CHR ''.'') ?b = dec_text whole"
    using dec_text_dot [of whole] by (auto simp: takeWhile_append)
  moreover have "drop (Suc (length (dec_text whole))) ?b = ?f" by simp
  moreover have "frac_value ?f = of_nat n / 10 ^ k"
  proof (cases "k = 0")
    case False
    then show ?thesis
      using frac_value_frac_text [OF assms] trim_text_props(1) [OF frac_text_chars(2) [of k n]] frac_value_zeros
      by (metis not_gr_zero)
  qed (use assms in \<open>simp add: frac_value_def\<close>)
  ultimately have "of_nat (nat_of_digits 10 (map digit_val (takeWhile (\<lambda>c. c \<noteq> CHR ''.'') ?b))) +
      frac_value (drop (Suc (length (takeWhile (\<lambda>c. c \<noteq> CHR ''.'') ?b))) ?b) = of_nat whole + of_nat n / 10 ^ k"
    by (simp add: dec_text_props(1))
  then show ?thesis using hd by (cases neg) (simp_all only: dec_value_def fp_text_def Let_def, simp_all)
qed

section \<open>Accuracy\<close>

text \<open>The scaled fraction the functions compute: exact up to the multiplication by the power of ten.\<close>

definition scaled :: "nat \<Rightarrow> nat \<Rightarrow> rat \<Rightarrow> rat" where
  "scaled p k v = fl p ((v - of_int \<lfloor>v\<rfloor>) * 10 ^ k)"

lemma aPow10_nth: "k \<le> 9 \<Longrightarrow> aPow10 ! k = 10 ^ k"
proof -
  have "\<forall>k \<in> set [0..<10]. aPow10 ! k = 10 ^ k" by code_simp
  then show "k \<le> 9 \<Longrightarrow> ?thesis" by simp
qed

lemma fraction_below_one:
  assumes "0 < p" and "0 \<le> u" and "u < 1" and "fl p u = u"
  shows "u \<le> 1 - 1 / 2 ^ p"
proof -
  obtain m e where m: "0 \<le> m" "m < 2 ^ p" and u: "u = of_int m * 2 powi e"
    using fl_form [OF assms(1,2)] assms(4) by metis
  have half: "(1::rat) / 2 ^ p \<le> 1 / 2" using assms(1) by (simp add: field_simps self_le_power)
  show ?thesis
  proof (cases "m = 0")
    case True
    then show ?thesis using half by (simp add: u)
  next
    case False
    have "e < 0"
    proof (rule ccontr)
      assume "\<not> e < 0"
      then have "(1::rat) \<le> 2 powi e" by (intro one_le_power_int) auto
      moreover have "(1::rat) \<le> of_int m" using False m(1) by simp
      ultimately have "1 \<le> u" unfolding u using mult_mono [of 1 "of_int m :: rat" 1 "2 powi e"] by simp
      then show False using assms(3) by simp
    qed
    then obtain n where n: "e = - int n" by (metis less_imp_le minus_minus neg_0_le_iff_le nonneg_int_cases)
    have um: "u * 2 ^ n = of_int m" by (simp add: u n power_int_minus)
    show ?thesis
    proof (cases "n \<le> p")
      case True
      have "of_int m < (2 ^ n :: rat)" using um assms(3) by (simp flip: um)
      then have "m < 2 ^ n" by (metis of_int_less_iff of_int_numeral of_int_power)
      then have "m + 1 \<le> 2 ^ n" by simp
      then have "of_int (m + 1) \<le> (of_int (2 ^ n) :: rat)" by (simp only: of_int_le_iff)
      then have "u * 2 ^ n \<le> 2 ^ n - 1" by (simp add: um)
      then have "u \<le> 1 - 1 / 2 ^ n" by (simp add: field_simps)
      moreover have "(1::rat) / 2 ^ p \<le> 1 / 2 ^ n" using True by (simp add: field_simps power_increasing)
      ultimately show ?thesis by linarith
    next
      case False
      have "of_int m < (2 ^ p :: rat)" using m(2) by (metis of_int_less_iff of_int_numeral of_int_power)
      then have "u * 2 ^ n < 2 ^ p" by (simp add: um)
      also have "\<dots> \<le> 2 ^ (n - 1)" using False by (intro power_increasing) auto
      finally have "u * 2 ^ n < 2 ^ n / 2" using False by (simp add: power_diff)
      then have "u < 1 / 2" by simp
      then show ?thesis using half by linarith
    qed
  qed
qed

lemma pow10_binade: "k \<in> {1..7} \<Longrightarrow> \<exists>j \<le> 24. (2::rat) ^ j < 2 * 10 ^ k \<and> (10::rat) ^ k < 2 ^ j"
proof -
  assume "k \<in> {1..7}"
  then have "k = 1 \<or> k = 2 \<or> k = 3 \<or> k = 4 \<or> k = 5 \<or> k = 6 \<or> k = 7" by auto
  moreover have "(2::rat) ^ 4 < 2 * 10 ^ 1 \<and> (10::rat) ^ 1 < 2 ^ 4" "(2::rat) ^ 7 < 2 * 10 ^ 2 \<and> (10::rat) ^ 2 < 2 ^ 7"
    "(2::rat) ^ 10 < 2 * 10 ^ 3 \<and> (10::rat) ^ 3 < 2 ^ 10" "(2::rat) ^ 14 < 2 * 10 ^ 4 \<and> (10::rat) ^ 4 < 2 ^ 14"
    "(2::rat) ^ 17 < 2 * 10 ^ 5 \<and> (10::rat) ^ 5 < 2 ^ 17" "(2::rat) ^ 20 < 2 * 10 ^ 6 \<and> (10::rat) ^ 6 < 2 ^ 20"
    "(2::rat) ^ 24 < 2 * 10 ^ 7 \<and> (10::rat) ^ 7 < 2 ^ 24" by simp_all
  moreover have "(4::nat) \<le> 24" "(7::nat) \<le> 24" "(10::nat) \<le> 24" "(14::nat) \<le> 24" "(17::nat) \<le> 24" "(20::nat) \<le> 24" by simp_all
  ultimately show ?thesis by (metis order_refl)
qed

lemma scaled_props:
  assumes p: "24 \<le> p" and v: "0 \<le> v" "fl p v = v" and k: "k \<le> 7"
  shows "0 \<le> scaled p k v" and "scaled p k v < 10 ^ k"
    and "\<bar>scaled p k v - (v - of_int \<lfloor>v\<rfloor>) * 10 ^ k\<bar> \<le> 2 powi (23 - int p)"
    and "fl p (scaled p k v) = scaled p k v"
proof -
  define u where "u = v - of_int \<lfloor>v\<rfloor>"
  have u: "0 \<le> u" "u < 1" "fl p u = u" using fl_split(2) [of p v] v p by (simp_all add: u_def) linarith+
  have s: "scaled p k v = fl p (u * 10 ^ k)" by (simp add: scaled_def u_def)
  show "0 \<le> scaled p k v" using p by (simp add: s)
  show "fl p (scaled p k v) = scaled p k v" using p u by (simp add: s fl_idem)
  have "scaled p k v < 10 ^ k \<and> \<bar>scaled p k v - u * 10 ^ k\<bar> \<le> 2 powi (23 - int p)"
  proof (cases "k = 0 \<or> u = 0")
    case True
    then have "scaled p k v = u * 10 ^ k" using u by (auto simp: s fl_def)
    then show ?thesis using u True by auto
  next
    case False
    then obtain j where j: "j \<le> 24" "(2::rat) ^ j < 2 * 10 ^ k" "(10::rat) ^ k < 2 ^ j"
      using pow10_binade [of k] k by auto
    have x: "0 < u * 10 ^ k" "u * 10 ^ k < 2 ^ j"
    proof -
      have "u * 10 ^ k < 1 * 10 ^ k" using u(2) by (intro mult_strict_right_mono) auto
      with j(3) show "u * 10 ^ k < 2 ^ j" by (metis mult_1 order_less_trans)
    qed (use False u(1) in simp)
    have err: "\<bar>scaled p k v - u * 10 ^ k\<bar> \<le> 2 powi (int j - int p - 1)"
      unfolding s by (rule fl_error [OF x])
    have "2 powi (int j - int p - 1) \<le> (2 powi (23 - int p) :: rat)"
      using j(1) by (intro power_int_increasing) auto
    moreover have "scaled p k v < 10 ^ k"
    proof -
      have "u * 10 ^ k \<le> (1 - 1 / 2 ^ p) * 10 ^ k"
        using fraction_below_one [of p u] u p by (intro mult_right_mono) auto
      moreover have "2 powi (int j - int p - 1) = (2 ^ j / 2) / (2 ^ p :: rat)"
        by (simp add: power_int_diff)
      moreover have "(2 ^ j / 2) / (2 ^ p :: rat) < 10 ^ k / 2 ^ p"
        using j(2) by (intro divide_strict_right_mono) auto
      ultimately show ?thesis using err by (simp add: algebra_simps)
    qed
    ultimately show ?thesis using err by linarith
  qed
  then show "scaled p k v < 10 ^ k" "\<bar>scaled p k v - (v - of_int \<lfloor>v\<rfloor>) * 10 ^ k\<bar> \<le> 2 powi (23 - int p)"
    by (simp_all add: u_def)
qed

lemma nonint_small:
  assumes "0 < p" and "0 \<le> v" and "fl p v = v" and "v \<noteq> of_int \<lfloor>v\<rfloor>"
  shows "v < 2 ^ (p - 1)"
proof -
  obtain m e where m: "0 \<le> m" "m < 2 ^ p" and v: "v = of_int m * 2 powi e"
    using fl_form [OF assms(1,2)] assms(3) by metis
  have "e < 0"
  proof (rule ccontr)
    assume "\<not> e < 0"
    then obtain n where "e = int n" by (metis linorder_not_less nonneg_int_cases)
    then have "v = of_int (m * 2 ^ n)" by (simp add: v)
    then show False using assms(4) by (metis floor_of_int)
  qed
  then have "(2::rat) powi e \<le> 2 powi (- 1)" by (intro power_int_increasing) auto
  then have "v \<le> of_int m / 2" unfolding v using m(1) mult_left_mono [of "2 powi e" "1 / 2" "of_int m :: rat"] by simp
  also have "\<dots> < 2 ^ p / 2"
    using m(2) by (intro divide_strict_right_mono) (metis of_int_less_iff of_int_numeral of_int_power, simp)
  also have "(2::rat) ^ p / 2 = 2 ^ (p - 1)" using assms(1) by (cases p) simp_all
  finally show ?thesis .
qed

lemma odd_word_bit: "(w AND 1 \<noteq> 0) = odd (unat w)" for w :: u32
proof -
  have "odd (unat w) = odd w" using bit_unsigned_iff [of w 0, where 'a = nat] by (simp add: bit_0)
  then show ?thesis by (simp add: and_one_eq odd_iff_mod_2_eq_one)
qed

lemma unat_10_7: "m \<le> 10 ^ 7 \<Longrightarrow> unat (of_nat m :: u32) = m"
  by (simp add: unsigned_of_nat take_bit_nat_eq_self)

text \<open>The rounding step: the result is the nearest multiple, with the carry into the whole part.\<close>

lemma fp_round_value:
  assumes p: "24 \<le> p" and k: "k \<le> 7" and t: "0 \<le> t" "t < 10 ^ k" "fl p t = t"
    and half: "k = 0 \<or> t \<noteq> 10 ^ k - 1 / 2" and w: "unat w < 2 ^ 31 - 1"
  obtains w' f' where "fp_round p k w t (word_of_int \<lfloor>t\<rfloor>) = (w', f')"
    and "k = 0 \<or> unat f' < 10 ^ k" and "unat w' \<le> unat w + 1"
    and "0 < k \<Longrightarrow> \<bar>(of_nat (unat w') * 10 ^ k + of_nat (unat f')) - (of_nat (unat w) * 10 ^ k + t)\<bar> \<le> 1 / 2"
    and "k = 0 \<Longrightarrow> w' = (if 1 / 2 < t then w + 1 else w)"
proof -
  define n where "n = nat \<lfloor>t\<rfloor>"
  have k7: "(10::nat) ^ k \<le> 10 ^ 7" using k by (intro power_increasing) auto
  have n: "of_nat n = (of_int \<lfloor>t\<rfloor> :: rat)" "int n = \<lfloor>t\<rfloor>" using t(1) by (simp_all add: n_def)
  have "\<lfloor>t\<rfloor> < 10 ^ k" using t(2) by (simp add: floor_less_iff)
  then have n10: "n < 10 ^ k" by (simp flip: n(2))
  define f :: u32 where "f = word_of_int \<lfloor>t\<rfloor>"
  have f: "f = of_nat n" by (simp add: f_def flip: n(2))
  have "f + 1 = of_nat (n + 1)" by (simp add: f)
  then have uf: "unat f = n" "unat (f + 1) = n + 1"
    using unat_10_7 [of n] unat_10_7 [of "n + 1"] n10 k7 unfolding f by (metis le_trans less_imp_le, metis Suc_eq_plus1 Suc_leI le_trans)
  have diff: "sfl p (t - sfl p (of_nat (unat f))) = t - of_nat n"
    using fl_split [of p t] t p by (simp add: uf n)
  have "of_nat (n + 1) = (of_int (int (n + 1)) * 2 powi 0 :: rat)" by simp
  then have n1: "sfl 24 (of_nat (unat (f + 1))) = of_nat (n + 1)"
    using fl_exact [of "int (n + 1)" 24 0] n10 k7 by (simp add: uf)
  have ge: "aPow10 ! k \<le> of_nat (n + 1) \<longleftrightarrow> n + 1 = 10 ^ k"
  proof -
    have "aPow10 ! k = of_nat (10 ^ k)" using aPow10_nth [of k] k by simp
    then have "aPow10 ! k \<le> of_nat (n + 1) \<longleftrightarrow> 10 ^ k \<le> n + 1" by (simp only: of_nat_le_iff)
    then show ?thesis using n10 by auto
  qed
  have uw: "unat (w + 1) = unat w + 1" using w by (simp add: unat_word_ariths)
  have lo: "of_nat n \<le> t" "t < of_nat n + 1" using n by linarith+
  note R = fp_round_def [of p k w t f, unfolded diff n1 ge Let_def]
  consider (roll) "1 / 2 < t - of_nat n" "n + 1 = 10 ^ k" | (up) "1 / 2 < t - of_nat n" "n + 1 \<noteq> 10 ^ k"
    | (half) "t - of_nat n = 1 / 2" "f = 0 \<or> f AND 1 \<noteq> 0"
    | (down) "\<not> 1 / 2 < t - of_nat n" "\<not> (t - of_nat n = 1 / 2 \<and> (f = 0 \<or> f AND 1 \<noteq> 0))" by blast
  then show ?thesis
  proof cases
    case roll
    have "fp_round p k w t f = (w + 1, 0)" using roll by (simp add: R)
    moreover have p10: "(10::rat) ^ k = of_nat n + 1" using roll(2) by (metis of_nat_1 of_nat_add of_nat_numeral of_nat_power)
    have "of_nat (unat (w + 1)) * 10 ^ k + of_nat (unat (0 :: u32)) - (of_nat (unat w) * 10 ^ k + t) = 10 ^ k - t"
      unfolding uw by (simp only: of_nat_add of_nat_1 unsigned_0 of_nat_0) (simp add: ring_distribs)
    then have "\<bar>of_nat (unat (w + 1)) * 10 ^ k + of_nat (unat (0 :: u32)) - (of_nat (unat w) * 10 ^ k + t)\<bar> \<le> 1 / 2"
      using roll(1) lo p10 by linarith
    moreover have "1 / 2 < t" using roll(1) of_nat_0_le_iff [of n, where 'a = rat] by linarith
    moreover have "k = 0 \<or> unat (0 :: u32) < 10 ^ k" "unat (w + 1) \<le> unat w + 1" by (simp_all add: uw)
    ultimately show ?thesis using that [of "w + 1" 0] unfolding f_def by presburger
  next
    case up
    have "fp_round p k w t f = (w, f + 1)" using up by (simp add: R)
    moreover have "\<bar>of_nat (unat w) * 10 ^ k + of_nat (unat (f + 1)) - (of_nat (unat w) * 10 ^ k + t)\<bar> \<le> 1 / 2"
      using up(1) lo unfolding uf of_nat_add of_nat_1 by linarith
    moreover have "k \<noteq> 0" "unat (f + 1) < 10 ^ k" using up(2) n10 by (cases "k = 0"; simp add: uf)+
    ultimately show ?thesis using that [of w "f + 1"] unfolding f_def by simp
  next
    case half
    have "fp_round p k w t f = (w, f + 1)" using half by (simp add: R)
    moreover have "\<bar>of_nat (unat w) * 10 ^ k + of_nat (unat (f + 1)) - (of_nat (unat w) * 10 ^ k + t)\<bar> \<le> 1 / 2"
      using half(1) lo unfolding uf of_nat_add of_nat_1 by linarith
    moreover have "k = 0 \<or> unat (f + 1) < 10 ^ k"
    proof (cases "n + 1 = 10 ^ k")
      case True
      then have "(10::rat) ^ k = of_nat n + 1" by (metis of_nat_1 of_nat_add of_nat_numeral of_nat_power)
      then have "t = 10 ^ k - 1 / 2" using half(1) by simp
      then show ?thesis using assms(6) by blast
    qed (use n10 in \<open>simp add: uf\<close>)
    moreover have "\<not> 1 / 2 < t" if "k = 0" using half(1) n10 that by simp
    ultimately show ?thesis using that [of w "f + 1"] unfolding f_def by simp
  next
    case down
    have "fp_round p k w t f = (w, f)" using down by (simp add: R)
    moreover have "\<bar>of_nat (unat w) * 10 ^ k + of_nat (unat f) - (of_nat (unat w) * 10 ^ k + t)\<bar> \<le> 1 / 2"
      using down(1) lo unfolding uf by linarith
    moreover have "\<not> 1 / 2 < t" if "k = 0" using down(1) n10 that by simp
    moreover have "unat f < 10 ^ k" using n10 by (simp add: uf)
    ultimately show ?thesis using that [of w f] unfolding f_def by simp
  qed
qed

lemma sint_small: "unat x < 2 ^ 31 \<Longrightarrow> sint x = int (unat x)" for x :: u32
proof -
  assume "unat x < 2 ^ 31"
  then have "uint x < 2 ^ 31" by (metis of_nat_less_iff of_nat_numeral of_nat_power uint_nat)
  moreover have "- (2 ^ 31) \<le> uint x" by (rule order_trans [OF _ unsigned_greater_eq]) simp
  ultimately have "signed_take_bit 31 (uint x) = uint x" by (simp only: signed_take_bit_int_eq_self_iff)
  then show ?thesis by (simp add: sint_uint)
qed

lemma rat_scale: "0 < c \<Longrightarrow> \<bar>(a * c + b) - v * c\<bar> \<le> d \<Longrightarrow> \<bar>(a + b / c) - v\<bar> \<le> d / c" for c :: rat
proof -
  assume c: "0 < c" and d: "\<bar>(a * c + b) - v * c\<bar> \<le> d"
  have "(a + b / c) - v = ((a * c + b) - v * c) / c" using c by (simp add: field_simps)
  then show ?thesis using c d by (simp add: divide_right_mono)
qed

lemma nat_below_31: "int n = z \<Longrightarrow> z < 2 ^ 31 - 1 \<Longrightarrow> n < 2 ^ 31 - 1"
  by simp

text \<open>With no decimals asked for, the whole part is rounded to nearest.\<close>

lemma fp_whole_value:
  assumes p: "24 \<le> p" and v: "0 \<le> v" "fl p v = v" "v < 2 ^ 31 - 1"
    and w: "int (unat w) = \<lfloor>v\<rfloor>" and w': "w' = (if 1 / 2 < v - of_int \<lfloor>v\<rfloor> then w + 1 else w)"
  shows "\<bar>of_nat (unat (fp_whole p v w')) - v\<bar> \<le> 1 / 2" and "unat (fp_whole p v w') < 2 ^ 31"
proof -
  have "\<lfloor>v\<rfloor> < 2 ^ 31 - 1" using v(3) by (simp add: floor_less_iff)
  then have w31: "unat w < 2 ^ 31 - 1" by (rule nat_below_31 [OF w])
  have uw: "unat (w + 1) = unat w + 1" using w31 by (simp add: unat_word_ariths)
  have sw: "sint w = int (unat w)" "sint (w + 1) = int (unat w + 1)"
    using sint_small [of w] sint_small [of "w + 1"] w31 uw by simp_all
  have wr: "(of_nat (unat w) :: rat) = of_int \<lfloor>v\<rfloor>" by (metis of_int_of_nat_eq w)
  have d: "sfl p (v - sfl p (of_int (sint w))) = v - of_int \<lfloor>v\<rfloor>"
    using fl_split [of p v] v p unfolding sw(1) of_int_of_nat_eq wr by simp
  have "\<bar>of_nat (unat (fp_whole p v w')) - v\<bar> \<le> 1 / 2 \<and> unat (fp_whole p v w') < 2 ^ 31"
  proof (cases "1 / 2 < v - of_int \<lfloor>v\<rfloor>")
    case True
    have "v < 2 ^ (p - 1)" using nonint_small [of p v] True v p by auto
    then have "\<lfloor>v\<rfloor> < 2 ^ (p - 1)" by (simp add: floor_less_iff)
    moreover have "(2::int) ^ p = 2 * 2 ^ (p - 1)" using p by (simp flip: power_Suc)
    moreover have "(1::int) \<le> 2 ^ (p - 1)" by simp
    ultimately have "int (unat w + 1) < 2 ^ p" unfolding of_nat_add w by linarith
    then have "sfl p (of_int (sint (w + 1))) = of_int \<lfloor>v\<rfloor> + 1"
      using fl_exact [of "int (unat w + 1)" p 0] by (simp add: sw wr add_nonneg_nonneg v(1) del: of_nat_unat)
    moreover have "sfl p (v - (of_int \<lfloor>v\<rfloor> + 1)) \<le> 0"
    proof -
      have "v - (of_int \<lfloor>v\<rfloor> + 1) < 0" by linarith
      then show ?thesis using p by (simp add: sfl_def)
    qed
    ultimately have "fp_whole p v w' = w + 1" using True by (auto simp: fp_whole_def w' Let_def)
    moreover have "\<bar>of_nat (unat (w + 1)) - v\<bar> \<le> 1 / 2" unfolding uw of_nat_add of_nat_1 wr using True by linarith
    ultimately show ?thesis using w31 uw by simp
  next
    case False
    then have "fp_whole p v w' = (if v - of_int \<lfloor>v\<rfloor> = 1 / 2 \<and> w AND 1 \<noteq> 0 then w + 1 else w)"
      by (simp only: fp_whole_def w' Let_def d if_False)
    moreover have "\<bar>of_nat (unat (w + 1)) - v\<bar> \<le> 1 / 2" if "v - of_int \<lfloor>v\<rfloor> = 1 / 2"
      unfolding uw of_nat_add of_nat_1 wr using that by linarith
    moreover have "\<bar>of_nat (unat w) - v\<bar> \<le> 1 / 2" unfolding wr using False by linarith
    ultimately show ?thesis using w31 uw by (auto simp del: of_nat_unat)
  qed
  then show "\<bar>of_nat (unat (fp_whole p v w')) - v\<bar> \<le> 1 / 2" "unat (fp_whole p v w') < 2 ^ 31" by blast+
qed

lemma fptoa_steps:
  assumes "v = \<bar>value\<bar>" and "v \<le> thres" and "k = clamp_prec prec" and "c_int f2iz v = W" and "fp_tmp p k v W = t"
    and "c_uint f2uiz t = F" and "fp_round p k W t F = (w', f')"
    and "w = (if k = 0 then fp_whole p v w' else w')" and "unat w < 2 ^ 31"
  shows "cstr (fptoa p thres f2iz f2uiz value str prec) = fp_text (value < 0) (unat w) k (unat f')"
proof -
  have val: "(if value < 0 then - value else value) = v" by (simp add: assms(1))
  have nt: "\<not> thres < v" using assms(2) by simp
  show ?thesis
    unfolding fptoa_def Let_def val assms(3) [symmetric] assms(4-7) prod.case if_not_P [OF nt] assms(8) [symmetric]
      sint_small [OF assms(9)]
    by (rule emit_text) (rule refl)+
qed

lemma fptoa_text:
  assumes p: "24 \<le> p" and v: "v = \<bar>value\<bar>" "fl p v = v" "v < 2 ^ 31 - 1" "v \<le> thres"
    and prec: "prec \<le> 7" and k: "k = clamp_prec prec"
    and half: "k = 0 \<or> scaled p k v \<noteq> 10 ^ k - 1 / 2"
  obtains w n where "cstr (fptoa p thres f2iz f2uiz value str prec) = fp_text (value < 0) w k n"
    and "n < 10 ^ k" and "\<bar>(of_nat w + of_nat n / 10 ^ k) - v\<bar> \<le> (1 / 2 + 2 powi (23 - int p)) / 10 ^ k"
proof -
  have k7: "k \<le> 7" using prec by (auto simp: k clamp_prec_def)
  have v0: "0 \<le> v" by (simp add: v(1))
  let ?t = "scaled p k v" and ?W = "word_of_int \<lfloor>v\<rfloor> :: u32"
  have fl31: "\<lfloor>v\<rfloor> < 2 ^ 31 - 1" "0 \<le> \<lfloor>v\<rfloor>" using v(3) v0 by (simp_all add: floor_less_iff)
  have uW: "int (unat ?W) = \<lfloor>v\<rfloor>" using fl31 by (simp add: unsigned_of_int take_bit_int_eq_self)
  have W31: "unat ?W < 2 ^ 31 - 1" by (rule nat_below_31 [OF uW fl31(1)])
  note t = scaled_props [OF p v0 v(2) k7]
  have ci: "c_int f2iz v = ?W" using v0 v(3) by (simp add: c_int_def)
  have "sint ?W = \<lfloor>v\<rfloor>" using sint_small [of ?W] W31 uW by simp
  then have tmp: "fp_tmp p k v ?W = ?t"
    using fl_split [of p v] v0 v(2) p aPow10_nth [of k] k7 by (simp add: fp_tmp_def scaled_def)
  have "(10::rat) ^ k \<le> 10 ^ 7" using k7 by (intro power_increasing) auto
  then have cu: "c_uint f2uiz ?t = word_of_int \<lfloor>?t\<rfloor>" using t by (simp add: c_uint_def)
  obtain w' f' where r: "fp_round p k ?W ?t (word_of_int \<lfloor>?t\<rfloor>) = (w', f')"
    and f': "k = 0 \<or> unat f' < 10 ^ k" and w': "unat w' \<le> unat ?W + 1"
    and e: "0 < k \<Longrightarrow> \<bar>(of_nat (unat w') * 10 ^ k + of_nat (unat f')) - (of_nat (unat ?W) * 10 ^ k + ?t)\<bar> \<le> 1 / 2"
    and z: "k = 0 \<Longrightarrow> w' = (if 1 / 2 < ?t then ?W + 1 else ?W)"
    using fp_round_value [OF p k7 t(1,2,4) half W31] by blast
  define w where "w = (if k = 0 then fp_whole p v w' else w')"
  have w31: "unat w < 2 ^ 31" and acc: "\<bar>(of_nat (unat w) + of_nat (if k = 0 then 0 else unat f') / 10 ^ k) - v\<bar> \<le> (1 / 2 + 2 powi (23 - int p)) / 10 ^ k"
  proof -
    have wr: "(of_nat (unat ?W) :: rat) = of_int \<lfloor>v\<rfloor>" by (metis of_int_of_nat_eq uW)
    have pos: "(0::rat) \<le> 2 powi (23 - int p)" by simp
    have "unat w < 2 ^ 31 \<and> \<bar>(of_nat (unat w) + of_nat (if k = 0 then 0 else unat f') / 10 ^ k) - v\<bar> \<le> (1 / 2 + 2 powi (23 - int p)) / 10 ^ k"
    proof (cases "k = 0")
      case True
      have "?t = v - of_int \<lfloor>v\<rfloor>" using True fl_split [of p v] v0 v(2) p by (simp add: scaled_def)
      then have "w' = (if 1 / 2 < v - of_int \<lfloor>v\<rfloor> then ?W + 1 else ?W)" using z True by simp
      note fw = fp_whole_value [OF p v0 v(2,3) uW this]
      have "\<bar>of_nat (unat (fp_whole p v w')) - v\<bar> \<le> 1 / 2 + 2 powi (23 - int p)" using fw(1) pos by linarith
      then show ?thesis using True fw(2) by (simp add: w_def del: of_nat_unat)
    next
      case False
      have "\<bar>(of_nat (unat w') * 10 ^ k + of_nat (unat f')) - v * 10 ^ k\<bar> \<le> 1 / 2 + 2 powi (23 - int p)"
        using e False t(3) unfolding wr left_diff_distrib by linarith
      then have "\<bar>(of_nat (unat w') + of_nat (unat f') / 10 ^ k) - v\<bar> \<le> (1 / 2 + 2 powi (23 - int p)) / 10 ^ k"
        by (rule rat_scale [rotated]) simp
      then show ?thesis using False w' W31 by (simp add: w_def del: of_nat_unat)
    qed
    then show "unat w < 2 ^ 31" "\<bar>(of_nat (unat w) + of_nat (if k = 0 then 0 else unat f') / 10 ^ k) - v\<bar> \<le> (1 / 2 + 2 powi (23 - int p)) / 10 ^ k" by blast+
  qed
  have "cstr (fptoa p thres f2iz f2uiz value str prec) = fp_text (value < 0) (unat w) k (unat f')"
    by (rule fptoa_steps [OF v(1,4) k ci tmp cu r w_def w31])
  also have "\<dots> = fp_text (value < 0) (unat w) k (if k = 0 then 0 else unat f')" by (simp add: fp_text_def)
  finally have cs: "cstr (fptoa p thres f2iz f2uiz value str prec) = fp_text (value < 0) (unat w) k (if k = 0 then 0 else unat f')" .
  have "(if k = 0 then 0 else unat f') < 10 ^ k" using f' by auto
  with cs show ?thesis using acc by (rule that)
qed

section \<open>Properties\<close>

lemma ilog2_eqI: "2 powi e \<le> x \<Longrightarrow> x < 2 powi (e + 1) \<Longrightarrow> ilog2 x = e"
proof -
  assume e: "2 powi e \<le> x" "x < 2 powi (e + 1)"
  have "(0::rat) < 2 powi e" by simp
  with e(1) have x: "0 < x" by linarith
  have "(2::rat) powi e < 2 powi (ilog2 x + 1)" "(2::rat) powi (ilog2 x) < 2 powi (e + 1)"
    using ilog2_bounds [OF x] e by linarith+
  then have "e < ilog2 x + 1" "ilog2 x < e + 1"
    by (metis linorder_not_le power_int_increasing one_le_numeral)+
  then show ?thesis by simp
qed

lemma fl_eqI:
  assumes "2 powi e \<le> x" and "x < 2 powi (e + 1)" and "rne (x * 2 powi (int p - 1 - e)) = m"
  shows "fl p x = of_int m * 2 powi (e - (int p - 1))"
proof -
  have "(0::rat) < 2 powi e" by simp
  with assms(1) have "0 < x" by linarith
  then show ?thesis using assms(3) by (simp add: fl_def ilog2_eqI [OF assms(1,2)])
qed

lemma sfl_abs: "sfl p value = value \<Longrightarrow> fl p \<bar>value\<bar> = \<bar>value\<bar>"
  by (auto simp: sfl_def split: if_splits)

lemma thresholds: "sfl 24 0x7FFFFFFF = 2 ^ 31" "sfl 53 0x7FFFFFFFFFFFFFFF = 2 ^ 63"
proof -
  have "rne (0x7FFFFFFF * 2 powi (int 24 - 1 - 30)) = 2 ^ 24" "rne (0x7FFFFFFFFFFFFFFF * 2 powi (int 53 - 1 - 62)) = 2 ^ 53"
    by code_simp+
  then show "sfl 24 0x7FFFFFFF = 2 ^ 31" "sfl 53 0x7FFFFFFFFFFFFFFF = 2 ^ 63"
    using fl_eqI [of 30 "0x7FFFFFFF" 24] fl_eqI [of 62 "0x7FFFFFFFFFFFFFFF" 53] by simp_all
qed

lemma fp_text_accurate:
  assumes "24 \<le> p" and "fl p \<bar>value\<bar> = \<bar>value\<bar>" and "\<bar>value\<bar> < 2 ^ 31 - 1" and "\<bar>value\<bar> \<le> thres" and "prec \<le> 7"
    and "prec \<le> 0 \<or> scaled p (clamp_prec prec) \<bar>value\<bar> \<noteq> 10 ^ clamp_prec prec - 1 / 2"
  shows "\<bar>dec_value (cstr (fptoa p thres f2iz f2uiz value str prec)) - value\<bar> \<le> (1 / 2 + 2 powi (23 - int p)) / 10 ^ clamp_prec prec"
proof -
  have "clamp_prec prec = 0 \<or> scaled p (clamp_prec prec) \<bar>value\<bar> \<noteq> 10 ^ clamp_prec prec - 1 / 2"
    using assms(6) by (auto simp: clamp_prec_def)
  from fptoa_text [OF assms(1) refl assms(2-5) refl this, of f2iz f2uiz str]
  obtain w n where "cstr (fptoa p thres f2iz f2uiz value str prec) = fp_text (value < 0) w (clamp_prec prec) n"
    and n: "n < 10 ^ clamp_prec prec"
    and e: "\<bar>(of_nat w + of_nat n / 10 ^ clamp_prec prec) - \<bar>value\<bar>\<bar> \<le> (1 / 2 + 2 powi (23 - int p)) / 10 ^ clamp_prec prec"
    by blast
  then have "dec_value (cstr (fptoa p thres f2iz f2uiz value str prec)) =
      (if value < 0 then - 1 else 1) * (of_nat w + of_nat n / 10 ^ clamp_prec prec)"
    by (simp add: dec_value_fp_text [OF n])
  with e show ?thesis by (cases "value < 0") (simp_all, (linarith)?)
qed

text \<open>
  C39: the floating point printers are accurate.  For a number below \<open>2\<^sup>3\<^sup>1 - 1\<close> and up to seven decimals
  what \<open>modp_ftoa\<close> writes denotes the number up to one unit of the last decimal (half a unit
  for its rounding and half a unit for the multiplication in \<^verbatim>\<open>float\<close>), and what \<open>modp_dtoa\<close>
  writes is half a unit and \<open>2\<^sup>-\<^sup>3\<^sup>0\<close> units close, except where the scaled fraction lies exactly half a
  unit below the next whole number.
\<close>

theorem float_printers_accurate:
  assumes "\<bar>value\<bar> < 2 ^ 31 - 1" and "prec \<le> 7"
  shows "(sfl 24 value = value \<and> (prec \<le> 0 \<or> scaled 24 (clamp_prec prec) \<bar>value\<bar> \<noteq> 10 ^ clamp_prec prec - 1 / 2)
      \<longrightarrow> \<bar>dec_value (cstr (modp_ftoa f2iz f2uiz value str prec)) - value\<bar> \<le> 1 / 10 ^ clamp_prec prec)
    \<and> (sfl 53 value = value \<and> (prec \<le> 0 \<or> scaled 53 (clamp_prec prec) \<bar>value\<bar> \<noteq> 10 ^ clamp_prec prec - 1 / 2)
      \<longrightarrow> \<bar>dec_value (cstr (modp_dtoa f2iz f2uiz value str prec)) - value\<bar> \<le> (1 / 2 + 1 / 2 ^ 30) / 10 ^ clamp_prec prec)"
proof -
  have e: "(1 / 2 + 2 powi (23 - int 24)) = (1::rat)" "(2::rat) powi (23 - int 53) = 1 / 2 ^ 30"
    by code_simp+
  have le: "\<bar>value\<bar> \<le> 2 ^ 31" "\<bar>value\<bar> \<le> 2 ^ 63" using assms(1) by simp_all
  have "\<bar>dec_value (cstr (modp_ftoa f2iz f2uiz value str prec)) - value\<bar> \<le> 1 / 10 ^ clamp_prec prec"
    if "sfl 24 value = value" "prec \<le> 0 \<or> scaled 24 (clamp_prec prec) \<bar>value\<bar> \<noteq> 10 ^ clamp_prec prec - 1 / 2"
    using fp_text_accurate [of 24, OF _ sfl_abs [OF that(1)] assms(1) le(1) assms(2) that(2), of f2iz f2uiz str]
    unfolding modp_ftoa_def thresholds e by simp
  moreover have "\<bar>dec_value (cstr (modp_dtoa f2iz f2uiz value str prec)) - value\<bar> \<le> (1 / 2 + 1 / 2 ^ 30) / 10 ^ clamp_prec prec"
    if "sfl 53 value = value" "prec \<le> 0 \<or> scaled 53 (clamp_prec prec) \<bar>value\<bar> \<noteq> 10 ^ clamp_prec prec - 1 / 2"
    using fp_text_accurate [of 53, OF _ sfl_abs [OF that(1)] assms(1) le(2) assms(2) that(2), of f2iz f2uiz str]
    unfolding modp_dtoa_def thresholds e by simp
  ultimately show ?thesis by blast
qed

theorem float_printers_accurate_witness:
  "\<bar>dec_value (cstr (modp_ftoa (\<lambda>_. 0) (\<lambda>_. 0) (- 13 / 4) (replicate 16 CHR ''x'') 1)) - (- 13 / 4)\<bar> \<le> 1 / 10"
proof -
  have "sfl 24 (- 13 / 4) = - 13 / 4" "scaled 24 (clamp_prec 1) \<bar>- 13 / 4\<bar> \<noteq> 10 ^ clamp_prec 1 - 1 / 2" by code_simp+
  moreover have "\<bar>- 13 / 4 :: rat\<bar> < 2 ^ 31 - 1" "clamp_prec 1 = 1" by code_simp+
  ultimately show ?thesis
    using float_printers_accurate [of "- 13 / 4" 1 "\<lambda>_. 0" "\<lambda>_. 0" "replicate 16 CHR ''x''"] by simp
qed

lemma halfway_text:
  assumes p: "24 \<le> p" and v: "v = \<bar>value\<bar>" "fl p v = v" "v < 2 ^ 31 - 1" "v \<le> thres"
    and prec: "0 < prec" "prec \<le> 7" and k: "k = clamp_prec prec" and half: "scaled p k v = 10 ^ k - 1 / 2"
  shows "cstr (fptoa p thres f2iz f2uiz value str prec) = fp_text (value < 0) (nat \<lfloor>v\<rfloor>) k (10 ^ k)"
proof -
  have k7: "0 < k" "k \<le> 7" using prec by (auto simp: k clamp_prec_def)
  have v0: "0 \<le> v" by (simp add: v(1))
  note t = scaled_props [OF p v0 v(2) k7(2)]
  let ?t = "scaled p k v" and ?W = "word_of_int \<lfloor>v\<rfloor> :: u32" and ?F = "of_nat (10 ^ k - 1) :: u32"
  have fl31: "\<lfloor>v\<rfloor> < 2 ^ 31 - 1" "0 \<le> \<lfloor>v\<rfloor>" using v(3) v0 by (simp_all add: floor_less_iff)
  have uW: "int (unat ?W) = \<lfloor>v\<rfloor>" using fl31 by (simp add: unsigned_of_int take_bit_int_eq_self)
  have W31: "unat ?W < 2 ^ 31 - 1" by (rule nat_below_31 [OF uW fl31(1)])
  have "sint ?W = \<lfloor>v\<rfloor>" using sint_small [of ?W] W31 uW by simp
  then have tmp: "fp_tmp p k v ?W = ?t"
    using fl_split [of p v] v0 v(2) p aPow10_nth [of k] k7 by (simp add: fp_tmp_def scaled_def)
  have ci: "c_int f2iz v = ?W" using v0 v(3) by (simp add: c_int_def)
  have k10: "(10::nat) ^ k \<le> 10 ^ 7" "(1::nat) \<le> 10 ^ k" using k7 by (intro power_increasing, auto)
  have tn: "?t = of_nat (10 ^ k - 1) + 1 / 2" using k10(2) by (simp add: half of_nat_diff)
  then have fl: "\<lfloor>?t\<rfloor> = int (10 ^ k - 1)" by linarith
  have "of_nat (10 ^ k - 1) < (2 ^ 31 :: rat)"
  proof -
    have "(of_nat (10 ^ k - 1) :: rat) < of_nat (2 ^ 31)" unfolding of_nat_less_iff using k10 by simp
    then show ?thesis by simp
  qed
  then have "0 \<le> ?t \<and> ?t < 2 ^ 32" using t(1) unfolding tn by simp
  then have cu: "c_uint f2uiz ?t = ?F" by (simp only: c_uint_def if_True fl of_int_of_nat_eq simp_thms)
  have uF: "unat ?F = 10 ^ k - 1" by (rule unat_10_7) (use k10 in simp)
  have "?F + 1 = of_nat (10 ^ k - 1 + 1)" by (simp only: of_nat_add of_nat_1)
  then have uF1: "unat (?F + 1) = 10 ^ k" using unat_10_7 [OF k10(1)] k10(2) by (simp only: le_add_diff_inverse2)
  have odd: "?F AND 1 \<noteq> 0" unfolding odd_word_bit uF using k7(1) k10(2) by simp
  have "sfl p (?t - sfl p (of_nat (unat ?F))) = 1 / 2"
    using fl_split [of p ?t] t p tn unfolding fl uF by simp
  then have "fp_round p k ?W ?t ?F = (?W, ?F + 1)" using odd by (simp add: fp_round_def Let_def)
  moreover have "unat ?W = nat \<lfloor>v\<rfloor>" using uW by linarith
  ultimately show ?thesis
    using fptoa_steps [OF v(1,4) k ci tmp cu, of ?W "?F + 1" ?W] k7(1) W31 uF1 by simp
qed

lemma frac_text_full: "trim_text (frac_text k (10 ^ k)) = ''1''"
proof -
  have d: "digits 10 (10 ^ k) = 1 # replicate k 0"
  proof (induction k)
    case 0
    show ?case by (simp add: digits_small)
  next
    case (Suc k)
    then have "digits 10 (10 ^ Suc k) = (1 # replicate k 0) @ [0]" by (subst digits_step) simp_all
    then show ?case by (simp add: replicate_append_same)
  qed
  have "dec_char 1 = CHR ''1''" by code_simp
  then have f: "frac_text k (10 ^ k) = CHR ''1'' # replicate k CHR ''0''" by (simp add: frac_text_def d dec_char_0)
  show ?thesis unfolding f by (simp add: trim_text_def dropWhile_append)
qed

lemma halfway_value:
  assumes "24 \<le> p" and "sfl p value = value" and "\<bar>value\<bar> < 2 ^ 31 - 1" and "\<bar>value\<bar> \<le> thres" and "0 < prec" and "prec \<le> 7"
    and "scaled p (nat prec) \<bar>value\<bar> = 10 ^ nat prec - 1 / 2"
  shows "cstr (fptoa p thres f2iz f2uiz value str prec) = (if value < 0 then ''-'' else []) @ dec_text (nat \<lfloor>\<bar>value\<bar>\<rfloor>) @ ''.1''"
proof -
  have k: "nat prec = clamp_prec prec" using assms(5,6) by (simp add: clamp_prec_def)
  from halfway_text [OF assms(1) refl sfl_abs [OF assms(2)] assms(3-6) k assms(7), of f2iz f2uiz str] assms(5)
  show ?thesis by (simp add: fp_text_def frac_text_full)
qed

lemma early_carry:
  assumes "134217727 / 134217728 \<le> thres"
  shows "cstr (fptoa 53 thres f2iz f2uiz (134217727 / 134217728) str 9) = ''1.0''"
proof -
  let ?v = "134217727 / 134217728 :: rat"
  have s: "sfl 53 0 = 0" "sfl 53 ?v = ?v" "sfl 53 (?v * 1000000000) = ?v * 1000000000"
    using fl_exact [of 134217727 53 "- 27"] fl_exact [of "134217727 * 1953125" 53 "- 18"]
    by (simp_all add: power_int_minus) (simp add: fl_def)
  have v0: "\<lfloor>?v\<rfloor> = 0" by (simp add: floor_eq_iff)
  have "aPow10 ! 9 = 1000000000" by (simp add: aPow10_nth)
  then have tmp: "fp_tmp 53 9 ?v 0 = ?v * 1000000000" by (simp only: fp_tmp_def sint_0 of_int_0 s diff_zero)
  have fl: "\<lfloor>?v * 1000000000\<rfloor> = 999999992" by (simp add: floor_eq_iff)
  have cu: "c_uint f2uiz (?v * 1000000000) = 999999992" unfolding c_uint_def fl by simp
  have f1: "fl 53 999999992 = 999999992" using fl_exact [of 999999992 53 0] by simp
  have d: "fl 53 (?v * 1000000000 - 999999992) = ?v * 1000000000 - 999999992"
    using fl_exact [of 144027 53 "- 18"] by (simp add: power_int_minus)
  have "rne (999999993 * 2 powi (int 24 - 1 - 29)) = 15625000" by code_simp
  then have f24: "fl 24 999999993 = 1000000000" using fl_eqI [of 29 999999993 24 15625000] by simp
  have r: "fp_round 53 9 0 (?v * 1000000000) 999999992 = (1, 0)"
    using f1 d f24 by (simp add: fp_round_def Let_def aPow10_nth)
  have "cstr (fptoa 53 thres f2iz f2uiz ?v str 9) = fp_text (?v < 0) (unat (1 :: u32)) 9 (unat (0 :: u32))"
    by (rule fptoa_steps [OF _ assms _ _ tmp cu r]) (simp_all add: c_int_def clamp_prec_def v0)
  also have "\<dots> = ''1.0''" by code_simp
  finally show ?thesis .
qed



text \<open>Beyond the threshold both printers write a fixed text, whatever the conversions returned.\<close>

lemma float_printers_overflow:
  "2 ^ 31 < \<bar>value\<bar> \<Longrightarrow> cstr (modp_ftoa f2iz f2uiz value str prec) = ''3735928559''"
  "2 ^ 63 < \<bar>value\<bar> \<Longrightarrow> cstr (modp_dtoa f2iz f2uiz value str prec) = ''3735928559''"
  unfolding modp_ftoa_def modp_dtoa_def thresholds fptoa_def Let_def
  by (auto simp: poke_def abs_if split: prod.split if_splits)

end
