(* ===== verification/Can_lld.thy ===== *)
theory Can_lld
  imports Prelude
begin

text \<open>
  The bxCAN low level driver, \<^verbatim>\<open>os/hal/ports/STM32/LLD/CANv1/can_lld.[ch]\<close>: frames, filters and
  the driver structure as records, the register file of the peripheral as a record of 32 bit
  words, one definition per function.  What the peripheral itself does when one of its
  reacting registers is written (\<open>bxcan\<close> below) is hardware and therefore a parameter of the
  definitions; \<open>bxcan_ok\<close> names the documented reactions the proofs rely on.  Kernel services
  the handlers call are recorded in the driver state: threads taken off a wait queue are
  appended to \<open>woken\<close> with their message, broadcast events to \<open>broadcasts\<close>.
\<close>

section \<open>Frames, filters, configuration\<close>

text \<open>
  The identifier of a frame is a union of an 11 bit and a 29 bit field in one 32 bit cell; a
  field assignment leaves the other bits of the cell.  The payload is a union of 8 bytes, 4
  half words and 2 words (little endian); the record keeps the bytes.
\<close>

record CANTxFrame =
  tx_DLC :: "4 word"
  tx_RTR :: "1 word"
  tx_IDE :: "1 word"
  tx_id :: u32
  tx_data8 :: "u8 list"

record CANRxFrame =
  rx_FMI :: u8
  rx_TIME :: u16
  rx_DLC :: "4 word"
  rx_RTR :: "1 word"
  rx_IDE :: "1 word"
  rx_id :: u32
  rx_data8 :: "u8 list"

record CANFilter =
  cf_filter :: u32
  cf_mode :: "1 word"
  cf_scale :: "1 word"
  cf_assignment :: "1 word"
  cf_register1 :: u32
  cf_register2 :: u32

record CANConfig =
  cfg_mcr :: u32
  cfg_btr :: u32

definition get_EID :: "u32 \<Rightarrow> u32" where "get_EID c = c AND 0x1FFFFFFF"
definition get_SID :: "u32 \<Rightarrow> u32" where "get_SID c = c AND 0x7FF"

definition set_EID :: "u32 \<Rightarrow> u32 \<Rightarrow> u32" where
  "set_EID v c = (c AND 0xE0000000) OR (v AND 0x1FFFFFFF)"

definition set_SID :: "u32 \<Rightarrow> u32 \<Rightarrow> u32" where
  "set_SID v c = (c AND 0xFFFFF800) OR (v AND 0x7FF)"

definition data16_of :: "u8 list \<Rightarrow> nat \<Rightarrow> u16" where
  "data16_of d k = mk16 (d ! (2 * k)) (d ! (2 * k + 1))"

definition set_data16 :: "nat \<Rightarrow> u16 \<Rightarrow> u8 list \<Rightarrow> u8 list" where
  "set_data16 k w d = d[2 * k := lo8 w, 2 * k + 1 := hi8 w]"

definition data32_of :: "u8 list \<Rightarrow> nat \<Rightarrow> u32" where
  "data32_of d k = mk32 (d ! (4 * k)) (d ! (4 * k + 1)) (d ! (4 * k + 2)) (d ! (4 * k + 3))"

definition set_data32 :: "nat \<Rightarrow> u32 \<Rightarrow> u8 list \<Rightarrow> u8 list" where
  "set_data32 k w d = d[4 * k := byte32 0 w, 4 * k + 1 := byte32 1 w,
                        4 * k + 2 := byte32 2 w, 4 * k + 3 := byte32 3 w]"

lemma id_masks:
  "(0x1FFFFFFF :: u32) = mask 29" "(0xE0000000 :: u32) = NOT (mask 29)"
  "(0x7FF :: u32) = mask 11" "(0xFFFFF800 :: u32) = NOT (mask 11)"
  by (simp_all add: mask_eq_exp_minus_1)

lemma get_EID_set_EID [simp]: "get_EID (set_EID v c) = v AND 0x1FFFFFFF"
  unfolding get_EID_def set_EID_def id_masks
  by (rule bit_word_eqI) (auto simp: bit_simps)

lemma get_SID_set_SID [simp]: "get_SID (set_SID v c) = v AND 0x7FF"
  unfolding get_SID_def set_SID_def id_masks
  by (rule bit_word_eqI) (auto simp: bit_simps)

section \<open>The register file\<close>

record CAN_TxMailBox =
  TIR :: u32
  TDTR :: u32
  TDLR :: u32
  TDHR :: u32

record CAN_FIFOMailBox =
  RIR :: u32
  RDTR :: u32
  RDLR :: u32
  RDHR :: u32

record CAN_FilterRegister =
  FR1 :: u32
  FR2 :: u32

record CAN_TypeDef =
  MCR :: u32
  MSR :: u32
  TSR :: u32
  RF0R :: u32
  RF1R :: u32
  IER :: u32
  ESR :: u32
  BTR :: u32
  sTxMailBox :: "CAN_TxMailBox list"
  sFIFOMailBox :: "CAN_FIFOMailBox list"
  FMR :: u32
  FM1R :: u32
  FS1R :: u32
  FFA1R :: u32
  FA1R :: u32
  sFilterRegister :: "CAN_FilterRegister list"

text \<open>Bit positions, from the device header \<^verbatim>\<open>stm32f042x6.h\<close>.\<close>

abbreviation (input) CAN_MCR_INRQ :: u32 where "CAN_MCR_INRQ \<equiv> 0x1"
abbreviation (input) CAN_MCR_SLEEP :: u32 where "CAN_MCR_SLEEP \<equiv> 0x2"
abbreviation (input) CAN_MCR_TXFP :: u32 where "CAN_MCR_TXFP \<equiv> 0x4"
abbreviation (input) CAN_MCR_NART :: u32 where "CAN_MCR_NART \<equiv> 0x10"
abbreviation (input) CAN_MCR_AWUM :: u32 where "CAN_MCR_AWUM \<equiv> 0x20"
abbreviation (input) CAN_MCR_ABOM :: u32 where "CAN_MCR_ABOM \<equiv> 0x40"
abbreviation (input) CAN_MSR_INAK :: u32 where "CAN_MSR_INAK \<equiv> 0x1"
abbreviation (input) CAN_MSR_ERRI :: u32 where "CAN_MSR_ERRI \<equiv> 0x4"
abbreviation (input) CAN_MSR_WKUI :: u32 where "CAN_MSR_WKUI \<equiv> 0x8"
abbreviation (input) CAN_TSR_CODE :: u32 where "CAN_TSR_CODE \<equiv> 0x03000000"
abbreviation (input) CAN_TSR_TME :: u32 where "CAN_TSR_TME \<equiv> 0x1C000000"
abbreviation (input) CAN_TSR_TME0 :: u32 where "CAN_TSR_TME0 \<equiv> 0x04000000"
abbreviation (input) CAN_TSR_TME1 :: u32 where "CAN_TSR_TME1 \<equiv> 0x08000000"
abbreviation (input) CAN_TSR_TME2 :: u32 where "CAN_TSR_TME2 \<equiv> 0x10000000"
abbreviation (input) CAN_RFR_FMP :: u32 where "CAN_RFR_FMP \<equiv> 0x3"
abbreviation (input) CAN_RFR_FOVR :: u32 where "CAN_RFR_FOVR \<equiv> 0x10"
abbreviation (input) CAN_RFR_RFOM :: u32 where "CAN_RFR_RFOM \<equiv> 0x20"
abbreviation (input) CAN_IER_TMEIE :: u32 where "CAN_IER_TMEIE \<equiv> 0x1"
abbreviation (input) CAN_IER_FMPIE0 :: u32 where "CAN_IER_FMPIE0 \<equiv> 0x2"
abbreviation (input) CAN_IER_FOVIE0 :: u32 where "CAN_IER_FOVIE0 \<equiv> 0x8"
abbreviation (input) CAN_IER_FMPIE1 :: u32 where "CAN_IER_FMPIE1 \<equiv> 0x10"
abbreviation (input) CAN_IER_FOVIE1 :: u32 where "CAN_IER_FOVIE1 \<equiv> 0x40"
abbreviation (input) CAN_IER_EWGIE :: u32 where "CAN_IER_EWGIE \<equiv> 0x100"
abbreviation (input) CAN_IER_EPVIE :: u32 where "CAN_IER_EPVIE \<equiv> 0x200"
abbreviation (input) CAN_IER_BOFIE :: u32 where "CAN_IER_BOFIE \<equiv> 0x400"
abbreviation (input) CAN_IER_ERRIE :: u32 where "CAN_IER_ERRIE \<equiv> 0x8000"
abbreviation (input) CAN_IER_WKUIE :: u32 where "CAN_IER_WKUIE \<equiv> 0x10000"
abbreviation (input) CAN_FMR_FINIT :: u32 where "CAN_FMR_FINIT \<equiv> 0x1"
abbreviation (input) CAN_TIR_TXRQ :: u32 where "CAN_TIR_TXRQ \<equiv> 0x1"
abbreviation (input) CAN_TIR_IDE :: u32 where "CAN_TIR_IDE \<equiv> 0x4"
abbreviation (input) STM32_CAN_MAX_FILTERS :: nat where "STM32_CAN_MAX_FILTERS \<equiv> 14"
abbreviation (input) CAN_OVERFLOW_ERROR :: u32 where "CAN_OVERFLOW_ERROR \<equiv> 16"
abbreviation (input) CAN_ANY_MAILBOX :: u32 where "CAN_ANY_MAILBOX \<equiv> 0"
abbreviation (input) CAN_IDE_EXT :: "1 word" where "CAN_IDE_EXT \<equiv> 1"

definition CAN_MAILBOX_TO_MASK :: "u32 \<Rightarrow> u32" where
  "CAN_MAILBOX_TO_MASK mbx = push_bit (unat (mbx - 1)) 1"

text \<open>
  The reactions of the peripheral: a write of \<open>v\<close> to a transmit mailbox's identifier register,
  to the transmit and receive status registers, to the master status and control registers;
  and what happens to the registers while a thread sleeps for one tick.
\<close>

record bxcan =
  hw_TIR :: "nat \<Rightarrow> u32 \<Rightarrow> CAN_TypeDef \<Rightarrow> CAN_TypeDef"
  hw_TSR :: "u32 \<Rightarrow> CAN_TypeDef \<Rightarrow> CAN_TypeDef"
  hw_RF0R :: "u32 \<Rightarrow> CAN_TypeDef \<Rightarrow> CAN_TypeDef"
  hw_RF1R :: "u32 \<Rightarrow> CAN_TypeDef \<Rightarrow> CAN_TypeDef"
  hw_MSR :: "u32 \<Rightarrow> CAN_TypeDef \<Rightarrow> CAN_TypeDef"
  hw_MCR :: "u32 \<Rightarrow> CAN_TypeDef \<Rightarrow> CAN_TypeDef"
  hw_tick :: "CAN_TypeDef \<Rightarrow> CAN_TypeDef"

section \<open>The driver structure\<close>

datatype canstate_t = CAN_UNINIT | CAN_STOP | CAN_STARTING | CAN_READY | CAN_SLEEP

datatype can_event = rxfull_event | txempty_event | error_event | sleep_event | wakeup_event

record CANDriver =
  can_state :: canstate_t
  can_config :: "CANConfig option"
  txqueue :: "nat list"
  rxqueue :: "nat list"
  can :: CAN_TypeDef
  nvic_enabled :: bool
  can_clock :: bool
  woken :: "(nat \<times> msg_t) list"
  broadcasts :: "(can_event \<times> u32) list"

definition upd_can :: "(CAN_TypeDef \<Rightarrow> CAN_TypeDef) \<Rightarrow> CANDriver \<Rightarrow> CANDriver" where
  "upd_can f d = d\<lparr>can := f (can d)\<rparr>"

text \<open>\<^verbatim>\<open>osalThreadDequeueAllI\<close> on the two queues and \<^verbatim>\<open>osalEventBroadcastFlagsI\<close>.\<close>

definition dequeue_tx :: "msg_t \<Rightarrow> CANDriver \<Rightarrow> CANDriver" where
  "dequeue_tx m d = d\<lparr>txqueue := [], woken := woken d @ map (\<lambda>t. (t, m)) (txqueue d)\<rparr>"

definition dequeue_rx :: "msg_t \<Rightarrow> CANDriver \<Rightarrow> CANDriver" where
  "dequeue_rx m d = d\<lparr>rxqueue := [], woken := woken d @ map (\<lambda>t. (t, m)) (rxqueue d)\<rparr>"

definition broadcast :: "can_event \<Rightarrow> u32 \<Rightarrow> CANDriver \<Rightarrow> CANDriver" where
  "broadcast e fl d = d\<lparr>broadcasts := broadcasts d @ [(e, fl)]\<rparr>"

lemmas os_defs = upd_can_def dequeue_tx_def dequeue_rx_def broadcast_def

section \<open>Filters\<close>

definition program_filter :: "CANFilter \<Rightarrow> CAN_TypeDef \<Rightarrow> CAN_TypeDef" where
  "program_filter cf r =
     (let fmask = push_bit (unat (cf_filter cf)) 1; i = unat (cf_filter cf) in
      r\<lparr>FM1R := (if cf_mode cf \<noteq> 0 then FM1R r OR fmask else FM1R r),
        FS1R := (if cf_scale cf \<noteq> 0 then FS1R r OR fmask else FS1R r),
        FFA1R := (if cf_assignment cf \<noteq> 0 then FFA1R r OR fmask else FFA1R r),
        sFilterRegister := (sFilterRegister r)
          [i := \<lparr>FR1 = cf_register1 cf, FR2 = cf_register2 cf\<rparr>],
        FA1R := FA1R r OR fmask\<rparr>)"

definition filters_cleared :: "CAN_TypeDef \<Rightarrow> CAN_TypeDef" where
  "filters_cleared r = r\<lparr>FA1R := 0, FM1R := 0, FS1R := 0, FFA1R := 0,
     sFilterRegister := replicate STM32_CAN_MAX_FILTERS \<lparr>FR1 = 0, FR2 = 0\<rparr>\<rparr>"

definition default_filter :: "CAN_TypeDef \<Rightarrow> CAN_TypeDef" where
  "default_filter r = r\<lparr>sFilterRegister := (sFilterRegister r)[0 := \<lparr>FR1 = 0, FR2 = 0\<rparr>],
     FM1R := 0, FFA1R := 0, FS1R := 1, FA1R := 1\<rparr>"

definition can_lld_set_filters :: "u32 \<Rightarrow> CANFilter list \<Rightarrow> CANDriver \<Rightarrow> CANDriver" where
  "can_lld_set_filters can2sb cfp d =
     (let r = can d;
          r = r\<lparr>FMR := (FMR r AND 0xFFFF0000) OR CAN_FMR_FINIT\<rparr>;
          r = r\<lparr>FMR := FMR r OR push_bit 8 can2sb\<rparr>;
          r = (if cfp \<noteq> [] then fold program_filter cfp (filters_cleared r)
               else default_filter r);
          r = r\<lparr>FMR := FMR r AND NOT CAN_FMR_FINIT\<rparr>
      in d\<lparr>can := r, can_clock := False\<rparr>)"

definition canSTM32SetFilters :: "u32 \<Rightarrow> CANFilter list \<Rightarrow> CANDriver \<Rightarrow> CANDriver" where
  "canSTM32SetFilters can2sb cfp d = can_lld_set_filters can2sb cfp d"

section \<open>Interrupt handlers\<close>

definition mailbox_flags :: "u32 \<Rightarrow> u32 \<Rightarrow> u32 \<Rightarrow> u32 \<Rightarrow> u32" where
  "mailbox_flags tsr rqcp err mbx =
     (if tsr AND rqcp \<noteq> 0
      then if tsr AND err \<noteq> 0 then push_bit 16 (CAN_MAILBOX_TO_MASK mbx)
           else CAN_MAILBOX_TO_MASK mbx
      else 0)"

definition can_lld_tx_handler :: "bxcan \<Rightarrow> CANDriver \<Rightarrow> CANDriver" where
  "can_lld_tx_handler hw d =
     (let tsr = TSR (can d);
          d = upd_can (hw_TSR hw tsr) d;
          flags = mailbox_flags tsr 0x1 (0x4 OR 0x8) 1
               OR mailbox_flags tsr 0x100 (0x400 OR 0x800) 2
               OR mailbox_flags tsr 0x10000 (0x40000 OR 0x80000) 3
      in broadcast txempty_event flags (dequeue_tx MSG_OK d))"

definition can_lld_rx0_handler :: "bxcan \<Rightarrow> CANDriver \<Rightarrow> CANDriver" where
  "can_lld_rx0_handler hw d =
     (let rf0r = RF0R (can d);
          d = (if rf0r AND CAN_RFR_FMP \<noteq> 0
               then broadcast rxfull_event (CAN_MAILBOX_TO_MASK 1) (dequeue_rx MSG_OK
                      (upd_can (\<lambda>r. r\<lparr>IER := IER r AND NOT CAN_IER_FMPIE0\<rparr>) d))
               else d)
      in if rf0r AND CAN_RFR_FOVR \<noteq> 0
         then broadcast error_event CAN_OVERFLOW_ERROR (upd_can (hw_RF0R hw CAN_RFR_FOVR) d)
         else d)"

definition can_lld_rx1_handler :: "bxcan \<Rightarrow> CANDriver \<Rightarrow> CANDriver" where
  "can_lld_rx1_handler hw d =
     (let rf1r = RF1R (can d);
          d = (if rf1r AND CAN_RFR_FMP \<noteq> 0
               then broadcast rxfull_event (CAN_MAILBOX_TO_MASK 2) (dequeue_rx MSG_OK
                      (upd_can (\<lambda>r. r\<lparr>IER := IER r AND NOT CAN_IER_FMPIE1\<rparr>) d))
               else d)
      in if rf1r AND CAN_RFR_FOVR \<noteq> 0
         then broadcast error_event CAN_OVERFLOW_ERROR (upd_can (hw_RF1R hw CAN_RFR_FOVR) d)
         else d)"

definition can_lld_sce_handler :: "bxcan \<Rightarrow> CANDriver \<Rightarrow> CANDriver" where
  "can_lld_sce_handler hw d =
     (let msr = MSR (can d);
          d = upd_can (hw_MSR hw msr) d;
          d = (if msr AND CAN_MSR_WKUI \<noteq> 0
               then broadcast wakeup_event 0
                      (upd_can (\<lambda>r. hw_MCR hw (MCR r AND NOT CAN_MCR_SLEEP) r)
                        (d\<lparr>can_state := CAN_READY\<rparr>))
               else d)
      in if msr AND CAN_MSR_ERRI \<noteq> 0
         then broadcast error_event (push_bit 16 (ESR (can d))) d
         else d)"

text \<open>The unified interrupt handler of the CAN peripheral.\<close>

definition can_irq_handler :: "bxcan \<Rightarrow> CANDriver \<Rightarrow> CANDriver" where
  "can_irq_handler hw d =
     can_lld_sce_handler hw (can_lld_rx1_handler hw (can_lld_rx0_handler hw
       (can_lld_tx_handler hw d)))"

section \<open>Start and stop\<close>

partial_function (option) wait_inak :: "bxcan \<Rightarrow> CAN_TypeDef \<Rightarrow> CAN_TypeDef option" where
  "wait_inak hw r = (if MSR r AND CAN_MSR_INAK = 0 then wait_inak hw (hw_tick hw r) else Some r)"

definition can_lld_start :: "bxcan \<Rightarrow> CANDriver \<Rightarrow> CANDriver option" where
  "can_lld_start hw d =
     do {
       cfg \<leftarrow> can_config d;
       r \<leftarrow> wait_inak hw (hw_MCR hw CAN_MCR_INRQ (can d));
       let r = hw_MCR hw (cfg_mcr cfg) (r\<lparr>BTR := cfg_btr cfg\<rparr>);
       let r = r\<lparr>IER := CAN_IER_TMEIE OR CAN_IER_FMPIE0 OR CAN_IER_FMPIE1 OR CAN_IER_WKUIE
                 OR CAN_IER_ERRIE OR CAN_IER_BOFIE OR CAN_IER_EPVIE OR CAN_IER_EWGIE
                 OR CAN_IER_FOVIE0 OR CAN_IER_FOVIE1\<rparr>;
       Some (d\<lparr>nvic_enabled := True, can_clock := True, can := r\<rparr>)
     }"

definition can_lld_stop :: "bxcan \<Rightarrow> CANDriver \<Rightarrow> CANDriver" where
  "can_lld_stop hw d =
     (if can_state d = CAN_READY
      then (upd_can (\<lambda>r. r\<lparr>IER := 0\<rparr>) (upd_can (hw_MCR hw 0x00010002) d))
             \<lparr>nvic_enabled := False, can_clock := False\<rparr>
      else d)"

definition can_lld_sleep :: "bxcan \<Rightarrow> CANDriver \<Rightarrow> CANDriver" where
  "can_lld_sleep hw d = upd_can (\<lambda>r. hw_MCR hw (MCR r OR CAN_MCR_SLEEP) r) d"

definition can_lld_wakeup :: "bxcan \<Rightarrow> CANDriver \<Rightarrow> CANDriver" where
  "can_lld_wakeup hw d = upd_can (\<lambda>r. hw_MCR hw (MCR r AND NOT CAN_MCR_SLEEP) r) d"

section \<open>Transmission\<close>

definition can_lld_is_tx_empty :: "CAN_TypeDef \<Rightarrow> u32 \<Rightarrow> bool" where
  "can_lld_is_tx_empty r mailbox =
     (if mailbox = CAN_ANY_MAILBOX then TSR r AND CAN_TSR_TME \<noteq> 0
      else if mailbox = 1 then TSR r AND CAN_TSR_TME0 \<noteq> 0
      else if mailbox = 2 then TSR r AND CAN_TSR_TME1 \<noteq> 0
      else if mailbox = 3 then TSR r AND CAN_TSR_TME2 \<noteq> 0
      else False)"

definition tx_mailbox_index :: "CAN_TypeDef \<Rightarrow> u32 \<Rightarrow> nat option" where
  "tx_mailbox_index r mailbox =
     (if mailbox = CAN_ANY_MAILBOX then Some (unat (drop_bit 24 (TSR r AND CAN_TSR_CODE)))
      else if mailbox = 1 then Some 0
      else if mailbox = 2 then Some 1
      else if mailbox = 3 then Some 2
      else None)"

definition tir_of :: "CANTxFrame \<Rightarrow> u32" where
  "tir_of f =
     (if tx_IDE f \<noteq> 0
      then push_bit 3 (get_EID (tx_id f)) OR push_bit 1 (ucast (tx_RTR f)) OR CAN_TIR_IDE
      else push_bit 21 (get_SID (tx_id f)) OR push_bit 1 (ucast (tx_RTR f)))"

text \<open>
  The four register writes in the order of the code.  Slot 3 of the mailbox array does not
  exist: there the next registers are the read-only receive mailboxes, and the list update
  does nothing either.
\<close>

definition can_lld_transmit :: "bxcan \<Rightarrow> u32 \<Rightarrow> CANTxFrame \<Rightarrow> CAN_TypeDef \<Rightarrow> CAN_TypeDef" where
  "can_lld_transmit hw mailbox f r =
     (case tx_mailbox_index r mailbox of
        None \<Rightarrow> r
      | Some i \<Rightarrow>
          let m = sTxMailBox r ! i;
              m = m\<lparr>TDTR := ucast (tx_DLC f), TDLR := data32_of (tx_data8 f) 0,
                    TDHR := data32_of (tx_data8 f) 1\<rparr>
          in hw_TIR hw i (tir_of f OR CAN_TIR_TXRQ) (r\<lparr>sTxMailBox := (sTxMailBox r)[i := m]\<rparr>))"

section \<open>Reception\<close>

definition can_lld_is_rx_nonempty :: "CAN_TypeDef \<Rightarrow> u32 \<Rightarrow> bool" where
  "can_lld_is_rx_nonempty r mailbox =
     (if mailbox = CAN_ANY_MAILBOX
      then RF0R r AND CAN_RFR_FMP \<noteq> 0 \<or> RF1R r AND CAN_RFR_FMP \<noteq> 0
      else if mailbox = 1 then RF0R r AND CAN_RFR_FMP \<noteq> 0
      else if mailbox = 2 then RF1R r AND CAN_RFR_FMP \<noteq> 0
      else False)"

definition decode_rx :: "CAN_FIFOMailBox \<Rightarrow> CANRxFrame \<Rightarrow> CANRxFrame" where
  "decode_rx m f =
     (let rir = RIR m; rdtr = RDTR m;
          f = f\<lparr>rx_data8 := set_data32 1 (RDHR m) (set_data32 0 (RDLR m) (rx_data8 f)),
                rx_RTR := ucast (drop_bit 1 (rir AND 0x2)),
                rx_IDE := ucast (drop_bit 2 (rir AND 0x4))\<rparr>;
          f = (if rx_IDE f \<noteq> 0 then f\<lparr>rx_id := set_EID (drop_bit 3 rir) (rx_id f)\<rparr>
               else f\<lparr>rx_id := set_SID (drop_bit 21 rir) (rx_id f)\<rparr>)
      in f\<lparr>rx_DLC := ucast (rdtr AND 0xF), rx_FMI := ucast (drop_bit 8 rdtr),
           rx_TIME := ucast (drop_bit 16 rdtr)\<rparr>)"

definition release0 :: "bxcan \<Rightarrow> CAN_TypeDef \<Rightarrow> CAN_TypeDef" where
  "release0 hw r =
     (let r = hw_RF0R hw CAN_RFR_RFOM r
      in if RF0R r AND CAN_RFR_FMP = 0 then r\<lparr>IER := IER r OR CAN_IER_FMPIE0\<rparr> else r)"

definition release1 :: "bxcan \<Rightarrow> CAN_TypeDef \<Rightarrow> CAN_TypeDef" where
  "release1 hw r =
     (let r = hw_RF1R hw CAN_RFR_RFOM r
      in if RF1R r AND CAN_RFR_FMP = 0 then r\<lparr>IER := IER r OR CAN_IER_FMPIE1\<rparr> else r)"

definition can_lld_receive :: "bxcan \<Rightarrow> u32 \<Rightarrow> CANRxFrame \<Rightarrow> CAN_TypeDef \<Rightarrow>
    CANRxFrame \<times> CAN_TypeDef" where
  "can_lld_receive hw mailbox f r =
     (let mailbox =
        (if mailbox = CAN_ANY_MAILBOX
         then if RF0R r AND CAN_RFR_FMP \<noteq> 0 then 1
              else if RF1R r AND CAN_RFR_FMP \<noteq> 0 then 2 else 0
         else mailbox)
      in if mailbox = 1 then (decode_rx (sFIFOMailBox r ! 0) f, release0 hw r)
         else if mailbox = 2 then (decode_rx (sFIFOMailBox r ! 1) f, release1 hw r)
         else (f, r))"

section \<open>What the peripheral is documented to do\<close>

definition fmp0 :: "CAN_TypeDef \<Rightarrow> nat" where "fmp0 r = unat (RF0R r AND CAN_RFR_FMP)"
definition fmp1 :: "CAN_TypeDef \<Rightarrow> nat" where "fmp1 r = unat (RF1R r AND CAN_RFR_FMP)"

definition tme :: "nat \<Rightarrow> CAN_TypeDef \<Rightarrow> bool" where "tme i r = bit (TSR r) (26 + i)"

definition code :: "CAN_TypeDef \<Rightarrow> nat" where
  "code r = unat (drop_bit 24 (TSR r AND CAN_TSR_CODE))"

text \<open>
  The register file has its documented shape; when some transmit mailbox is free, \<^verbatim>\<open>CODE\<close> is
  the number of a free one.
\<close>

definition regs_ok :: "CAN_TypeDef \<Rightarrow> bool" where
  "regs_ok r \<longleftrightarrow> length (sTxMailBox r) = 3 \<and> length (sFIFOMailBox r) = 2 \<and>
     ((\<exists>i < 3. tme i r) \<longrightarrow> code r < 3 \<and> tme (code r) r)"

text \<open>
  Requesting transmission of mailbox \<open>i\<close> stores the identifier register, makes that mailbox
  not empty, leaves the other two as they are, and only \<^verbatim>\<open>TSR\<close> changes beside it.
\<close>

definition bxcan_tx_ok :: "bxcan \<Rightarrow> bool" where
  "bxcan_tx_ok hw \<longleftrightarrow> (\<forall>i v r. i < 3 \<and> bit v 0 \<and> length (sTxMailBox r) = 3 \<longrightarrow>
     (let r' = hw_TIR hw i v r in
      r' = r\<lparr>sTxMailBox := (sTxMailBox r)[i := (sTxMailBox r ! i)\<lparr>TIR := v\<rparr>], TSR := TSR r'\<rparr> \<and>
      (\<forall>j < 3. tme j r' = (tme j r \<and> j \<noteq> i)) \<and>
      ((\<exists>j < 3. tme j r') \<longrightarrow> code r' < 3 \<and> tme (code r') r')))"

text \<open>
  Releasing a receive FIFO takes one message off it; acknowledging an overrun changes no
  message count.
\<close>

definition bxcan_rx_ok :: "bxcan \<Rightarrow> bool" where
  "bxcan_rx_ok hw \<longleftrightarrow>
     (\<forall>r. fmp0 r > 0 \<and> length (sFIFOMailBox r) = 2 \<longrightarrow>
        (\<exists>rf m. hw_RF0R hw CAN_RFR_RFOM r =
           r\<lparr>RF0R := rf, sFIFOMailBox := (sFIFOMailBox r)[0 := m]\<rparr> \<and>
         unat (rf AND CAN_RFR_FMP) = fmp0 r - 1)) \<and>
     (\<forall>r. fmp1 r > 0 \<and> length (sFIFOMailBox r) = 2 \<longrightarrow>
        (\<exists>rf m. hw_RF1R hw CAN_RFR_RFOM r =
           r\<lparr>RF1R := rf, sFIFOMailBox := (sFIFOMailBox r)[1 := m]\<rparr> \<and>
         unat (rf AND CAN_RFR_FMP) = fmp1 r - 1)) \<and>
     (\<forall>r. \<exists>rf. hw_RF0R hw CAN_RFR_FOVR r = r\<lparr>RF0R := rf\<rparr> \<and>
         unat (rf AND CAN_RFR_FMP) = fmp0 r) \<and>
     (\<forall>r. \<exists>rf. hw_RF1R hw CAN_RFR_FOVR r = r\<lparr>RF1R := rf\<rparr> \<and>
         unat (rf AND CAN_RFR_FMP) = fmp1 r)"

text \<open>
  Clearing request-completed and status bits changes no mailbox state; a write to the master
  control register changes that register and the status register.
\<close>

definition bxcan_ctl_ok :: "bxcan \<Rightarrow> bool" where
  "bxcan_ctl_ok hw \<longleftrightarrow>
     (\<forall>v r. \<exists>t. hw_TSR hw v r = r\<lparr>TSR := t\<rparr> \<and>
        (\<forall>k \<in> {24..28}. bit t k = bit (TSR r) k)) \<and>
     (\<forall>v r. \<exists>t. hw_MSR hw v r = r\<lparr>MSR := t\<rparr>) \<and>
     (\<forall>v r. \<exists>t. hw_MCR hw v r = r\<lparr>MCR := v, MSR := t\<rparr>)"

section \<open>Frames through the registers\<close>

lemma push_drop_EID: "drop_bit 3 (push_bit 3 (get_EID c)) = get_EID c"
  unfolding get_EID_def id_masks by (rule bit_word_eqI) (auto simp: bit_simps)

lemma push_drop_SID: "drop_bit 21 (push_bit 21 (get_SID c)) = get_SID c"
  unfolding get_SID_def id_masks by (rule bit_word_eqI) (auto simp: bit_simps)

lemma is_tx_empty_any: "can_lld_is_tx_empty r 0 \<longleftrightarrow> (\<exists>i < 3. tme i r)"
proof -
  have m: "(0x1C000000 :: u32) = push_bit 26 (mask 3)"
    by (simp add: mask_eq_exp_minus_1)
  show ?thesis
    using and_field_nonzero [of 26 3 "TSR r"]
    unfolding can_lld_is_tx_empty_def tme_def m by simp
qed

lemma tx_mailbox_index_any: "tx_mailbox_index r 0 = Some (code r)"
  by (simp add: tx_mailbox_index_def code_def)

text \<open>Fields of an identifier register, below bit 0, which is the transmit request.\<close>

definition wire_bits :: "u32 \<Rightarrow> u32" where "wire_bits tir = tir AND NOT CAN_TIR_TXRQ"

lemma bit_1word: "x \<noteq> 0 \<longleftrightarrow> bit x 0" for x :: "1 word"
  by (metis One_nat_def bit_0 bit_eqI bit_imp_le_length len_num1 less_Suc0 not_less bit_0_eq
      bot_apply bot_bool_def)

lemma bit_tir_of: "bit (tir_of f) n \<longleftrightarrow> n < 32 \<and>
   ((if tx_IDE f \<noteq> 0 then n = 2 \<or> (3 \<le> n \<and> bit (get_EID (tx_id f)) (n - 3))
     else 21 \<le> n \<and> bit (get_SID (tx_id f)) (n - 21)) \<or> (n = 1 \<and> tx_RTR f \<noteq> 0))"
proof -
  have r: "bit (push_bit 1 (ucast (tx_RTR f) :: u32)) n \<longleftrightarrow> n = 1 \<and> tx_RTR f \<noteq> 0"
    using bit_1word [of "tx_RTR f"]
    by (auto simp: bit_push_bit_iff bit_simps simp del: push_bit_Suc dest: bit_imp_le_length)
  have i: "bit (4 :: u32) n \<longleftrightarrow> n = 2"
    using bit_exp_iff [where 'a = "32 word", of 2 n] by auto
  show ?thesis unfolding tir_of_def using r i
    by (auto simp: bit_or_iff bit_push_bit_iff simp del: push_bit_Suc dest: bit_imp_le_length)
qed

lemma wire_bits_tir: "wire_bits (tir_of f OR CAN_TIR_TXRQ) = tir_of f"
proof (rule bit_word_eqI)
  fix n :: nat
  assume "n < LENGTH(32)"
  then show "bit (wire_bits (tir_of f OR CAN_TIR_TXRQ)) n = bit (tir_of f) n"
    by (cases "n = 0")
      (auto simp: wire_bits_def bit_and_iff bit_or_iff bit_not_iff bit_1_iff bit_tir_of)
qed

lemma tir_of_fields:
  "ucast (drop_bit 1 (tir_of f AND 2)) = tx_RTR f"
  "ucast (drop_bit 2 (tir_of f AND 4)) = tx_IDE f"
  "tx_IDE f \<noteq> 0 \<Longrightarrow> drop_bit 3 (tir_of f) = get_EID (tx_id f)"
  "tx_IDE f = 0 \<Longrightarrow> drop_bit 21 (tir_of f) = get_SID (tx_id f)"
proof -
  have b2: "bit (2 :: u32) n \<longleftrightarrow> n = 1" and b4: "bit (4 :: u32) n \<longleftrightarrow> n = 2" for n
    using bit_exp_iff [where 'a = "32 word", of 1 n] bit_exp_iff [where 'a = "32 word", of 2 n]
    by auto
  show "ucast (drop_bit 1 (tir_of f AND 2)) = tx_RTR f"
    by (rule bit_word_eqI)
      (auto simp: bit_ucast_iff bit_drop_bit_eq bit_and_iff b2 bit_tir_of bit_1word [of "tx_RTR f"])
  show "ucast (drop_bit 2 (tir_of f AND 4)) = tx_IDE f"
    by (rule bit_word_eqI)
      (auto simp: bit_ucast_iff bit_drop_bit_eq bit_and_iff b4 bit_tir_of bit_1word [of "tx_IDE f"])
  show "tx_IDE f \<noteq> 0 \<Longrightarrow> drop_bit 3 (tir_of f) = get_EID (tx_id f)"
    by (rule bit_word_eqI)
      (auto simp: bit_drop_bit_eq bit_tir_of get_EID_def id_masks bit_and_iff bit_mask_iff)
  show "tx_IDE f = 0 \<Longrightarrow> drop_bit 21 (tir_of f) = get_SID (tx_id f)"
    by (rule bit_word_eqI)
      (auto simp: bit_drop_bit_eq bit_tir_of get_SID_def id_masks bit_and_iff bit_mask_iff)
qed

lemma set_data32_of:
  assumes "length d = 8" "length e = 8"
  shows "set_data32 1 (data32_of d 1) (set_data32 0 (data32_of d 0) e) = d"
proof -
  obtain d0 d1 d2 d3 d4 d5 d6 d7 where d: "d = [d0, d1, d2, d3, d4, d5, d6, d7]"
    using assms(1) length_8_conv by metis
  obtain e0 e1 e2 e3 e4 e5 e6 e7 where e: "e = [e0, e1, e2, e3, e4, e5, e6, e7]"
    using assms(2) length_8_conv by metis
  show ?thesis by (simp add: d e set_data32_def data32_of_def)
qed

text \<open>
  The bus: a receiving node shows in its FIFO mailbox what the sending node's transmit mailbox
  holds, apart from the request bit; the receiver adds its own time stamp and filter index.
\<close>

definition arrives :: "CAN_TxMailBox \<Rightarrow> CAN_FIFOMailBox \<Rightarrow> bool" where
  "arrives t m \<longleftrightarrow> RIR m = wire_bits (TIR t) \<and> RDTR m AND 0xF = TDTR t AND 0xF \<and>
     RDLR m = TDLR t \<and> RDHR m = TDHR t"

definition same_frame :: "CANTxFrame \<Rightarrow> CANRxFrame \<Rightarrow> bool" where
  "same_frame f g \<longleftrightarrow> rx_IDE g = tx_IDE f \<and> rx_RTR g = tx_RTR f \<and> rx_DLC g = tx_DLC f \<and>
     (if tx_IDE f \<noteq> 0 then get_EID (rx_id g) = get_EID (tx_id f)
      else get_SID (rx_id g) = get_SID (tx_id f)) \<and>
     rx_data8 g = tx_data8 f"

definition holds_frame :: "CANTxFrame \<Rightarrow> CAN_TxMailBox \<Rightarrow> bool" where
  "holds_frame f t \<longleftrightarrow> TIR t = tir_of f OR CAN_TIR_TXRQ \<and> TDTR t = ucast (tx_DLC f) \<and>
     TDLR t = data32_of (tx_data8 f) 0 \<and> TDHR t = data32_of (tx_data8 f) 1"

lemma dlc_back: "ucast ((ucast (x :: 4 word) :: u32) AND 0xF) = x"
proof -
  have m: "(0xF :: u32) = mask 4" by (simp add: mask_eq_exp_minus_1)
  show ?thesis unfolding m by (intro bit_word_eqI) (auto simp: bit_simps)
qed

lemma decode_rx_same_frame:
  assumes "holds_frame f t" "arrives t m" "length (tx_data8 f) = 8" "length (rx_data8 g) = 8"
  shows "same_frame f (decode_rx m g)"
proof -
  have [simp]: "get_EID c AND 0x1FFFFFFF = get_EID c" "get_SID c AND 0x7FF = get_SID c" for c
    by (simp_all add: get_EID_def get_SID_def and.assoc)
  have m: "RIR m = tir_of f" "RDTR m AND 0xF = ucast (tx_DLC f) AND 0xF"
    "RDLR m = data32_of (tx_data8 f) 0" "RDHR m = data32_of (tx_data8 f) 1"
    using assms(1,2) by (auto simp: holds_frame_def arrives_def wire_bits_tir)
  show ?thesis
    using tir_of_fields [of f] assms(3,4)
    by (simp add: same_frame_def decode_rx_def m dlc_back set_data32_of [simplified] Let_def)
qed

end
