(* ===== verification/Can.thy ===== *)
theory Can
  imports Can_lld
begin

text \<open>
  The CAN driver API, \<^verbatim>\<open>os/hal/src/can.c\<close>, over the low level driver.  A thread that blocks in
  \<open>canTransmit\<close> or \<open>canReceive\<close> consumes an explicit script of wakeups: each entry is the
  message the thread is resumed with and what interrupt handlers and other threads did to the
  driver while it slept.  An exhausted script means the thread is still blocked (\<open>None\<close>).
\<close>

section \<open>Operations\<close>

definition canObjectInit :: "CANDriver \<Rightarrow> CANDriver" where
  "canObjectInit d = d\<lparr>can_state := CAN_STOP, can_config := None, txqueue := [], rxqueue := [],
     broadcasts := []\<rparr>"

definition can_lld_init :: "CANDriver \<Rightarrow> CANDriver" where
  "can_lld_init d = can_lld_set_filters (of_nat STM32_CAN_MAX_FILTERS) [] (canObjectInit d)"

definition canInit :: "CANDriver \<Rightarrow> CANDriver" where
  "canInit d = can_lld_init d"

definition canStart :: "bxcan \<Rightarrow> CANConfig \<Rightarrow> CANDriver \<Rightarrow> CANDriver option" where
  "canStart hw config d =
     do {
       d \<leftarrow> can_lld_start hw (d\<lparr>can_state := CAN_STARTING, can_config := Some config\<rparr>);
       Some (d\<lparr>can_state := CAN_READY\<rparr>)
     }"

definition canStop :: "bxcan \<Rightarrow> CANDriver \<Rightarrow> CANDriver" where
  "canStop hw d =
     dequeue_tx MSG_RESET (dequeue_rx MSG_RESET ((can_lld_stop hw d)\<lparr>can_state := CAN_STOP\<rparr>))"

text \<open>The boolean result is the code's: true when the mailbox is full (empty).\<close>

definition canTryTransmitI :: "bxcan \<Rightarrow> u32 \<Rightarrow> CANTxFrame \<Rightarrow> CANDriver \<Rightarrow> bool \<times> CANDriver" where
  "canTryTransmitI hw mailbox f d =
     (if \<not> can_lld_is_tx_empty (can d) mailbox then (True, d)
      else (False, upd_can (can_lld_transmit hw mailbox f) d))"

definition canTryReceiveI :: "bxcan \<Rightarrow> u32 \<Rightarrow> CANRxFrame \<Rightarrow> CANDriver \<Rightarrow>
    bool \<times> CANRxFrame \<times> CANDriver" where
  "canTryReceiveI hw mailbox g d =
     (if \<not> can_lld_is_rx_nonempty (can d) mailbox then (True, g, d)
      else let (g', r') = can_lld_receive hw mailbox g (can d) in (False, g', d\<lparr>can := r'\<rparr>))"

type_synonym wake = "msg_t \<times> (CANDriver \<Rightarrow> CANDriver)"

fun canTransmit :: "bxcan \<Rightarrow> nat \<Rightarrow> u32 \<Rightarrow> CANTxFrame \<Rightarrow> systime_t \<Rightarrow> wake list \<Rightarrow> CANDriver \<Rightarrow>
    (msg_t \<times> wake list \<times> CANDriver) option" where
  "canTransmit hw self mailbox f timeout ws d =
     (if can_state d = CAN_SLEEP \<or> \<not> can_lld_is_tx_empty (can d) mailbox
      then if timeout = TIME_IMMEDIATE then Some (MSG_TIMEOUT, ws, d)
           else (case ws of
                   [] \<Rightarrow> None
                 | (m, env) # ws' \<Rightarrow>
                     let d' = env (d\<lparr>txqueue := txqueue d @ [self]\<rparr>)
                     in if m \<noteq> MSG_OK then Some (m, ws', d')
                        else canTransmit hw self mailbox f timeout ws' d')
      else Some (MSG_OK, ws, upd_can (can_lld_transmit hw mailbox f) d))"

fun canReceive :: "bxcan \<Rightarrow> nat \<Rightarrow> u32 \<Rightarrow> CANRxFrame \<Rightarrow> systime_t \<Rightarrow> wake list \<Rightarrow> CANDriver \<Rightarrow>
    (msg_t \<times> CANRxFrame \<times> wake list \<times> CANDriver) option" where
  "canReceive hw self mailbox g timeout ws d =
     (if can_state d = CAN_SLEEP \<or> \<not> can_lld_is_rx_nonempty (can d) mailbox
      then if timeout = TIME_IMMEDIATE then Some (MSG_TIMEOUT, g, ws, d)
           else (case ws of
                   [] \<Rightarrow> None
                 | (m, env) # ws' \<Rightarrow>
                     let d' = env (d\<lparr>rxqueue := rxqueue d @ [self]\<rparr>)
                     in if m \<noteq> MSG_OK then Some (m, g, ws', d')
                        else canReceive hw self mailbox g timeout ws' d')
      else let (g', r') = can_lld_receive hw mailbox g (can d)
           in Some (MSG_OK, g', ws, d\<lparr>can := r'\<rparr>))"

declare canTransmit.simps [simp del] canReceive.simps [simp del]

definition canSleep :: "bxcan \<Rightarrow> CANDriver \<Rightarrow> CANDriver" where
  "canSleep hw d =
     (if can_state d = CAN_READY
      then broadcast sleep_event 0 ((can_lld_sleep hw d)\<lparr>can_state := CAN_SLEEP\<rparr>)
      else d)"

definition canWakeup :: "bxcan \<Rightarrow> CANDriver \<Rightarrow> CANDriver" where
  "canWakeup hw d =
     (if can_state d = CAN_SLEEP
      then broadcast wakeup_event 0 ((can_lld_wakeup hw d)\<lparr>can_state := CAN_READY\<rparr>)
      else d)"

section \<open>A peripheral that satisfies the documented behaviour\<close>

text \<open>Used to evaluate the driver on concrete inputs.\<close>

definition sample_tsr :: "nat \<Rightarrow> u32 \<Rightarrow> u32" where
  "sample_tsr i t =
     (let a = bit t 26 \<and> i \<noteq> 0; b = bit t 27 \<and> i \<noteq> 1; c = bit t 28 \<and> i \<noteq> 2
      in (if a then 0x04000000 else 0) OR (if b then 0x08000000 else 0)
         OR (if c then 0x10000000 else 0)
         OR (if a then 0 else if b then 0x01000000 else if c then 0x02000000 else 0))"

definition sample_can :: bxcan where
  "sample_can = \<lparr>
     hw_TIR = (\<lambda>i v r. r\<lparr>sTxMailBox := (sTxMailBox r)[i := (sTxMailBox r ! i)\<lparr>TIR := v\<rparr>],
                          TSR := sample_tsr i (TSR r)\<rparr>),
     hw_TSR = (\<lambda>v r. r\<lparr>TSR := TSR r AND NOT (v AND mask 24)\<rparr>),
     hw_RF0R = (\<lambda>v r. if v = CAN_RFR_RFOM then r\<lparr>RF0R := of_nat (fmp0 r - 1)\<rparr>
                       else r\<lparr>RF0R := RF0R r AND 3\<rparr>),
     hw_RF1R = (\<lambda>v r. if v = CAN_RFR_RFOM then r\<lparr>RF1R := of_nat (fmp1 r - 1)\<rparr>
                       else r\<lparr>RF1R := RF1R r AND 3\<rparr>),
     hw_MSR = (\<lambda>v r. r\<lparr>MSR := MSR r AND NOT (v AND 0x1C)\<rparr>),
     hw_MCR = (\<lambda>v r. r\<lparr>MCR := v, MSR := (if bit v 0 then set_bit 0 (MSR r) else unset_bit 0 (MSR r))\<rparr>),
     hw_tick = (\<lambda>r. r)\<rparr>"

definition sample_regs :: CAN_TypeDef where
  "sample_regs = \<lparr>MCR = 0, MSR = 0, TSR = 0x1C000000, RF0R = 0, RF1R = 0, IER = 0, ESR = 0, BTR = 0,
     sTxMailBox = replicate 3 \<lparr>TIR = 0, TDTR = 0, TDLR = 0, TDHR = 0\<rparr>,
     sFIFOMailBox = replicate 2 \<lparr>RIR = 0, RDTR = 0, RDLR = 0, RDHR = 0\<rparr>,
     FMR = 0, FM1R = 0, FS1R = 0, FFA1R = 0, FA1R = 0,
     sFilterRegister = replicate 14 \<lparr>FR1 = 0, FR2 = 0\<rparr>\<rparr>"

definition sample_driver :: CANDriver where
  "sample_driver = \<lparr>can_state = CAN_READY, can_config = None, txqueue = [], rxqueue = [],
     can = sample_regs, nvic_enabled = True, can_clock = True, woken = [], broadcasts = []\<rparr>"

lemma less_3_cases: "i < 3 \<longleftrightarrow> i = 0 \<or> i = 1 \<or> i = (2::nat)"
  by auto

lemma ex_less_3: "(\<exists>j < 3. P j) \<longleftrightarrow> P 0 \<or> P 1 \<or> P (2::nat)"
  by (auto simp: less_3_cases)
lemma all_less_3: "(\<forall>j < 3. P j) \<longleftrightarrow> P 0 \<and> P 1 \<and> P (2::nat)"
  by (auto simp: less_3_cases)

lemma sample_tsr_bits:
  shows "\<forall>j < 3. bit (sample_tsr i t) (26 + j) = (bit t (26 + j) \<and> j \<noteq> i)"
    and "\<exists>j < 3. bit (sample_tsr i t) (26 + j) \<Longrightarrow>
      bit (sample_tsr i t) (26 + ((if bit (sample_tsr i t) 24 then 1 else 0)
        + (if bit (sample_tsr i t) 25 then 2 else 0)))
      \<and> \<not> (bit (sample_tsr i t) 24 \<and> bit (sample_tsr i t) 25)"
  unfolding sample_tsr_def Let_def ex_less_3 all_less_3
  by (cases "bit t 26 \<and> i \<noteq> 0"; cases "bit t 27 \<and> i \<noteq> 1"; cases "bit t 28 \<and> i \<noteq> 2"; force)+

lemma take_bit_2_word: "take_bit 2 (w::u32) = (if bit w 0 then 1 else 0) OR (if bit w 1 then 2 else 0)"
proof (rule bit_word_eqI)
  fix n assume "n < LENGTH(32)"
  have b2: "bit (2 :: u32) n \<longleftrightarrow> n = 1" 
    using bit_exp_iff [where 'a = "32 word", of 1 n] by auto
  have b1: "bit (1 :: u32) n \<longleftrightarrow> n = 0" by (simp add: bit_1_iff)
  show "bit (take_bit 2 w) n = bit ((if bit w 0 then 1 else 0::u32) OR (if bit w 1 then 2 else 0)) n"
    unfolding bit_take_bit_iff bit_or_iff less_2_cases_iff
    using b1 b2 by (cases "bit w 0"; cases "bit w 1") (auto simp del: bit_0)
qed

lemma code_bits: "code r = (if bit (TSR r) 24 then 1 else 0) + (if bit (TSR r) 25 then 2 else 0)"
proof -
  have m: "(0x03000000 :: u32) = push_bit 24 (mask 2)" by (simp add: mask_eq_exp_minus_1)
  have "unat (take_bit 2 w) = (if bit w 0 then 1 else 0) + (if bit w 1 then 2 else 0)" for w :: u32
    unfolding take_bit_2_word by auto
  then show ?thesis unfolding code_def m by (subst drop_field) (auto simp: bit_drop_bit_eq)
qed

lemma sample_can_tx_ok: "bxcan_tx_ok sample_can"
proof -
  have "tme j (hw_TIR sample_can i v r) = (tme j r \<and> j \<noteq> i)" if "i < 3" "j < 3" for i j v r
    using sample_tsr_bits(1) [of i "TSR r"] that by (simp add: sample_can_def tme_def)
  moreover have "code (hw_TIR sample_can i v r) < 3 \<and> tme (code (hw_TIR sample_can i v r)) (hw_TIR sample_can i v r)"
    if "i < 3" "\<exists>j < 3. tme j (hw_TIR sample_can i v r)" for i v r
    using sample_tsr_bits(2) [of i "TSR r"] that(2)
    by (simp add: sample_can_def tme_def code_bits split: if_splits)
  moreover have "hw_TIR sample_can i v r = r\<lparr>sTxMailBox := (sTxMailBox r)[i := (sTxMailBox r ! i)\<lparr>TIR := v\<rparr>],
      TSR := TSR (hw_TIR sample_can i v r)\<rparr>" for i v r
    by (simp add: sample_can_def)
  ultimately show ?thesis
    unfolding bxcan_tx_ok_def Let_def by blast
qed

lemma and_3_small: "unat (of_nat (unat (w AND 3) - 1) AND (3 :: u32)) = unat (w AND 3) - 1"
  for w :: u32
proof -
  have "w AND 3 \<le> 3" by (rule word_and_le1)
  then have "unat (w AND 3) \<le> 3" by (simp add: word_le_nat_alt)
  then consider "unat (w AND 3) - 1 = 0" | "unat (w AND 3) - 1 = 1" | "unat (w AND 3) - 1 = 2"
    by linarith
  then show ?thesis by cases simp_all
qed

lemma sample_can_rx_ok: "bxcan_rx_ok sample_can"
  unfolding bxcan_rx_ok_def fmp0_def fmp1_def
proof (intro conjI allI impI)
  fix r :: CAN_TypeDef
  show "\<exists>rf m. hw_RF0R sample_can 0x20 r = r\<lparr>RF0R := rf, sFIFOMailBox := (sFIFOMailBox r)[0 := m]\<rparr> \<and>
      unat (rf AND 3) = unat (RF0R r AND 3) - 1"
    using and_3_small [of "RF0R r"]
    by (intro exI [of _ "of_nat (fmp0 r - 1)"] exI [of _ "sFIFOMailBox r ! 0"])
      (simp add: sample_can_def fmp0_def)
  show "\<exists>rf m. hw_RF1R sample_can 0x20 r = r\<lparr>RF1R := rf, sFIFOMailBox := (sFIFOMailBox r)[1 := m]\<rparr> \<and>
      unat (rf AND 3) = unat (RF1R r AND 3) - 1"
    using and_3_small [of "RF1R r"]
    by (intro exI [of _ "of_nat (fmp1 r - 1)"] exI [of _ "sFIFOMailBox r ! 1"])
      (simp add: sample_can_def fmp1_def)
qed (auto simp: sample_can_def and.assoc)

lemma sample_can_ctl_ok: "bxcan_ctl_ok sample_can"
  unfolding bxcan_ctl_ok_def
proof (intro conjI allI)
  fix v :: u32 and r :: CAN_TypeDef
  show "\<exists>t. hw_TSR sample_can v r = r\<lparr>TSR := t\<rparr> \<and> (\<forall>k \<in> {24..28}. bit t k = bit (TSR r) k)"
    by (intro exI [of _ "TSR r AND NOT (v AND mask 24)"])
      (simp add: sample_can_def bit_and_iff bit_or_iff bit_not_iff bit_mask_iff)
qed (auto simp: sample_can_def)

lemma sample_regs_ok: "regs_ok sample_regs"
  by (simp add: regs_ok_def sample_regs_def tme_def code_def)

section \<open>Transmission\<close>

text \<open>
  A frame handed to a free mailbox: the chosen mailbox holds the frame and is busy afterwards,
  the other mailboxes and everything else stay as they were.
\<close>

definition queued :: "CANTxFrame \<Rightarrow> nat \<Rightarrow> CAN_TypeDef \<Rightarrow> CAN_TypeDef \<Rightarrow> bool" where
  "queued f i r r' \<longleftrightarrow> i < 3 \<and> tme i r \<and> holds_frame f (sTxMailBox r' ! i) \<and>
     (\<forall>j < 3. j \<noteq> i \<longrightarrow> sTxMailBox r' ! j = sTxMailBox r ! j) \<and>
     (\<forall>j < 3. tme j r' = (tme j r \<and> j \<noteq> i)) \<and>
     r' = r\<lparr>sTxMailBox := sTxMailBox r', TSR := TSR r'\<rparr>"

lemma bxcan_tx_okD:
  assumes "bxcan_tx_ok hw" "i < 3" "bit v 0" "length (sTxMailBox r) = 3"
  shows "hw_TIR hw i v r = r\<lparr>sTxMailBox := (sTxMailBox r)[i := (sTxMailBox r ! i)\<lparr>TIR := v\<rparr>],
      TSR := TSR (hw_TIR hw i v r)\<rparr>"
    and "\<forall>j < 3. tme j (hw_TIR hw i v r) = (tme j r \<and> j \<noteq> i)"
    and "(\<exists>j < 3. tme j (hw_TIR hw i v r)) \<longrightarrow>
      code (hw_TIR hw i v r) < 3 \<and> tme (code (hw_TIR hw i v r)) (hw_TIR hw i v r)"
  using assms unfolding bxcan_tx_ok_def Let_def by blast+

lemma lld_transmit_any:
  assumes hw: "bxcan_tx_ok hw" and ok: "regs_ok r" and free: "can_lld_is_tx_empty r 0"
  shows "queued f (code r) r (can_lld_transmit hw 0 f r)"
    and "regs_ok (can_lld_transmit hw 0 f r)"
proof -
  let ?i = "code r"
  define m where "m = (sTxMailBox r ! ?i)\<lparr>TDTR := ucast (tx_DLC f), TDLR := data32_of (tx_data8 f) 0,
    TDHR := data32_of (tx_data8 f) 1\<rparr>"
  define r1 where "r1 = r\<lparr>sTxMailBox := (sTxMailBox r)[?i := m]\<rparr>"
  define r2 where "r2 = hw_TIR hw ?i (tir_of f OR CAN_TIR_TXRQ) r1"
  have eq: "can_lld_transmit hw 0 f r = r2"
    by (simp add: can_lld_transmit_def tx_mailbox_index_any m_def r1_def r2_def Let_def)
  have i: "?i < 3" "tme ?i r" and len: "length (sTxMailBox r) = 3" "length (sFIFOMailBox r) = 2"
    using ok free by (auto simp: regs_ok_def is_tx_empty_any)
  have t1: "tme j r1 = tme j r" for j by (simp add: r1_def tme_def)
  have "bit (tir_of f OR CAN_TIR_TXRQ) 0" "length (sTxMailBox r1) = 3"
    by (simp_all add: bit_or_iff r1_def len)
  note h = bxcan_tx_okD [OF hw i(1) this, folded r2_def]
  have fr: "r2 = r\<lparr>sTxMailBox := sTxMailBox r2, TSR := TSR r2\<rparr>"
    using h(1) by (metis (no_types, lifting) r1_def CAN_TypeDef.select_convs(9)
        CAN_TypeDef.surjective CAN_TypeDef.update_convs(3,9))
  have mb: "sTxMailBox r2 = (sTxMailBox r)[?i := m\<lparr>TIR := tir_of f OR CAN_TIR_TXRQ\<rparr>]"
    using arg_cong [OF h(1), of sTxMailBox] by (simp add: r1_def i len)
  show "queued f ?i r (can_lld_transmit hw 0 f r)"
    unfolding eq queued_def holds_frame_def
    using i len h(2) t1 fr by (simp add: mb m_def)
  have "length (sTxMailBox r2) = 3" "length (sFIFOMailBox r2) = 2"
    using len arg_cong [OF fr, of sFIFOMailBox] by (simp_all add: mb)
  then show "regs_ok (can_lld_transmit hw 0 f r)"
    unfolding eq regs_ok_def using h(3) by blast
qed

text \<open>
  \<open>tx_resumed self ws d\<close>: the driver after the calling thread blocked and was resumed once for
  every entry of \<open>ws\<close>.
\<close>

definition tx_resumed :: "nat \<Rightarrow> wake list \<Rightarrow> CANDriver \<Rightarrow> CANDriver" where
  "tx_resumed self ws d = fold (\<lambda>(m, env) d. env (d\<lparr>txqueue := txqueue d @ [self]\<rparr>)) ws d"

definition tx_blocked :: "u32 \<Rightarrow> CANDriver \<Rightarrow> bool" where
  "tx_blocked mailbox d \<longleftrightarrow> can_state d = CAN_SLEEP \<or> \<not> can_lld_is_tx_empty (can d) mailbox"

lemma tx_resumed_simps [simp]:
  "tx_resumed self [] d = d"
  "tx_resumed self ((m, env) # ws) d = tx_resumed self ws (env (d\<lparr>txqueue := txqueue d @ [self]\<rparr>))"
  by (simp_all add: tx_resumed_def)

lemma canTransmit_unblocked:
  "\<not> tx_blocked mailbox d \<Longrightarrow> canTransmit hw self mailbox f timeout ws d =
     Some (MSG_OK, ws, upd_can (can_lld_transmit hw mailbox f) d)"
  by (simp add: canTransmit.simps tx_blocked_def)

lemma canTransmit_blocked:
  "tx_blocked mailbox d \<Longrightarrow> timeout \<noteq> 0 \<Longrightarrow> canTransmit hw self mailbox f timeout ((m, env) # ws) d =
     (let d' = env (d\<lparr>txqueue := txqueue d @ [self]\<rparr>)
      in if m \<noteq> MSG_OK then Some (m, ws, d') else canTransmit hw self mailbox f timeout ws d')"
  by (subst canTransmit.simps) (simp add: tx_blocked_def)

text \<open>
  Where the call stops: after \<open>n\<close> resumptions, all but possibly the last with \<^verbatim>\<open>MSG_OK\<close> and all
  finding the mailbox still taken.
\<close>

lemma canTransmit_stops:
  assumes "canTransmit hw self mailbox f timeout ws d = Some (m, ws', d')"
  shows "\<exists>n \<le> length ws. ws' = drop n ws \<and>
     (let d0 = tx_resumed self (take n ws) d in
      if m = MSG_OK then \<not> tx_blocked mailbox d0 \<and> d' = upd_can (can_lld_transmit hw mailbox f) d0
      else d' = d0)"
  using assms
proof (induction ws arbitrary: d)
  case Nil
  show ?case
    using Nil.prems
    by (subst (asm) canTransmit.simps) (auto simp: tx_blocked_def split: if_splits)
next
  case (Cons w ws)
  obtain m1 env where w [simp]: "w = (m1, env)" by force
  let ?d = "env (d\<lparr>txqueue := txqueue d @ [self]\<rparr>)"
  show ?case
  proof (cases "tx_blocked mailbox d \<and> timeout \<noteq> 0")
    case True
    show ?thesis
    proof (cases "m1 = MSG_OK")
      case ok: True
      then obtain n where "n \<le> length ws" "ws' = drop n ws"
        "let d0 = tx_resumed self (take n ws) ?d in
         if m = MSG_OK then \<not> tx_blocked mailbox d0 \<and> d' = upd_can (can_lld_transmit hw mailbox f) d0
         else d' = d0"
        using Cons.IH [of ?d] Cons.prems True by (auto simp: canTransmit_blocked)
      then show ?thesis by (intro exI [of _ "Suc n"]) simp
    next
      case False
      then show ?thesis
        using Cons.prems True
        by (intro exI [of _ 1]) (auto simp: canTransmit_blocked)
    qed
  next
    case False
    then show ?thesis
      using Cons.prems
      by (intro exI [of _ 0])
        (subst (asm) canTransmit.simps, auto simp: tx_blocked_def split: if_splits)
  qed
qed

text \<open>
  C14: \<open>canTransmit\<close> never overwrites a mailbox that is waiting to be sent, and reports what it
  did: when it returns \<^verbatim>\<open>MSG_OK\<close> the frame is complete in a mailbox that was free at that moment,
  which is now busy, and every other mailbox and register is as it was; with any other result
  no register was written by the call.
\<close>

theorem canTransmit_safe:
  assumes "bxcan_tx_ok hw"
    and "canTransmit hw self CAN_ANY_MAILBOX f timeout ws d = Some (m, ws', d')"
  shows "\<exists>n \<le> length ws. ws' = drop n ws \<and>
     (let d0 = tx_resumed self (take n ws) d in
      if m = MSG_OK
      then can_state d0 \<noteq> CAN_SLEEP \<and> d' = d0\<lparr>can := can d'\<rparr> \<and>
           (regs_ok (can d0) \<longrightarrow> (\<exists>i < 3. queued f i (can d0) (can d')) \<and> regs_ok (can d'))
      else d' = d0)"
proof -
  obtain n where n: "n \<le> length ws" "ws' = drop n ws"
    and r: "let d0 = tx_resumed self (take n ws) d in
      if m = MSG_OK then \<not> tx_blocked 0 d0 \<and> d' = upd_can (can_lld_transmit hw 0 f) d0
      else d' = d0"
    using canTransmit_stops [OF assms(2)] by blast
  have "can_state d0 \<noteq> CAN_SLEEP \<and> d' = d0\<lparr>can := can d'\<rparr> \<and>
      (regs_ok (can d0) \<longrightarrow> (\<exists>i < 3. queued f i (can d0) (can d')) \<and> regs_ok (can d'))"
    if "\<not> tx_blocked 0 d0" "d' = upd_can (can_lld_transmit hw 0 f) d0" for d0
    using that lld_transmit_any [OF assms(1), of "can d0" f]
    by (auto simp: tx_blocked_def upd_can_def queued_def)
  then show ?thesis using n r by (auto simp: Let_def split: if_splits)
qed

definition sample_frame :: CANTxFrame where
  "sample_frame = \<lparr>tx_DLC = 8, tx_RTR = 0, tx_IDE = 1, tx_id = 0xE4600,
     tx_data8 = [1, 2, 3, 4, 5, 6, 7, 8]\<rparr>"

text \<open>All mailboxes taken at first; the call blocks once and finds a free mailbox afterwards.\<close>

theorem canTransmit_safe_witness:
  "\<exists>d'. canTransmit sample_can 1 CAN_ANY_MAILBOX sample_frame 1000
       [(MSG_OK, \<lambda>d. d\<lparr>can := sample_regs\<rparr>)] (upd_can (\<lambda>r. r\<lparr>TSR := 0\<rparr>) sample_driver) = Some (MSG_OK, [], d')
     \<and> (\<exists>i < 3. queued sample_frame i sample_regs (can d'))"
proof -
  define d where "d = upd_can (\<lambda>r. r\<lparr>TSR := 0\<rparr>) sample_driver"
  define env where "env = (\<lambda>d :: CANDriver. d\<lparr>can := sample_regs\<rparr>)"
  define d1 where "d1 = env (d\<lparr>txqueue := txqueue d @ [1]\<rparr>)"
  define d' where "d' = upd_can (can_lld_transmit sample_can 0 sample_frame) d1"
  have b: "tx_blocked 0 d" "\<not> tx_blocked 0 d1" "can d1 = sample_regs"
    by (simp_all add: tx_blocked_def can_lld_is_tx_empty_def upd_can_def sample_driver_def
        sample_regs_def d_def d1_def env_def)
  have c: "canTransmit sample_can 1 0 sample_frame 1000 [(0, env)] d = Some (0, [], d')"
    using b by (simp add: canTransmit_blocked canTransmit_unblocked Let_def d1_def d'_def)
  obtain n where n: "n \<le> length [(0 :: msg_t, env)]" "[] = drop n [(0 :: msg_t, env)]"
    and q: "let d0 = tx_resumed 1 (take n [(0, env)]) d in
       if (0 :: msg_t) = 0
       then can_state d0 \<noteq> CAN_SLEEP \<and> d' = d0\<lparr>can := can d'\<rparr> \<and>
         (regs_ok (can d0) \<longrightarrow> (\<exists>i < 3. queued sample_frame i (can d0) (can d')) \<and> regs_ok (can d'))
       else d' = d0"
    using canTransmit_safe [OF sample_can_tx_ok c] by blast
  have "n = 1" using n by (cases n) auto
  then have "tx_resumed 1 (take n [(0, env)]) d = d1" by (simp add: d1_def)
  with q b(3) have "\<exists>i < 3. queued sample_frame i sample_regs (can d')"
    using sample_regs_ok by (simp add: Let_def)
  with c show ?thesis unfolding d_def env_def by blast
qed


definition sample_rx :: CANRxFrame where
  "sample_rx = \<lparr>rx_FMI = 0, rx_TIME = 0, rx_DLC = 0, rx_RTR = 0, rx_IDE = 0, rx_id = 0,
     rx_data8 = replicate 8 0\<rparr>"


section \<open>Reception: the interrupt is armed whenever a FIFO is empty\<close>

definition rx_live :: "CAN_TypeDef \<Rightarrow> bool" where
  "rx_live r \<longleftrightarrow> (\<not> bit (IER r) 1 \<longrightarrow> 0 < fmp0 r) \<and> (\<not> bit (IER r) 4 \<longrightarrow> 0 < fmp1 r)"

definition rx_inv :: "CAN_TypeDef \<Rightarrow> bool" where
  "rx_inv r \<longleftrightarrow> regs_ok r \<and> rx_live r"

text \<open>Everything the invariant looks at.\<close>

lemma rx_inv_cong:
  assumes "length (sTxMailBox r') = length (sTxMailBox r)" "length (sFIFOMailBox r') = length (sFIFOMailBox r)"
    "\<forall>k \<in> {24..28}. bit (TSR r') k = bit (TSR r) k"
    "IER r' = IER r" "fmp0 r' = fmp0 r" "fmp1 r' = fmp1 r"
  shows "rx_inv r' = rx_inv r"
proof -
  have "tme j r' = tme j r" if "j < 3" for j using assms(3) that by (simp add: tme_def)
  moreover have "code r' = code r" using assms(3) by (simp add: code_bits)
  ultimately show ?thesis
    using assms by (auto simp: rx_inv_def regs_ok_def rx_live_def)
qed

lemma bxcan_rx_okD:
  assumes "bxcan_rx_ok hw" "length (sFIFOMailBox r) = 2"
  shows "0 < fmp0 r \<Longrightarrow> \<exists>rf m. hw_RF0R hw CAN_RFR_RFOM r =
           r\<lparr>RF0R := rf, sFIFOMailBox := (sFIFOMailBox r)[0 := m]\<rparr> \<and>
         unat (rf AND CAN_RFR_FMP) = fmp0 r - 1"
    and "0 < fmp1 r \<Longrightarrow> \<exists>rf m. hw_RF1R hw CAN_RFR_RFOM r =
           r\<lparr>RF1R := rf, sFIFOMailBox := (sFIFOMailBox r)[1 := m]\<rparr> \<and>
         unat (rf AND CAN_RFR_FMP) = fmp1 r - 1"
  using assms unfolding bxcan_rx_ok_def by blast+

lemma fmp_pos: "RF0R r AND 3 \<noteq> 0 \<longleftrightarrow> 0 < fmp0 r" "RF1R r AND 3 \<noteq> 0 \<longleftrightarrow> 0 < fmp1 r"
  "RF0R r AND 3 = 0 \<longleftrightarrow> fmp0 r = 0" "RF1R r AND 3 = 0 \<longleftrightarrow> fmp1 r = 0"
  by (simp_all add: fmp0_def fmp1_def unat_gt_0 unat_eq_0)

lemma ier_bits:
  "bit (w OR 2) 1" "bit (w OR 2) 4 = bit w 4" "bit (w OR 16) 4" "bit (w OR 16) 1 = bit w 1"
  "bit (w AND NOT 2) 4 = bit w 4" "bit (w AND NOT 16) 1 = bit w 1" for w :: u32
  by (simp_all add: bit_or_iff bit_and_iff bit_not_iff)

lemma release0_effect:
  assumes "bxcan_rx_ok hw" "length (sFIFOMailBox r) = 2" "0 < fmp0 r"
  obtains rf m where "release0 hw r = r\<lparr>RF0R := rf, sFIFOMailBox := (sFIFOMailBox r)[0 := m],
      IER := (if fmp0 r = 1 then IER r OR 2 else IER r)\<rparr>" "unat (rf AND 3) = fmp0 r - 1"
proof -
  obtain rf m where h: "hw_RF0R hw 32 r = r\<lparr>RF0R := rf, sFIFOMailBox := (sFIFOMailBox r)[0 := m]\<rparr>"
    "unat (rf AND 3) = fmp0 r - 1"
    using bxcan_rx_okD(1) [OF assms] by blast
  have "rf AND 3 = 0 \<longleftrightarrow> fmp0 r = 1" using h(2) assms(3) by (auto simp: unat_eq_0 [symmetric])
  then have "release0 hw r = r\<lparr>RF0R := rf, sFIFOMailBox := (sFIFOMailBox r)[0 := m],
      IER := (if fmp0 r = 1 then IER r OR 2 else IER r)\<rparr>"
    by (simp add: release0_def h(1) Let_def)
  then show ?thesis using h(2) that by blast
qed

lemma release1_effect:
  assumes "bxcan_rx_ok hw" "length (sFIFOMailBox r) = 2" "0 < fmp1 r"
  obtains rf m where "release1 hw r = r\<lparr>RF1R := rf, sFIFOMailBox := (sFIFOMailBox r)[1 := m],
      IER := (if fmp1 r = 1 then IER r OR 16 else IER r)\<rparr>" "unat (rf AND 3) = fmp1 r - 1"
proof -
  obtain rf m where h: "hw_RF1R hw 32 r = r\<lparr>RF1R := rf, sFIFOMailBox := (sFIFOMailBox r)[1 := m]\<rparr>"
    "unat (rf AND 3) = fmp1 r - 1"
    using bxcan_rx_okD(2) [OF assms] by blast
  have "rf AND 3 = 0 \<longleftrightarrow> fmp1 r = 1" using h(2) assms(3) by (auto simp: unat_eq_0 [symmetric])
  then have "release1 hw r = r\<lparr>RF1R := rf, sFIFOMailBox := (sFIFOMailBox r)[1 := m],
      IER := (if fmp1 r = 1 then IER r OR 16 else IER r)\<rparr>"
    by (simp add: release1_def h(1) Let_def)
  then show ?thesis using h(2) that by blast
qed

lemma regs_ok_upd [simp]:
  "regs_ok (r\<lparr>RF0R := a\<rparr>) = regs_ok r" "regs_ok (r\<lparr>RF1R := a\<rparr>) = regs_ok r"
  "regs_ok (r\<lparr>IER := a\<rparr>) = regs_ok r" "regs_ok (r\<lparr>MCR := a\<rparr>) = regs_ok r"
  "regs_ok (r\<lparr>MSR := a\<rparr>) = regs_ok r"
  "length ms = 2 \<Longrightarrow> length (sFIFOMailBox r) = 2 \<Longrightarrow> regs_ok (r\<lparr>sFIFOMailBox := ms\<rparr>) = regs_ok r"
  by (simp_all add: regs_ok_def tme_def code_def)

lemma rx_inv_release0:
  assumes hw: "bxcan_rx_ok hw" and inv: "rx_inv r" and pos: "0 < fmp0 r"
  shows "rx_inv (release0 hw r)" "fmp0 (release0 hw r) = fmp0 r - 1"
    "fmp1 (release0 hw r) = fmp1 r"
proof -
  have len: "length (sFIFOMailBox r) = 2" and ok: "regs_ok r" and live: "rx_live r"
    using inv by (auto simp: rx_inv_def regs_ok_def)
  obtain rf m where e: "release0 hw r = r\<lparr>RF0R := rf, sFIFOMailBox := (sFIFOMailBox r)[0 := m],
      IER := (if fmp0 r = 1 then IER r OR 2 else IER r)\<rparr>" "unat (rf AND 3) = fmp0 r - 1"
    using release0_effect [OF hw len pos] by blast
  show f0: "fmp0 (release0 hw r) = fmp0 r - 1" and f1: "fmp1 (release0 hw r) = fmp1 r"
    using e by (simp_all add: fmp0_def fmp1_def)
  have "regs_ok (release0 hw r)" using ok len by (simp add: e(1))
  moreover have "rx_live (release0 hw r)"
    using live pos unfolding rx_live_def f0 f1 by (simp add: e(1) ier_bits [simplified])
  ultimately show "rx_inv (release0 hw r)" by (simp add: rx_inv_def)
qed

lemma rx_inv_release1:
  assumes hw: "bxcan_rx_ok hw" and inv: "rx_inv r" and pos: "0 < fmp1 r"
  shows "rx_inv (release1 hw r)" "fmp1 (release1 hw r) = fmp1 r - 1"
    "fmp0 (release1 hw r) = fmp0 r"
proof -
  have len: "length (sFIFOMailBox r) = 2" and ok: "regs_ok r" and live: "rx_live r"
    using inv by (auto simp: rx_inv_def regs_ok_def)
  obtain rf m where e: "release1 hw r = r\<lparr>RF1R := rf, sFIFOMailBox := (sFIFOMailBox r)[1 := m],
      IER := (if fmp1 r = 1 then IER r OR 16 else IER r)\<rparr>" "unat (rf AND 3) = fmp1 r - 1"
    using release1_effect [OF hw len pos] by blast
  show f0: "fmp1 (release1 hw r) = fmp1 r - 1" and f1: "fmp0 (release1 hw r) = fmp0 r"
    using e by (simp_all add: fmp0_def fmp1_def)
  have "regs_ok (release1 hw r)" using ok len by (simp add: e(1))
  moreover have "rx_live (release1 hw r)"
    using live pos unfolding rx_live_def f0 f1 by (simp add: e(1) ier_bits [simplified])
  ultimately show "rx_inv (release1 hw r)" by (simp add: rx_inv_def)
qed

lemma can_upd_can [simp]: "can (upd_can f d) = f (can d)"
  by (simp add: upd_can_def)

lemma os_frame [frame_simps]:
  "can (dequeue_tx m d) = can d" "can (dequeue_rx m d) = can d" "can (broadcast e fl d) = can d"
  "can_state (dequeue_tx m d) = can_state d" "can_state (dequeue_rx m d) = can_state d"
  "can_state (broadcast e fl d) = can_state d" "can_state (upd_can f d) = can_state d"
  by (simp_all add: os_defs)

lemma rx_inv_tx_handler:
  assumes "bxcan_ctl_ok hw"
  shows "rx_inv (can (can_lld_tx_handler hw d)) = rx_inv (can d)"
proof -
  obtain t where "hw_TSR hw (TSR (can d)) (can d) = (can d)\<lparr>TSR := t\<rparr>"
    "\<forall>k \<in> {24..28}. bit t k = bit (TSR (can d)) k"
    using assms unfolding bxcan_ctl_ok_def by blast
  then show ?thesis
    by (simp add: can_lld_tx_handler_def Let_def frame_simps)
      (rule rx_inv_cong; simp add: fmp0_def fmp1_def)
qed

lemma bxcan_rx_fovr:
  assumes "bxcan_rx_ok hw"
  shows "\<exists>rf. hw_RF0R hw CAN_RFR_FOVR r = r\<lparr>RF0R := rf\<rparr> \<and> unat (rf AND CAN_RFR_FMP) = fmp0 r"
    and "\<exists>rf. hw_RF1R hw CAN_RFR_FOVR r = r\<lparr>RF1R := rf\<rparr> \<and> unat (rf AND CAN_RFR_FMP) = fmp1 r"
  using assms unfolding bxcan_rx_ok_def by blast+

lemma rx_inv_fovr:
  assumes "bxcan_rx_ok hw"
  shows "rx_inv (hw_RF0R hw CAN_RFR_FOVR r) = rx_inv r" "rx_inv (hw_RF1R hw CAN_RFR_FOVR r) = rx_inv r"
proof -
  show "rx_inv (hw_RF0R hw CAN_RFR_FOVR r) = rx_inv r"
    using bxcan_rx_fovr(1) [OF assms, of r] by (elim exE conjE) (rule rx_inv_cong; simp add: fmp0_def fmp1_def)
  show "rx_inv (hw_RF1R hw CAN_RFR_FOVR r) = rx_inv r"
    using bxcan_rx_fovr(2) [OF assms, of r] by (elim exE conjE) (rule rx_inv_cong; simp add: fmp0_def fmp1_def)
qed

lemma rx_inv_mask:
  "rx_inv r \<Longrightarrow> 0 < fmp0 r \<Longrightarrow> rx_inv (r\<lparr>IER := IER r AND NOT CAN_IER_FMPIE0\<rparr>)"
  "rx_inv r \<Longrightarrow> 0 < fmp1 r \<Longrightarrow> rx_inv (r\<lparr>IER := IER r AND NOT CAN_IER_FMPIE1\<rparr>)"
  unfolding rx_inv_def rx_live_def using ier_bits(5,6) [of "IER r"]
  by (simp_all add: fmp0_def fmp1_def)

lemma rx_inv_rx_handlers:
  assumes "bxcan_rx_ok hw" "rx_inv (can d)"
  shows "rx_inv (can (can_lld_rx0_handler hw d))" "rx_inv (can (can_lld_rx1_handler hw d))"
  using assms
  by (simp_all add: can_lld_rx0_handler_def can_lld_rx1_handler_def Let_def frame_simps fmp_pos
      rx_inv_fovr rx_inv_mask [simplified])

lemma rx_inv_MCR_MSR:
  assumes "bxcan_ctl_ok hw"
  shows "rx_inv (hw_MCR hw v r) = rx_inv r" "rx_inv (hw_MSR hw v r) = rx_inv r"
proof -
  obtain t u where "hw_MCR hw v r = r\<lparr>MCR := v, MSR := t\<rparr>" "hw_MSR hw v r = r\<lparr>MSR := u\<rparr>"
    using assms unfolding bxcan_ctl_ok_def by blast
  then show "rx_inv (hw_MCR hw v r) = rx_inv r" "rx_inv (hw_MSR hw v r) = rx_inv r"
    by (simp_all add: rx_inv_def rx_live_def fmp0_def fmp1_def)
qed

lemma rx_inv_irq:
  assumes "bxcan_rx_ok hw" "bxcan_ctl_ok hw" "rx_inv (can d)"
  shows "rx_inv (can (can_irq_handler hw d))"
proof -
  have "rx_inv (can (can_lld_sce_handler hw d)) = rx_inv (can d)" for d
    by (simp add: can_lld_sce_handler_def Let_def frame_simps rx_inv_MCR_MSR [OF assms(2)])
  then show ?thesis
    using assms(1,3) rx_inv_tx_handler [OF assms(2)]
    by (simp add: can_irq_handler_def rx_inv_rx_handlers)
qed

lemma rx_inv_transmit:
  assumes "bxcan_tx_ok hw" "rx_inv r" "can_lld_is_tx_empty r 0"
  shows "rx_inv (can_lld_transmit hw 0 f r)"
proof -
  have ok: "regs_ok r" and live: "rx_live r" using assms(2) by (auto simp: rx_inv_def)
  define r' where "r' = can_lld_transmit hw 0 f r"
  have "r' = r\<lparr>sTxMailBox := sTxMailBox r', TSR := TSR r'\<rparr>"
    using lld_transmit_any(1) [OF assms(1) ok assms(3)] unfolding queued_def r'_def by blast
  then have "IER r' = IER r" "RF0R r' = RF0R r" "RF1R r' = RF1R r"
    by (metis CAN_TypeDef.select_convs(4-6) CAN_TypeDef.surjective CAN_TypeDef.update_convs(3,9))+
  then have "rx_live r'" using live by (simp add: rx_live_def fmp0_def fmp1_def)
  then show ?thesis
    using lld_transmit_any(2) [OF assms(1) ok assms(3)] by (simp add: rx_inv_def r'_def)
qed

lemma rx_inv_receive:
  assumes "bxcan_rx_ok hw" "rx_inv r" "can_lld_is_rx_nonempty r mailbox"
  shows "rx_inv (snd (can_lld_receive hw mailbox g r))"
  using assms rx_inv_release0 rx_inv_release1
  by (simp add: can_lld_receive_def can_lld_is_rx_nonempty_def fmp_pos split: if_splits)
section \<open>The driver in operation\<close>

text \<open>
  Steps of the running system around the driver: the peripheral stores an arrived frame in a
  FIFO or finishes a transmission, the interrupt handler runs, a thread transmits, receives,
  puts the driver to sleep or wakes it up.
\<close>

inductive can_step :: "bxcan \<Rightarrow> CANDriver \<Rightarrow> CANDriver \<Rightarrow> bool" for hw where
  arrive0: "length ms = 2 \<Longrightarrow> fmp0 (can d) \<le> unat (rf AND CAN_RFR_FMP) \<Longrightarrow>
    can_step hw d (upd_can (\<lambda>r. r\<lparr>RF0R := rf, sFIFOMailBox := ms\<rparr>) d)"
| arrive1: "length ms = 2 \<Longrightarrow> fmp1 (can d) \<le> unat (rf AND CAN_RFR_FMP) \<Longrightarrow>
    can_step hw d (upd_can (\<lambda>r. r\<lparr>RF1R := rf, sFIFOMailBox := ms\<rparr>) d)"
| sent: "regs_ok ((can d)\<lparr>TSR := t\<rparr>) \<Longrightarrow> can_step hw d (upd_can (\<lambda>r. r\<lparr>TSR := t\<rparr>) d)"
| irq: "can_step hw d (can_irq_handler hw d)"
| transmit: "canTryTransmitI hw CAN_ANY_MAILBOX f d = (b, d') \<Longrightarrow> can_step hw d d'"
| receive: "canTryReceiveI hw mailbox g d = (b, g', d') \<Longrightarrow> can_step hw d d'"
| sleep: "can_step hw d (canSleep hw d)"
| wakeup: "can_step hw d (canWakeup hw d)"

inductive can_reach :: "bxcan \<Rightarrow> CANDriver \<Rightarrow> bool" for hw where
  started: "canStart hw cfg d0 = Some d \<Longrightarrow> regs_ok (can d) \<Longrightarrow> can_reach hw d"
| step: "can_reach hw d \<Longrightarrow> can_step hw d d' \<Longrightarrow> can_reach hw d'"

lemma canStart_result:
  assumes "canStart hw cfg d0 = Some d"
  shows "can_state d = CAN_READY" "bit (IER (can d)) 1" "bit (IER (can d)) 4"
    "can_config d = Some cfg" "nvic_enabled d"
  using assms by (auto simp: canStart_def can_lld_start_def Let_def bind_eq_Some_conv)

lemma irq_state:
  "can_state (can_irq_handler hw d) = (if MSR (can (can_lld_rx1_handler hw (can_lld_rx0_handler hw
     (can_lld_tx_handler hw d)))) AND CAN_MSR_WKUI \<noteq> 0 then CAN_READY else can_state d)"
proof -
  have "can_state (can_lld_tx_handler hw d) = can_state d" "can_state (can_lld_rx0_handler hw d) = can_state d"
    "can_state (can_lld_rx1_handler hw d) = can_state d" for d
    by (simp_all add: can_lld_tx_handler_def can_lld_rx0_handler_def can_lld_rx1_handler_def Let_def
        frame_simps)
  then show ?thesis
    by (simp add: can_irq_handler_def can_lld_sce_handler_def [of hw "can_lld_rx1_handler hw _"] Let_def frame_simps)
qed

lemma can_step_state:
  assumes "can_step hw d d'" "can_state d \<in> {CAN_READY, CAN_SLEEP}"
  shows "can_state d' \<in> {CAN_READY, CAN_SLEEP}"
  using assms(1)
proof (cases rule: can_step.cases)
  case irq
  then show ?thesis using assms(2) by (simp add: irq_state)
next
  case (transmit f b)
  then show ?thesis using assms(2)
    by (auto simp: canTryTransmitI_def frame_simps split: if_splits)
next
  case (receive mailbox g b g')
  then show ?thesis using assms(2)
    by (auto simp: canTryReceiveI_def split: if_splits prod.splits)
qed (use assms(2) in \<open>auto simp: frame_simps canSleep_def canWakeup_def\<close>)

lemma can_step_rx_inv:
  assumes "bxcan_tx_ok hw" "bxcan_rx_ok hw" "bxcan_ctl_ok hw" "can_step hw d d'" "rx_inv (can d)"
  shows "rx_inv (can d')"
  using assms(4)
proof (cases rule: can_step.cases)
  case (arrive0 ms rf)
  then show ?thesis using assms(5)
    by (auto simp: rx_inv_def rx_live_def fmp0_def fmp1_def regs_ok_def tme_def code_def)
next
  case (arrive1 ms rf)
  then show ?thesis using assms(5)
    by (auto simp: rx_inv_def rx_live_def fmp0_def fmp1_def regs_ok_def tme_def code_def)
next
  case (sent t)
  then show ?thesis using assms(5)
    by (simp add: rx_inv_def rx_live_def fmp0_def fmp1_def)
next
  case irq
  then show ?thesis using rx_inv_irq [OF assms(2,3,5)] by simp
next
  case (transmit f b)
  then show ?thesis using rx_inv_transmit [OF assms(1,5)] assms(5)
    by (auto simp: canTryTransmitI_def split: if_splits)
next
  case (receive mailbox g b g')
  then show ?thesis using rx_inv_receive [OF assms(2,5), of mailbox g] assms(5)
    by (auto simp: canTryReceiveI_def split: if_splits prod.splits)
next
  case sleep
  then show ?thesis using assms(5)
    by (simp add: canSleep_def can_lld_sleep_def frame_simps rx_inv_MCR_MSR [OF assms(3)])
next
  case wakeup
  then show ?thesis using assms(5)
    by (simp add: canWakeup_def can_lld_wakeup_def frame_simps rx_inv_MCR_MSR [OF assms(3)])
qed

text \<open>
  C15: no received frame is left unannounced.  In every state the started driver reaches,
  through any interleaving of arrivals, completed transmissions, interrupts and API calls, the
  message-pending interrupt of each FIFO is enabled unless that FIFO holds a frame; the register
  file keeps naming a free transmit mailbox; and the driver is ready or asleep.
\<close>

theorem rx_interrupt_armed:
  assumes "bxcan_tx_ok hw" "bxcan_rx_ok hw" "bxcan_ctl_ok hw" "can_reach hw d"
  shows "(fmp0 (can d) = 0 \<longrightarrow> bit (IER (can d)) 1) \<and> (fmp1 (can d) = 0 \<longrightarrow> bit (IER (can d)) 4) \<and>
    regs_ok (can d) \<and> can_state d \<in> {CAN_READY, CAN_SLEEP}"
proof -
  have "rx_inv (can d) \<and> can_state d \<in> {CAN_READY, CAN_SLEEP}"
    using assms(4)
  proof induction
    case (started cfg d0 d)
    then show ?case using canStart_result [OF started(1)] by (simp add: rx_inv_def rx_live_def)
  next
    case (step d d')
    then show ?case using can_step_rx_inv [OF assms(1-3)] can_step_state by blast
  qed
  then show ?thesis by (auto simp: rx_inv_def rx_live_def)
qed

text \<open>A start, an arrival and the interrupt that announces it.\<close>

theorem rx_interrupt_armed_witness:
  "\<exists>d. can_reach sample_can d \<and> fmp0 (can d) = 1 \<and> \<not> bit (IER (can d)) 1 \<and> bit (IER (can d)) 4"
proof -
  let ?cfg = "\<lparr>cfg_mcr = 0x74, cfg_btr = 0x12B0005\<rparr>"
  obtain d where d: "canStart sample_can ?cfg sample_driver = Some d" "regs_ok (can d)"
      "RF0R (can d) = 0" "RF1R (can d) = 0"
    by (simp add: canStart_def can_lld_start_def wait_inak.simps sample_can_def sample_driver_def
        sample_regs_def Let_def regs_ok_def tme_def code_def)
  let ?d1 = "upd_can (\<lambda>r. r\<lparr>RF0R := 1, sFIFOMailBox := sFIFOMailBox r\<rparr>) d"
  have "can_step sample_can d ?d1"
    using can_step.arrive0 [of "sFIFOMailBox (can d)" d 1 sample_can] d(2,3)
    by (simp add: regs_ok_def fmp0_def upd_can_def)
  then have r: "can_reach sample_can (can_irq_handler sample_can ?d1)"
    using can_reach.started [OF d(1,2)] can_reach.step can_step.irq by blast
  have f: "fmp0 (can (can_irq_handler sample_can ?d1)) = 1" "fmp1 (can (can_irq_handler sample_can ?d1)) = 0"
    "\<not> bit (IER (can (can_irq_handler sample_can ?d1))) 1"
    using d(4) by (simp_all add: can_irq_handler_def can_lld_sce_handler_def can_lld_rx1_handler_def
      can_lld_rx0_handler_def can_lld_tx_handler_def sample_can_def Let_def frame_simps fmp0_def fmp1_def
      bit_and_iff)
  show ?thesis
    using rx_interrupt_armed [OF sample_can_tx_ok sample_can_rx_ok sample_can_ctl_ok r] r f by blast
qed

end
