(* ===== verification/Pal.thy ===== *)
theory Pal
  imports Prelude
begin

text \<open>
  The I/O port driver, \<^verbatim>\<open>os/hal/ports/STM32/LLD/GPIOv2/pal_lld.[ch]\<close> and the macros of
  \<^verbatim>\<open>os/hal/include/pal.h\<close> the firmware uses.  A port is the record of its registers; \<open>IDR\<close> is
  what the pins show, \<open>BSRR\<close> keeps the last value written to the bit set/reset register.
\<close>

record stm32_gpio_t =
  MODER :: u32
  OTYPER :: u32
  OSPEEDR :: u32
  PUPDR :: u32
  IDR :: u32
  ODR :: u32
  BSRR_set :: u16
  BSRR_clear :: u16
  LCKR :: u32
  AFRL :: u32
  AFRH :: u32

record stm32_gpio_setup_t =
  su_moder :: u32
  su_otyper :: u32
  su_ospeedr :: u32
  su_pupdr :: u32
  su_odr :: u32
  su_afrl :: u32
  su_afrh :: u32

text \<open>The ports an STM32F042 has.\<close>

datatype ioportid_t = GPIOA | GPIOB | GPIOC | GPIOF

type_synonym ports = "ioportid_t \<Rightarrow> stm32_gpio_t"

abbreviation (input) PAL_STM32_MODE_INPUT :: u32 where "PAL_STM32_MODE_INPUT \<equiv> 0"
abbreviation (input) PAL_STM32_MODE_OUTPUT :: u32 where "PAL_STM32_MODE_OUTPUT \<equiv> 1"
abbreviation (input) PAL_STM32_MODE_ALTERNATE :: u32 where "PAL_STM32_MODE_ALTERNATE \<equiv> 2"
abbreviation (input) PAL_MODE_INPUT_ANALOG :: u32 where "PAL_MODE_INPUT_ANALOG \<equiv> 3"
abbreviation (input) PAL_STM32_OTYPE_PUSHPULL :: u32 where "PAL_STM32_OTYPE_PUSHPULL \<equiv> 0"
abbreviation (input) PAL_STM32_OSPEED_HIGHEST :: u32 where "PAL_STM32_OSPEED_HIGHEST \<equiv> 0x18"
abbreviation (input) PAL_STM32_PUPDR_PULLUP :: u32 where "PAL_STM32_PUPDR_PULLUP \<equiv> 0x20"
abbreviation (input) PAL_HIGH :: u32 where "PAL_HIGH \<equiv> 1"

definition PAL_STM32_ALTERNATE :: "u32 \<Rightarrow> u32" where "PAL_STM32_ALTERNATE n = push_bit 7 n"
definition PAL_PORT_BIT :: "nat \<Rightarrow> u32" where "PAL_PORT_BIT n = push_bit n 1"

section \<open>Operations\<close>

definition initgpio :: "stm32_gpio_setup_t \<Rightarrow> stm32_gpio_t \<Rightarrow> stm32_gpio_t" where
  "initgpio config gp = gp\<lparr>OTYPER := su_otyper config, OSPEEDR := su_ospeedr config,
     PUPDR := su_pupdr config, ODR := su_odr config, AFRL := su_afrl config,
     AFRH := su_afrh config, MODER := su_moder config\<rparr>"

text \<open>The port clocks are enabled for the same set of ports (the second component).\<close>

definition pal_lld_init :: "(ioportid_t \<Rightarrow> stm32_gpio_setup_t) \<Rightarrow> ports \<Rightarrow> ports \<times> ioportid_t set" where
  "pal_lld_init config ps = (\<lambda>p. initgpio (config p) (ps p), {GPIOA, GPIOB, GPIOC, GPIOF})"

text \<open>One pass of the loop body of \<^verbatim>\<open>_pal_lld_setgroupmode\<close> for a pad in the mask.\<close>

definition set_afr :: "u32 \<Rightarrow> u32 \<Rightarrow> nat \<Rightarrow> stm32_gpio_t \<Rightarrow> stm32_gpio_t" where
  "set_afr m4 altrmask bt gp =
     (if bt < 8 then gp\<lparr>AFRL := (AFRL gp AND NOT m4) OR altrmask\<rparr>
      else gp\<lparr>AFRH := (AFRH gp AND NOT m4) OR altrmask\<rparr>)"

definition set_pad :: "u32 \<Rightarrow> u32 \<Rightarrow> u32 \<Rightarrow> u32 \<Rightarrow> u32 \<Rightarrow> u32 \<Rightarrow> nat \<Rightarrow> stm32_gpio_t \<Rightarrow> stm32_gpio_t" where
  "set_pad mode altr otyper ospeedr pupdr moder bt gp =
     (let altrmask = push_bit (bt mod 8 * 4) altr;
          m1 = push_bit bt 1; m2 = push_bit (bt * 2) 3; m4 = push_bit (bt mod 8 * 4) 15;
          gp = gp\<lparr>OTYPER := (OTYPER gp AND NOT m1) OR otyper,
                  OSPEEDR := (OSPEEDR gp AND NOT m2) OR ospeedr,
                  PUPDR := (PUPDR gp AND NOT m2) OR pupdr\<rparr>
      in if mode AND 3 = PAL_STM32_MODE_ALTERNATE
         then let gp = set_afr m4 altrmask bt gp
              in gp\<lparr>MODER := (MODER gp AND NOT m2) OR moder\<rparr>
         else set_afr m4 altrmask bt (gp\<lparr>MODER := (MODER gp AND NOT m2) OR moder\<rparr>))"

function setgroupmode_loop :: "u32 \<Rightarrow> u32 \<Rightarrow> u32 \<Rightarrow> u32 \<Rightarrow> u32 \<Rightarrow> u32 \<Rightarrow> u32 \<Rightarrow> nat \<Rightarrow> stm32_gpio_t \<Rightarrow> stm32_gpio_t"
  where
  "setgroupmode_loop mode altr msk otyper ospeedr pupdr moder bt gp =
     (let gp = (if msk AND 1 \<noteq> 0 then set_pad mode altr otyper ospeedr pupdr moder bt gp else gp);
          msk' = drop_bit 1 msk
      in if msk' = 0 then gp
         else setgroupmode_loop mode altr msk' (push_bit 1 otyper) (push_bit 2 ospeedr)
                (push_bit 2 pupdr) (push_bit 2 moder) (bt + 1) gp)"
  by pat_completeness auto
termination
proof (relation "measure (\<lambda>(_, _, msk, _). unat msk)", goal_cases)
  case (2 mode altr msk otyper ospeedr pupdr moder bt gp x msk')
  have "unat (drop_bit 1 msk) = unat msk div 2"
    by (simp add: unat_drop_bit_eq drop_bit_Suc)
  moreover have "0 < unat (drop_bit 1 msk)" using 2 by (simp add: unat_gt_0)
  ultimately show ?case using 2 by simp
qed simp

declare setgroupmode_loop.simps [simp del]

definition pal_lld_setgroupmode :: "u32 \<Rightarrow> u32 \<Rightarrow> stm32_gpio_t \<Rightarrow> stm32_gpio_t" where
  "pal_lld_setgroupmode msk mode gp =
     setgroupmode_loop mode (drop_bit 7 (mode AND 0x780)) msk (drop_bit 2 (mode AND 0x4))
       (drop_bit 3 (mode AND 0x18)) (drop_bit 5 (mode AND 0x60)) (mode AND 0x3) 0 gp"

definition palSetGroupMode :: "ioportid_t \<Rightarrow> u32 \<Rightarrow> nat \<Rightarrow> u32 \<Rightarrow> ports \<Rightarrow> ports" where
  "palSetGroupMode port msk offset mode ps =
     ps(port := pal_lld_setgroupmode (push_bit offset msk) mode (ps port))"

definition palSetPadMode :: "ioportid_t \<Rightarrow> nat \<Rightarrow> u32 \<Rightarrow> ports \<Rightarrow> ports" where
  "palSetPadMode port pad mode ps = palSetGroupMode port (PAL_PORT_BIT pad) 0 mode ps"

definition palReadPad :: "ioportid_t \<Rightarrow> nat \<Rightarrow> ports \<Rightarrow> u32" where
  "palReadPad port pad ps = drop_bit pad (IDR (ps port)) AND 1"

definition palClearPad :: "ioportid_t \<Rightarrow> nat \<Rightarrow> ports \<Rightarrow> ports" where
  "palClearPad port pad ps = ps(port := (ps port)\<lparr>BSRR_clear := ucast (PAL_PORT_BIT pad)\<rparr>)"

definition palReadGroup :: "ioportid_t \<Rightarrow> u32 \<Rightarrow> nat \<Rightarrow> ports \<Rightarrow> u32" where
  "palReadGroup port msk offset ps = drop_bit offset (IDR (ps port)) AND msk"

definition palWriteGroup :: "ioportid_t \<Rightarrow> u32 \<Rightarrow> nat \<Rightarrow> u32 \<Rightarrow> ports \<Rightarrow> ports" where
  "palWriteGroup port msk offset bits ps =
     (let w = push_bit (16 + offset) (NOT bits AND msk) OR push_bit offset (bits AND msk)
      in ps(port := (ps port)\<lparr>BSRR_set := ucast w, BSRR_clear := ucast (drop_bit 16 w)\<rparr>))"

record IOBus =
  bus_portid :: ioportid_t
  bus_mask :: u32
  bus_offset :: nat

definition palReadBus :: "IOBus \<Rightarrow> ports \<Rightarrow> u32" where
  "palReadBus bus ps = palReadGroup (bus_portid bus) (bus_mask bus) (bus_offset bus) ps"

definition palWriteBus :: "IOBus \<Rightarrow> u32 \<Rightarrow> ports \<Rightarrow> ports" where
  "palWriteBus bus bits ps = palWriteGroup (bus_portid bus) (bus_mask bus) (bus_offset bus) bits ps"

definition palSetBusMode :: "IOBus \<Rightarrow> u32 \<Rightarrow> ports \<Rightarrow> ports" where
  "palSetBusMode bus mode ps = palSetGroupMode (bus_portid bus) (bus_mask bus) (bus_offset bus) mode ps"

section \<open>What programming a group of pads does\<close>

text \<open>The mode the registers give to pad \<open>p\<close>, in the encoding the API takes.\<close>

definition pad_mode :: "nat \<Rightarrow> stm32_gpio_t \<Rightarrow> u32" where
  "pad_mode p gp =
     field 2 p (MODER gp) OR push_bit 2 (field 1 p (OTYPER gp)) OR push_bit 3 (field 2 p (OSPEEDR gp))
     OR push_bit 5 (field 2 p (PUPDR gp))
     OR push_bit 7 (field 4 (p mod 8) (if p < 8 then AFRL gp else AFRH gp))"

lemma take_bit_split: "take_bit (a + b) w = take_bit a w OR push_bit a (take_bit b (drop_bit a w))" for w :: u32
  by (rule bit_word_eqI) (auto simp: bit_simps)

lemma mode_fields:
  "take_bit 11 mode = take_bit 2 mode OR push_bit 2 (take_bit 1 (drop_bit 2 mode))
     OR push_bit 3 (take_bit 2 (drop_bit 3 mode)) OR push_bit 5 (take_bit 2 (drop_bit 5 mode))
     OR push_bit 7 (take_bit 4 (drop_bit 7 mode))" for mode :: u32
proof -
  have split: "take_bit 11 mode = take_bit (((2 + 1) + 2 + 2) + 4) mode" by simp
  show ?thesis unfolding split take_bit_split by (simp add: or.assoc del: One_nat_def)
qed

lemma mode_masks:
  "mode AND 3 = take_bit 2 mode" "drop_bit 2 (mode AND 4) = take_bit 1 (drop_bit 2 mode)"
  "drop_bit 3 (mode AND 0x18) = take_bit 2 (drop_bit 3 mode)"
  "drop_bit 5 (mode AND 0x60) = take_bit 2 (drop_bit 5 mode)"
  "drop_bit 7 (mode AND 0x780) = take_bit 4 (drop_bit 7 mode)" for mode :: u32
proof -
  have m: "(3 :: u32) = mask 2" "(4 :: u32) = push_bit 2 (mask 1)" "(0x18 :: u32) = push_bit 3 (mask 2)"
    "(0x60 :: u32) = push_bit 5 (mask 2)" "(0x780 :: u32) = push_bit 7 (mask 4)"
    by (simp_all add: mask_eq_exp_minus_1)
  show "mode AND 3 = take_bit 2 mode" unfolding m by (simp add: take_bit_eq_mask)
  show "drop_bit 2 (mode AND 4) = take_bit 1 (drop_bit 2 mode)" unfolding m by (rule drop_field) simp
  show "drop_bit 3 (mode AND 0x18) = take_bit 2 (drop_bit 3 mode)" unfolding m by (rule drop_field) simp
  show "drop_bit 5 (mode AND 0x60) = take_bit 2 (drop_bit 5 mode)" unfolding m by (rule drop_field) simp
  show "drop_bit 7 (mode AND 0x780) = take_bit 4 (drop_bit 7 mode)" unfolding m by (rule drop_field) simp
qed

text \<open>The loop body, as field updates.\<close>

lemma set_pad_fields:
  "set_pad mode (take_bit 4 a) (push_bit bt (take_bit 1 ot)) (push_bit (2 * bt) (take_bit 2 os))
     (push_bit (2 * bt) (take_bit 2 pu)) (push_bit (2 * bt) (take_bit 2 mo)) bt gp
   = gp\<lparr>OTYPER := set_field 1 bt ot (OTYPER gp), OSPEEDR := set_field 2 bt os (OSPEEDR gp),
        PUPDR := set_field 2 bt pu (PUPDR gp), MODER := set_field 2 bt mo (MODER gp),
        AFRL := (if bt < 8 then set_field 4 (bt mod 8) a (AFRL gp) else AFRL gp),
        AFRH := (if bt < 8 then AFRH gp else set_field 4 (bt mod 8) a (AFRH gp))\<rparr>"
proof -
  have m: "push_bit i (1 :: u32) = push_bit (1 * i) (mask 1)" "push_bit (i * 2) (3 :: u32) = push_bit (2 * i) (mask 2)"
    "push_bit (i * 4) (15 :: u32) = push_bit (4 * i) (mask 4)" for i
    by (simp_all add: mask_eq_exp_minus_1 mult.commute)
  show ?thesis
    unfolding set_pad_def Let_def set_afr_def m set_field_def
    by (auto simp: mult.commute)
qed

lemma pad_mode_set_pad:
  assumes "bt < 16" "p < 16"
  shows "pad_mode p (set_pad mode (take_bit 4 (drop_bit 7 mode)) (push_bit bt (take_bit 1 (drop_bit 2 mode)))
      (push_bit (2 * bt) (take_bit 2 (drop_bit 3 mode))) (push_bit (2 * bt) (take_bit 2 (drop_bit 5 mode)))
      (push_bit (2 * bt) (take_bit 2 mode)) bt gp)
    = (if p = bt then take_bit 11 mode else pad_mode p gp)"
proof -
  have b: "1 * (bt + 1) \<le> LENGTH(32)" "2 * (bt + 1) \<le> LENGTH(32)" "4 * (bt mod 8 + 1) \<le> LENGTH(32)"
    using assms by simp_all
  note f = field_set_field [OF b(1)] field_set_field [OF b(2)] field_set_field [OF b(3)]
  show ?thesis
  proof (cases "p = bt")
    case True
    then show ?thesis unfolding set_pad_fields pad_mode_def mode_fields [of mode]
      by (simp add: f del: One_nat_def mod_less)
  next
    case False
    then have "p mod 8 \<noteq> bt mod 8" if "(p < 8) = (bt < 8)"
      using that assms by (auto simp: mod_if)
    then show ?thesis using False unfolding set_pad_fields pad_mode_def
      by (cases "(p < 8) = (bt < 8)") (auto simp: f simp del: One_nat_def mod_less)
  qed
qed

lemma setgroupmode_loop_pads:
  assumes "bt + length_msk \<le> 16" "0 < length_msk" "take_bit length_msk msk = msk" "p < 16"
  shows "pad_mode p (setgroupmode_loop mode (take_bit 4 (drop_bit 7 mode)) msk
      (push_bit bt (take_bit 1 (drop_bit 2 mode))) (push_bit (2 * bt) (take_bit 2 (drop_bit 3 mode)))
      (push_bit (2 * bt) (take_bit 2 (drop_bit 5 mode))) (push_bit (2 * bt) (take_bit 2 mode)) bt gp)
    = (if bt \<le> p \<and> bit msk (p - bt) then take_bit 11 mode else pad_mode p gp)"
  using assms(1-3)
proof (induction length_msk arbitrary: bt msk gp)
  case (Suc k)
  let ?gp = "if msk AND 1 \<noteq> 0 then set_pad mode (take_bit 4 (drop_bit 7 mode))
      (push_bit bt (take_bit 1 (drop_bit 2 mode))) (push_bit (2 * bt) (take_bit 2 (drop_bit 3 mode)))
      (push_bit (2 * bt) (take_bit 2 (drop_bit 5 mode))) (push_bit (2 * bt) (take_bit 2 mode)) bt gp else gp"
  let ?msk = "drop_bit 1 msk"
  have low: "msk AND 1 \<noteq> 0 \<longleftrightarrow> bit msk 0"
    by (simp add: and_one_eq bit_0 mod_2_eq_odd)
  have first: "pad_mode p ?gp = (if p = bt \<and> bit msk 0 then take_bit 11 mode else pad_mode p gp)"
    unfolding low using pad_mode_set_pad [of bt p mode gp] Suc.prems(1) assms(4)
    by (auto simp del: One_nat_def bit_0)
  have sh: "push_bit 1 (push_bit bt w) = push_bit (bt + 1) w"
    "push_bit 2 (push_bit (2 * bt) w) = push_bit (2 * (bt + 1)) w" for w :: u32
    by (simp_all add: push_bit_push_bit add.commute del: push_bit_Suc)
  have bits: "bit msk (p - bt) = (if p = bt then bit msk 0 else bit ?msk (p - (bt + 1)))" if "bt \<le> p"
    using that by (auto simp: bit_drop_bit_eq Suc_diff_Suc simp del: bit_0)
  show ?case
  proof (cases "?msk = 0")
    case True
    then have "(bt \<le> p \<and> bit msk (p - bt)) = (p = bt \<and> bit msk 0)"
      using bits by (auto simp del: bit_0 split: if_splits)
    then show ?thesis
      using True first by (subst setgroupmode_loop.simps) (simp add: Let_def del: bit_0)
  next
    case False
    have k: "take_bit k ?msk = ?msk"
      using Suc.prems(3) by (metis One_nat_def drop_bit_take_bit diff_Suc_1)
    have "0 < k" using k False by (cases k) auto
    then have "pad_mode p (setgroupmode_loop mode (take_bit 4 (drop_bit 7 mode)) ?msk
        (push_bit (bt + 1) (take_bit 1 (drop_bit 2 mode))) (push_bit (2 * (bt + 1)) (take_bit 2 (drop_bit 3 mode)))
        (push_bit (2 * (bt + 1)) (take_bit 2 (drop_bit 5 mode))) (push_bit (2 * (bt + 1)) (take_bit 2 mode)) (bt + 1) ?gp)
      = (if bt + 1 \<le> p \<and> bit ?msk (p - (bt + 1)) then take_bit 11 mode else pad_mode p ?gp)"
      using Suc.IH [of "bt + 1" ?msk ?gp] Suc.prems(1) k by simp
    then have "pad_mode p (setgroupmode_loop mode (take_bit 4 (drop_bit 7 mode)) msk
        (push_bit bt (take_bit 1 (drop_bit 2 mode))) (push_bit (2 * bt) (take_bit 2 (drop_bit 3 mode)))
        (push_bit (2 * bt) (take_bit 2 (drop_bit 5 mode))) (push_bit (2 * bt) (take_bit 2 mode)) bt gp)
      = (if bt + 1 \<le> p \<and> bit ?msk (p - (bt + 1)) then take_bit 11 mode else pad_mode p ?gp)"
      by (subst setgroupmode_loop.simps) (simp only: Let_def sh False if_False)
    then show ?thesis
      unfolding first using bits by (cases "bt \<le> p"; cases "p = bt") (simp_all del: bit_0)
  qed
qed simp

text \<open>
  \<open>pal_lld_setgroupmode\<close> gives every pad of the mask exactly the requested mode (direction,
  output type, speed, pull and alternate function) and leaves the configuration of every other
  pad of the port as it was.
\<close>

lemma setgroupmode_pads:
  assumes "unat msk < 2 ^ 16" "p < 16"
  shows "pad_mode p (pal_lld_setgroupmode msk mode gp) =
    (if bit msk p then take_bit 11 mode else pad_mode p gp)"
proof -
  have "take_bit 16 msk = msk"
    using assms(1)
    by (simp add: take_bit_eq_self_iff_drop_bit_eq_0 unat_eq_0 [symmetric] unat_drop_bit_eq drop_bit_eq_div)
  then show ?thesis
    using setgroupmode_loop_pads [of 0 16 msk p mode gp] assms(2)
    unfolding pal_lld_setgroupmode_def mode_masks by (simp del: One_nat_def)
qed

text \<open>The CAN receive pin, PA11, in alternate function 4.\<close>

end
