(* ===== verification/Dma.thy ===== *)
theory Dma
  imports Prelude
begin

text \<open>
  The DMA stream allocator and interrupt dispatcher,
  \<^verbatim>\<open>os/hal/ports/STM32/LLD/DMAv1/stm32_dma.[ch]\<close>, with the stream table of the STM32F042: five
  channels, channels 2 and 3 and channels 4 and 5 share an interrupt vector.  Handlers are
  identified by a number; what a handler does is up to the driver that installed it.
\<close>

record dma_channel =
  CCR :: u32
  CNDTR :: u32
  CPAR :: nat
  CMAR :: nat

record dma_state =
  dma_streams_mask :: u32
  channels :: "dma_channel list"
  isr_redir :: "nat option list"
  dma_ISR :: u32
  dma_IFCR :: u32
  dma_clock :: bool
  dma_vectors :: "nat set"

abbreviation (input) STM32_DMA_STREAMS :: nat where "STM32_DMA_STREAMS \<equiv> 5"
abbreviation (input) STM32_DMA_CR_EN :: u32 where "STM32_DMA_CR_EN \<equiv> 0x1"
abbreviation (input) STM32_DMA_CR_TCIE :: u32 where "STM32_DMA_CR_TCIE \<equiv> 0x2"
abbreviation (input) STM32_DMA_CR_HTIE :: u32 where "STM32_DMA_CR_HTIE \<equiv> 0x4"
abbreviation (input) STM32_DMA_CR_TEIE :: u32 where "STM32_DMA_CR_TEIE \<equiv> 0x8"
abbreviation (input) STM32_DMA_CR_CIRC :: u32 where "STM32_DMA_CR_CIRC \<equiv> 0x20"
abbreviation (input) STM32_DMA_CR_MINC :: u32 where "STM32_DMA_CR_MINC \<equiv> 0x80"
abbreviation (input) STM32_DMA_CR_PSIZE_HWORD :: u32 where "STM32_DMA_CR_PSIZE_HWORD \<equiv> 0x100"
abbreviation (input) STM32_DMA_CR_MSIZE_HWORD :: u32 where "STM32_DMA_CR_MSIZE_HWORD \<equiv> 0x400"
abbreviation (input) STM32_DMA_ISR_TCIF :: u32 where "STM32_DMA_ISR_TCIF \<equiv> 0x2"
abbreviation (input) STM32_DMA_ISR_HTIF :: u32 where "STM32_DMA_ISR_HTIF \<equiv> 0x4"
abbreviation (input) STM32_DMA_ISR_TEIF :: u32 where "STM32_DMA_ISR_TEIF \<equiv> 0x8"
abbreviation (input) STM32_DMA_ISR_MASK :: u32 where "STM32_DMA_ISR_MASK \<equiv> 0x0E"

text \<open>The stream table: flag shift, vector number and the mask of the streams on that vector.\<close>

definition dma_shift :: "nat \<Rightarrow> nat" where "dma_shift i = 4 * i"

definition dma_vector :: "nat \<Rightarrow> nat" where
  "dma_vector i = (if i = 0 then 9 else if i < 3 then 10 else 11)"

definition dma_cmask :: "nat \<Rightarrow> u32" where
  "dma_cmask i = (if i = 0 then 0x01 else if i < 3 then 0x06 else 0x78)"

section \<open>Operations\<close>

definition upd_channel :: "nat \<Rightarrow> (dma_channel \<Rightarrow> dma_channel) \<Rightarrow> dma_state \<Rightarrow> dma_state" where
  "upd_channel i f s = s\<lparr>channels := (channels s)[i := f (channels s ! i)]\<rparr>"

definition dmaStreamSetPeripheral :: "nat \<Rightarrow> nat \<Rightarrow> dma_state \<Rightarrow> dma_state" where
  "dmaStreamSetPeripheral i addr = upd_channel i (\<lambda>c. c\<lparr>CPAR := addr\<rparr>)"

definition dmaStreamSetMemory0 :: "nat \<Rightarrow> nat \<Rightarrow> dma_state \<Rightarrow> dma_state" where
  "dmaStreamSetMemory0 i addr = upd_channel i (\<lambda>c. c\<lparr>CMAR := addr\<rparr>)"

definition dmaStreamSetTransactionSize :: "nat \<Rightarrow> u32 \<Rightarrow> dma_state \<Rightarrow> dma_state" where
  "dmaStreamSetTransactionSize i n = upd_channel i (\<lambda>c. c\<lparr>CNDTR := n\<rparr>)"

definition dmaStreamGetTransactionSize :: "nat \<Rightarrow> dma_state \<Rightarrow> u32" where
  "dmaStreamGetTransactionSize i s = CNDTR (channels s ! i)"

definition dmaStreamSetMode :: "nat \<Rightarrow> u32 \<Rightarrow> dma_state \<Rightarrow> dma_state" where
  "dmaStreamSetMode i mode = upd_channel i (\<lambda>c. c\<lparr>CCR := mode\<rparr>)"

definition dmaStreamEnable :: "nat \<Rightarrow> dma_state \<Rightarrow> dma_state" where
  "dmaStreamEnable i = upd_channel i (\<lambda>c. c\<lparr>CCR := CCR c OR STM32_DMA_CR_EN\<rparr>)"

definition dmaStreamClearInterrupt :: "nat \<Rightarrow> dma_state \<Rightarrow> dma_state" where
  "dmaStreamClearInterrupt i s = s\<lparr>dma_IFCR := push_bit (dma_shift i) STM32_DMA_ISR_MASK\<rparr>"

definition dmaStreamDisable :: "nat \<Rightarrow> dma_state \<Rightarrow> dma_state" where
  "dmaStreamDisable i s =
     dmaStreamClearInterrupt i
       (upd_channel i (\<lambda>c. c\<lparr>CCR := CCR c AND NOT (STM32_DMA_CR_TCIE OR STM32_DMA_CR_HTIE
          OR STM32_DMA_CR_TEIE OR STM32_DMA_CR_EN)\<rparr>) s)"

definition dmaInit :: "dma_state \<Rightarrow> dma_state" where
  "dmaInit s = s\<lparr>dma_streams_mask := 0, channels := map (\<lambda>c. c\<lparr>CCR := 0\<rparr>) (channels s),
     isr_redir := replicate STM32_DMA_STREAMS None, dma_IFCR := - 1\<rparr>"

text \<open>The boolean result is the code's: true when the stream is already taken.\<close>

definition dmaStreamAllocate :: "nat \<Rightarrow> nat option \<Rightarrow> dma_state \<Rightarrow> bool \<times> dma_state" where
  "dmaStreamAllocate i func s =
     (if dma_streams_mask s AND push_bit i 1 \<noteq> 0 then (True, s)
      else
        let m = dma_streams_mask s;
            s = s\<lparr>isr_redir := (isr_redir s)[i := func]\<rparr>;
            s = (if m AND 0x1F = 0 then s\<lparr>dma_clock := True\<rparr> else s);
            s = dmaStreamSetMode i 0 (dmaStreamDisable i s);
            s = (if m AND dma_cmask i = 0 \<and> func \<noteq> None
                 then s\<lparr>dma_vectors := insert (dma_vector i) (dma_vectors s)\<rparr> else s)
        in (False, s\<lparr>dma_streams_mask := m OR push_bit i 1\<rparr>))"

definition dmaStreamRelease :: "nat \<Rightarrow> dma_state \<Rightarrow> dma_state" where
  "dmaStreamRelease i s =
     (let m = dma_streams_mask s AND NOT (push_bit i 1);
          s = s\<lparr>dma_streams_mask := m\<rparr>;
          s = (if m AND dma_cmask i = 0 then s\<lparr>dma_vectors := dma_vectors s - {dma_vector i}\<rparr> else s);
          s = s\<lparr>isr_redir := (isr_redir s)[i := None]\<rparr>
      in if m AND 0x1F = 0 then s\<lparr>dma_clock := False\<rparr> else s)"

text \<open>
  \<^verbatim>\<open>dmaServeInterrupt\<close>: acknowledges the flags that are enabled and returns the handler to
  call with them, if there is one.
\<close>

definition dmaServeInterrupt :: "nat \<Rightarrow> dma_state \<Rightarrow> (nat \<times> u32) option \<times> dma_state" where
  "dmaServeInterrupt i s =
     (let flags = drop_bit (dma_shift i) (dma_ISR s) AND STM32_DMA_ISR_MASK
      in if flags AND CCR (channels s ! i) \<noteq> 0
         then (map_option (\<lambda>h. (h, flags)) (isr_redir s ! i),
               s\<lparr>dma_IFCR := push_bit (dma_shift i) flags\<rparr>)
         else (None, s))"

section \<open>The allocator's contract\<close>

text \<open>
  What a driver relies on: a stream can be taken once, a released stream can be taken again,
  and operations on one stream leave the others' ownership alone.
\<close>

locale exclusive_allocator =
  fixes inv :: "'s \<Rightarrow> bool" and taken :: "nat \<Rightarrow> 's \<Rightarrow> bool"
    and alloc :: "nat \<Rightarrow> 's \<Rightarrow> bool \<times> 's" and release :: "nat \<Rightarrow> 's \<Rightarrow> 's" and bound :: nat
  assumes alloc_fails: "i < bound \<Longrightarrow> fst (alloc i s) = taken i s"
    and alloc_taken: "i < bound \<Longrightarrow> j < bound \<Longrightarrow> taken j (snd (alloc i s)) = (taken j s \<or> j = i)"
    and release_taken: "i < bound \<Longrightarrow> j < bound \<Longrightarrow> taken j (release i s) = (taken j s \<and> j \<noteq> i)"
    and alloc_inv: "i < bound \<Longrightarrow> inv s \<Longrightarrow> inv (snd (alloc i s))"
    and release_inv: "i < bound \<Longrightarrow> inv s \<Longrightarrow> taken i s \<Longrightarrow> inv (release i s)"
begin

lemma exclusive: "i < bound \<Longrightarrow> fst (alloc i (snd (alloc i s)))"
  by (simp add: alloc_fails alloc_taken)

lemma reusable: "i < bound \<Longrightarrow> \<not> fst (alloc i (release i s))"
  by (simp add: alloc_fails release_taken)

lemma allocated_set:
  "\<forall>i \<in> set is. i < bound \<Longrightarrow> j < bound \<Longrightarrow>
   taken j (fold (\<lambda>i s. snd (alloc i s)) is s) = (taken j s \<or> j \<in> set is)"
  by (induction "is" arbitrary: s) (auto simp: alloc_taken)

lemma allocated_inv: "\<forall>i \<in> set is. i < bound \<Longrightarrow> inv s \<Longrightarrow> inv (fold (\<lambda>i s. snd (alloc i s)) is s)"
  by (induction "is" arbitrary: s) (auto simp: alloc_inv)

end

definition dma_taken :: "nat \<Rightarrow> dma_state \<Rightarrow> bool" where
  "dma_taken i s = bit (dma_streams_mask s) i"

text \<open>
  The well-formed allocator state: a handler is installed for exactly the taken streams, the
  clock runs exactly when some stream is taken, and a vector is enabled exactly when one of its
  streams is taken.
\<close>

definition dma_inv :: "dma_state \<Rightarrow> bool" where
  "dma_inv s \<longleftrightarrow> length (channels s) = 5 \<and> length (isr_redir s) = 5 \<and>
     unat (dma_streams_mask s) < 32 \<and>
     (\<forall>i < 5. (isr_redir s ! i \<noteq> None) = dma_taken i s) \<and>
     (dma_clock s = (\<exists>i < 5. dma_taken i s)) \<and>
     (\<forall>i < 5. (dma_vector i \<in> dma_vectors s) = (\<exists>j < 5. dma_vector j = dma_vector i \<and> dma_taken j s))"

lemma less_5_cases: "i < 5 \<longleftrightarrow> i = 0 \<or> i = 1 \<or> i = 2 \<or> i = 3 \<or> i = (4::nat)"
  by auto

lemma ex_less_5: "(\<exists>j < 5. P j) \<longleftrightarrow> P 0 \<or> P 1 \<or> P 2 \<or> P 3 \<or> P (4::nat)"
  by (auto simp: less_5_cases)

lemma all_less_5: "(\<forall>j < 5. P j) \<longleftrightarrow> P 0 \<and> P 1 \<and> P 2 \<and> P 3 \<and> P (4::nat)"
  by (auto simp: less_5_cases)

lemma bit_small: "unat m < 2 ^ k \<Longrightarrow> k \<le> n \<Longrightarrow> \<not> bit m n" for m :: "'a::len word"
  by (metis bit_take_bit_iff drop_bit_eq_div div_less take_bit_eq_self_iff_drop_bit_eq_0 not_less
      unat_drop_bit_eq unat_eq_0)

lemma stream_bit: "i < 32 \<Longrightarrow> m AND 2 ^ i = 0 \<longleftrightarrow> \<not> bit m i" for m :: u32
  using and_field_nonzero [of i 1 m] by (auto simp: mask_eq_exp_minus_1)

lemma clock_mask: "m AND 0x1F = 0 \<longleftrightarrow> \<not> (\<exists>i < 5. bit m i)" for m :: u32
proof -
  have "(0x1F :: u32) = push_bit 0 (mask 5)" by (simp add: mask_eq_exp_minus_1)
  then show ?thesis using and_field_nonzero [of 0 5 m] by auto
qed

lemma vector_mask:
  assumes "unat m < 32" "i < 5"
  shows "m AND dma_cmask i = 0 \<longleftrightarrow> \<not> (\<exists>j < 5. dma_vector j = dma_vector i \<and> bit m j)"
proof -
  have big: "\<not> bit m 5" "\<not> bit m 6" using bit_small [of m 5] assms(1) by simp_all
  have c: "(1 :: u32) = push_bit 0 (mask 1)" "(6 :: u32) = push_bit 1 (mask 2)" "(0x78 :: u32) = push_bit 3 (mask 4)"
    by (simp_all add: mask_eq_exp_minus_1)
  have e: "(\<exists>j < 4. P j) \<longleftrightarrow> P 0 \<or> P 1 \<or> P 2 \<or> P (3::nat)" "(\<exists>j < 2. P j) \<longleftrightarrow> P 0 \<or> P (1::nat)"
    "(\<exists>j < 1. P j) \<longleftrightarrow> P (0::nat)" for P
    by (auto simp: less_Suc_eq numeral_eq_Suc)
  have z: "m AND 1 \<noteq> 0 \<longleftrightarrow> bit m 0" "m AND 6 \<noteq> 0 \<longleftrightarrow> bit m 1 \<or> bit m 2" "m AND 0x78 \<noteq> 0 \<longleftrightarrow> bit m 3 \<or> bit m 4"
    using and_field_nonzero [of 0 1 m] and_field_nonzero [of 1 2 m] and_field_nonzero [of 3 4 m] big
    unfolding c e by (simp_all add: eval_nat_numeral del: bit_0)
  show ?thesis
    unfolding ex_less_5 using assms(2) z
    by (auto simp: less_5_cases dma_cmask_def dma_vector_def simp del: bit_0)
qed

lemma bit_set_clear:
  fixes m :: u32
  assumes "i < 32"
  shows "bit (m OR 2 ^ i) j = (bit m j \<or> j = i)" "bit (m AND NOT (2 ^ i)) j = (bit m j \<and> j \<noteq> i)"
  using assms by (auto simp: bit_or_iff bit_and_iff bit_not_iff bit_exp_iff dest: bit_imp_le_length)

lemma unat_less_bits: "unat m < 2 ^ k \<longleftrightarrow> (\<forall>n \<ge> k. \<not> bit m n)" for m :: "'a::len word"
proof
  assume "\<forall>n \<ge> k. \<not> bit m n"
  then have "take_bit k m = m" by (intro bit_word_eqI) (auto simp: bit_take_bit_iff not_less [symmetric])
  then have "drop_bit k m = 0" by (simp add: take_bit_eq_self_iff_drop_bit_eq_0)
  then have "unat m div 2 ^ k = 0" by (metis drop_bit_eq_div unat_0 unat_drop_bit_eq)
  then show "unat m < 2 ^ k" by (simp add: div_eq_0_iff)
qed (use bit_small in blast)

lemma dma_frame [frame_simps]:
  "dma_streams_mask (dmaStreamDisable i s) = dma_streams_mask s"
  "isr_redir (dmaStreamDisable i s) = isr_redir s" "dma_clock (dmaStreamDisable i s) = dma_clock s"
  "dma_vectors (dmaStreamDisable i s) = dma_vectors s"
  "length (channels (dmaStreamDisable i s)) = length (channels s)"
  "dma_streams_mask (dmaStreamSetMode i m s) = dma_streams_mask s"
  "isr_redir (dmaStreamSetMode i m s) = isr_redir s" "dma_clock (dmaStreamSetMode i m s) = dma_clock s"
  "dma_vectors (dmaStreamSetMode i m s) = dma_vectors s"
  "length (channels (dmaStreamSetMode i m s)) = length (channels s)"
  by (simp_all add: dmaStreamDisable_def dmaStreamClearInterrupt_def dmaStreamSetMode_def upd_channel_def)

lemma alloc_fields:
  fixes s i h
  defines "s' \<equiv> snd (dmaStreamAllocate i (Some h) s)"
  assumes "i < 5" "\<not> dma_taken i s" "unat (dma_streams_mask s) < 32"
  shows "dma_streams_mask s' = dma_streams_mask s OR 2 ^ i"
    "isr_redir s' = (isr_redir s)[i := Some h]" "length (channels s') = length (channels s)"
    "dma_clock s' = (dma_clock s \<or> \<not> (\<exists>j < 5. dma_taken j s))"
    "dma_vectors s' = (if \<exists>j < 5. dma_vector j = dma_vector i \<and> dma_taken j s then dma_vectors s
       else insert (dma_vector i) (dma_vectors s))"
  using assms(2-4)
  by (auto simp: s'_def dmaStreamAllocate_def Let_def frame_simps clock_mask vector_mask stream_bit
      dma_taken_def simp del: bit_0)

lemma release_fields:
  fixes s i
  defines "s' \<equiv> dmaStreamRelease i s" and "m \<equiv> dma_streams_mask s AND NOT (2 ^ i)"
  assumes "i < 5" "unat m < 32"
  shows "dma_streams_mask s' = m" "isr_redir s' = (isr_redir s)[i := None]" "channels s' = channels s"
    "dma_clock s' = (dma_clock s \<and> (\<exists>j < 5. bit m j))"
    "dma_vectors s' = (if \<exists>j < 5. dma_vector j = dma_vector i \<and> bit m j then dma_vectors s
       else dma_vectors s - {dma_vector i})"
  using assms(3,4) unfolding s'_def dmaStreamRelease_def push_bit_of_1 m_def [symmetric] Let_def
  by (simp_all add: clock_mask vector_mask del: bit_0)

lemma unat_mask_upd:
  fixes m :: u32
  assumes "i < 5" "unat m < 32"
  shows "unat (m OR 2 ^ i) < 32" "unat (m AND NOT (2 ^ i)) < 32"
proof -
  have "\<not> bit m n" if "5 \<le> n" for n using bit_small [of m 5 n] assms(2) that by simp
  then have "\<forall>n \<ge> 5. \<not> bit (m OR 2 ^ i) n" "\<forall>n \<ge> 5. \<not> bit (m AND NOT (2 ^ i)) n"
    using assms(1) by (auto simp: bit_set_clear)
  then show "unat (m OR 2 ^ i) < 32" "unat (m AND NOT (2 ^ i)) < 32"
    using unat_less_bits [of _ 5] by auto
qed

lemma dma_taken_alloc:
  assumes "i < 5"
  shows "dma_taken j (snd (dmaStreamAllocate i f s)) = (dma_taken j s \<or> j = i)"
  using assms stream_bit [of i "dma_streams_mask s"] bit_set_clear(1) [of i "dma_streams_mask s" j]
  by (auto simp: dmaStreamAllocate_def dma_taken_def Let_def frame_simps simp del: bit_0)

lemma dma_taken_release: "i < 5 \<Longrightarrow> dma_taken j (dmaStreamRelease i s) = (dma_taken j s \<and> j \<noteq> i)"
  using bit_set_clear(2) [of i "dma_streams_mask s" j]
  by (simp add: dmaStreamRelease_def dma_taken_def Let_def del: bit_0)

lemma dma_inv_alloc:
  assumes "i < 5" "dma_inv s"
  shows "dma_inv (snd (dmaStreamAllocate i (Some h) s))"
proof (cases "dma_taken i s")
  case True
  then show ?thesis using assms stream_bit [of i "dma_streams_mask s"]
    by (simp add: dmaStreamAllocate_def dma_taken_def del: bit_0)
next
  case False
  have m: "unat (dma_streams_mask s) < 32" and len: "length (channels s) = 5" "length (isr_redir s) = 5"
    and hd: "\<And>i. i < 5 \<Longrightarrow> (isr_redir s ! i \<noteq> None) = dma_taken i s"
    and c: "dma_clock s = (\<exists>i < 5. dma_taken i s)"
    and v: "\<And>i. i < 5 \<Longrightarrow> (dma_vector i \<in> dma_vectors s) = (\<exists>j < 5. dma_vector j = dma_vector i \<and> dma_taken j s)"
    using assms(2) unfolding dma_inv_def by blast+
  note f = alloc_fields [OF assms(1) False m, of h] and t = dma_taken_alloc [OF assms(1), of _ "Some h" s]
  let ?s = "snd (dmaStreamAllocate i (Some h) s)"
  have "(isr_redir ?s ! k \<noteq> None) = dma_taken k ?s" if "k < 5" for k
    unfolding f t using that hd [OF that] len by (cases "k = i") simp_all
  moreover have "dma_clock ?s = (\<exists>k < 5. dma_taken k ?s)"
    unfolding f t using c assms(1) by blast
  moreover have "(dma_vector k \<in> dma_vectors ?s) = (\<exists>j < 5. dma_vector j = dma_vector k \<and> dma_taken j ?s)" if "k < 5" for k
    unfolding f t using v [OF that] v [OF assms(1)] assms(1) by (cases "dma_vector k = dma_vector i") auto
  moreover have "unat (dma_streams_mask ?s) < 32"
    unfolding f by (rule unat_mask_upd(1) [OF assms(1) m])
  ultimately show ?thesis unfolding dma_inv_def using len by (simp add: f)
qed

lemma dma_inv_release:
  assumes "i < 5" "dma_inv s" "dma_taken i s"
  shows "dma_inv (dmaStreamRelease i s)"
proof -
  have m: "unat (dma_streams_mask s) < 32" and len: "length (channels s) = 5" "length (isr_redir s) = 5"
    and h: "\<And>i. i < 5 \<Longrightarrow> (isr_redir s ! i \<noteq> None) = dma_taken i s"
    and c: "dma_clock s = (\<exists>i < 5. dma_taken i s)"
    and v: "\<And>i. i < 5 \<Longrightarrow> (dma_vector i \<in> dma_vectors s) = (\<exists>j < 5. dma_vector j = dma_vector i \<and> dma_taken j s)"
    using assms(2) unfolding dma_inv_def by blast+
  note f = release_fields [OF assms(1) unat_mask_upd(2) [OF assms(1) m]]
  have b: "bit (dma_streams_mask s AND NOT (2 ^ i)) j = (dma_taken j s \<and> j \<noteq> i)" for j
    using bit_set_clear(2) [of i] assms(1) by (simp add: dma_taken_def)
  have "(isr_redir (dmaStreamRelease i s) ! k \<noteq> None) = dma_taken k (dmaStreamRelease i s)" if "k < 5" for k
    unfolding f dma_taken_release [OF assms(1)] using that h [OF that] len by (cases "k = i") simp_all
  moreover have "dma_clock (dmaStreamRelease i s) = (\<exists>k < 5. dma_taken k (dmaStreamRelease i s))"
    unfolding f b dma_taken_release [OF assms(1)] using c by blast
  moreover have "(dma_vector k \<in> dma_vectors (dmaStreamRelease i s)) =
      (\<exists>j < 5. dma_vector j = dma_vector k \<and> dma_taken j (dmaStreamRelease i s))" if "k < 5" for k
    unfolding f b dma_taken_release [OF assms(1)] using v [OF that] assms(1,3)
    by (cases "dma_vector k = dma_vector i") auto
  moreover have "unat (dma_streams_mask (dmaStreamRelease i s)) < 32"
    unfolding f by (rule unat_mask_upd(2) [OF assms(1) m])
  ultimately show ?thesis unfolding dma_inv_def using len by (simp add: f)
qed

interpretation dma: exclusive_allocator dma_inv dma_taken "\<lambda>i. dmaStreamAllocate i (Some h)" dmaStreamRelease 5
  for h :: nat
proof
  fix i s
  assume "i < (5::nat)"
  then show "fst (dmaStreamAllocate i (Some h) s) = dma_taken i s"
    using stream_bit [of i "dma_streams_mask s"]
    by (auto simp: dmaStreamAllocate_def dma_taken_def Let_def)
qed (simp_all add: dma_taken_alloc dma_taken_release dma_inv_alloc dma_inv_release)
text \<open>
  C10: the DMA stream allocator keeps its books.  Starting from a well-formed state, allocating
  any list of streams and releasing one of them leaves the state well-formed: handlers,
  interrupt vectors and the clock match the set of taken streams exactly; a taken stream cannot
  be allocated again, a released one can.
\<close>

theorem dma_allocator_exclusive:
  fixes h :: nat
  assumes "dma_inv s" "\<forall>i \<in> set is. i < 5" "k \<in> set is"
  defines "s1 \<equiv> fold (\<lambda>i s. snd (dmaStreamAllocate i (Some h) s)) is s"
  shows "dma_inv s1 \<and> fst (dmaStreamAllocate k (Some h) s1) \<and>
    dma_inv (dmaStreamRelease k s1) \<and> \<not> fst (dmaStreamAllocate k (Some h) (dmaStreamRelease k s1)) \<and>
    (\<forall>j < 5. dma_taken j (dmaStreamRelease k s1) = ((dma_taken j s \<or> j \<in> set is) \<and> j \<noteq> k))"
proof -
  have k: "k < 5" using assms(2,3) by blast
  have inv: "dma_inv s1" unfolding s1_def by (rule dma.allocated_inv [OF assms(2,1)])
  have t: "j < 5 \<Longrightarrow> dma_taken j s1 = (dma_taken j s \<or> j \<in> set is)" for j
    unfolding s1_def by (rule dma.allocated_set [OF assms(2)])
  have tk: "dma_taken k s1" using t k assms(3) by blast
  show ?thesis
    using inv t tk dma.alloc_fails [OF k] dma.release_inv [OF k inv tk] dma.reusable [OF k]
    by (auto simp: dma.release_taken [OF k])
qed

definition dma_reset :: dma_state where
  "dma_reset = dmaInit \<lparr>dma_streams_mask = 0,
     channels = replicate 5 \<lparr>CCR = 0, CNDTR = 0, CPAR = 0, CMAR = 0\<rparr>, isr_redir = replicate 5 None,
     dma_ISR = 0, dma_IFCR = 0, dma_clock = False, dma_vectors = {}\<rparr>"

lemma dma_reset_inv: "dma_inv dma_reset"
  by (simp add: dma_inv_def dma_reset_def dmaInit_def dma_taken_def all_less_5)

theorem dma_allocator_exclusive_witness:
  "fst (dmaStreamAllocate 2 (Some 7) (snd (dmaStreamAllocate 2 (Some 7) (snd (dmaStreamAllocate 0 (Some 7) dma_reset)))))"
  using dma_allocator_exclusive [OF dma_reset_inv, of "[0, 2]" 2 7] by simp

end
