(* ===== verification/Adc.thy ===== *)
theory Adc
  imports Dma
begin

text \<open>
  The ADC driver: \<^verbatim>\<open>os/hal/src/adc.c\<close>, the interrupt code macros of \<^verbatim>\<open>os/hal/include/adc.h\<close> and the
  low level driver \<^verbatim>\<open>os/hal/ports/STM32/LLD/ADCv1/adc_lld.[ch]\<close>, over the DMA streams of \<open>Dma\<close>.
  The reactions of the converter to register writes and what it does between two polls are
  parameters (\<open>adc_hw\<close>).  A callback of the conversion group is a parameter as well: each
  invocation is appended to \<open>ad_calls\<close> and then acts on the driver.  \<open>None\<close> is a call that does
  not come back: a poll that never succeeds or a null dereference.
\<close>

section \<open>Data\<close>

datatype adcstate_t = ADC_UNINIT | ADC_STOP | ADC_READY | ADC_ACTIVE | ADC_COMPLETE | ADC_ERROR

datatype adcerror_t = ADC_ERR_DMAFAILURE | ADC_ERR_OVERFLOW | ADC_ERR_AWD

text \<open>\<open>EndCb offset n\<close>: end callback with the samples from \<open>offset\<close> on, \<open>n\<close> rows.\<close>

datatype adc_call = EndCb nat nat | ErrorCb adcerror_t

record ADC_TypeDef =
  adc_ISR :: u32
  adc_IER :: u32
  adc_CR :: u32
  adc_CFGR1 :: u32
  adc_CFGR2 :: u32
  adc_TR :: u32
  adc_SMPR :: u32
  adc_CHSELR :: u32
  adc_CCR :: u32

record ADCConversionGroup =
  circular :: bool
  num_channels :: nat
  has_end_cb :: bool
  has_error_cb :: bool
  grp_cfgr1 :: u32
  grp_tr :: u32
  grp_smpr :: u32
  grp_chselr :: u32

record ADCDriver =
  ad_state :: adcstate_t
  ad_config :: "u32 option"
  ad_samples :: "nat option"
  ad_depth :: nat
  ad_grpp :: "ADCConversionGroup option"
  ad_adc :: ADC_TypeDef
  ad_dma :: dma_state
  ad_stream :: nat
  ad_dmamode :: u32
  ad_clock :: bool
  ad_calls :: "adc_call list"

record adc_hw =
  hw_adc_CR :: "u32 \<Rightarrow> ADC_TypeDef \<Rightarrow> ADC_TypeDef"
  hw_adc_ISR :: "u32 \<Rightarrow> ADC_TypeDef \<Rightarrow> ADC_TypeDef"
  adc_poll :: "ADC_TypeDef \<Rightarrow> ADC_TypeDef"

type_synonym adc_cb = "adc_call \<Rightarrow> ADCDriver \<Rightarrow> ADCDriver"

abbreviation (input) ADC_CR_ADEN :: u32 where "ADC_CR_ADEN \<equiv> 0x1"
abbreviation (input) ADC_CR_ADDIS :: u32 where "ADC_CR_ADDIS \<equiv> 0x2"
abbreviation (input) ADC_CR_ADSTART :: u32 where "ADC_CR_ADSTART \<equiv> 0x4"
abbreviation (input) ADC_CR_ADSTP :: u32 where "ADC_CR_ADSTP \<equiv> 0x10"
abbreviation (input) ADC_CR_ADCAL :: u32 where "ADC_CR_ADCAL \<equiv> 0x80000000"
abbreviation (input) ADC_ISR_ADRDY :: u32 where "ADC_ISR_ADRDY \<equiv> 0x1"
abbreviation (input) ADC_ISR_OVR :: u32 where "ADC_ISR_OVR \<equiv> 0x10"
abbreviation (input) ADC_ISR_AWD :: u32 where "ADC_ISR_AWD \<equiv> 0x80"
abbreviation (input) ADC_IER_OVRIE :: u32 where "ADC_IER_OVRIE \<equiv> 0x10"
abbreviation (input) ADC_IER_AWDIE :: u32 where "ADC_IER_AWDIE \<equiv> 0x80"
abbreviation (input) ADC_CFGR1_DMAEN :: u32 where "ADC_CFGR1_DMAEN \<equiv> 0x1"
abbreviation (input) ADC_CFGR1_DMACFG :: u32 where "ADC_CFGR1_DMACFG \<equiv> 0x2"

section \<open>Polling\<close>

partial_function (option) wait_clear :: "adc_hw \<Rightarrow> u32 \<Rightarrow> ADC_TypeDef \<Rightarrow> ADC_TypeDef option" where
  "wait_clear hw m a = (if adc_CR a AND m \<noteq> 0 then wait_clear hw m (adc_poll hw a) else Some a)"

partial_function (option) wait_ready :: "adc_hw \<Rightarrow> ADC_TypeDef \<Rightarrow> ADC_TypeDef option" where
  "wait_ready hw a =
     (if adc_ISR a AND ADC_ISR_ADRDY = 0 then wait_ready hw (adc_poll hw a) else Some a)"

definition adc_lld_stop_adc :: "adc_hw \<Rightarrow> ADC_TypeDef \<Rightarrow> ADC_TypeDef option" where
  "adc_lld_stop_adc hw a =
     (if adc_CR a AND ADC_CR_ADSTART \<noteq> 0
      then wait_clear hw ADC_CR_ADSTP (hw_adc_CR hw (adc_CR a OR ADC_CR_ADSTP) a)
      else Some a)"

section \<open>Low level driver\<close>

definition adcObjectInit :: "ADCDriver \<Rightarrow> ADCDriver" where
  "adcObjectInit d = d\<lparr>ad_state := ADC_STOP, ad_config := None, ad_samples := None, ad_depth := 0,
     ad_grpp := None\<rparr>"

definition adc_lld_init :: "adc_hw \<Rightarrow> ADCDriver \<Rightarrow> ADCDriver option" where
  "adc_lld_init hw d =
     do {
       let d = (adcObjectInit d)\<lparr>ad_stream := 0, ad_dmamode := push_bit 12 2 OR
                 STM32_DMA_CR_MSIZE_HWORD OR STM32_DMA_CR_PSIZE_HWORD OR STM32_DMA_CR_MINC OR
                 STM32_DMA_CR_TCIE OR STM32_DMA_CR_TEIE\<rparr>;
       let a = (ad_adc d)\<lparr>adc_CCR := 0\<rparr>;
       a \<leftarrow> wait_clear hw ADC_CR_ADCAL (hw_adc_CR hw (adc_CR a OR ADC_CR_ADCAL) a);
       Some (d\<lparr>ad_adc := a, ad_clock := False\<rparr>)
     }"

text \<open>The handler installed on the stream is \<^verbatim>\<open>adc_lld_serve_rx_interrupt\<close>, number 1.\<close>

definition adc_lld_start :: "adc_hw \<Rightarrow> ADCDriver \<Rightarrow> ADCDriver option" where
  "adc_lld_start hw d =
     (if ad_state d = ADC_STOP
      then do {
        let dma = snd (dmaStreamAllocate (ad_stream d) (Some 1) (ad_dma d));
        let dma = dmaStreamSetPeripheral (ad_stream d) 0x40012440 dma;
        let a = (ad_adc d)\<lparr>adc_CFGR2 := 0\<rparr>;
        a \<leftarrow> wait_ready hw (hw_adc_CR hw ADC_CR_ADEN a);
        Some (d\<lparr>ad_dma := dma, ad_clock := True, ad_adc := a\<rparr>)
      }
      else Some d)"

definition adc_lld_stop :: "adc_hw \<Rightarrow> ADCDriver \<Rightarrow> ADCDriver option" where
  "adc_lld_stop hw d =
     (if ad_state d = ADC_READY
      then do {
        let dma = dmaStreamRelease (ad_stream d) (ad_dma d);
        let a = (ad_adc d)\<lparr>adc_CCR := 0\<rparr>;
        a \<leftarrow> (if adc_CR a AND ADC_CR_ADEN \<noteq> 0
             then do {
               a \<leftarrow> adc_lld_stop_adc hw a;
               wait_clear hw ADC_CR_ADDIS (hw_adc_CR hw (adc_CR a OR ADC_CR_ADDIS) a)
             }
             else Some a);
        Some (d\<lparr>ad_dma := dma, ad_adc := a, ad_clock := False\<rparr>)
      }
      else Some d)"

definition adc_lld_start_conversion :: "adc_hw \<Rightarrow> ADCDriver \<Rightarrow> ADCDriver option" where
  "adc_lld_start_conversion hw d =
     do {
       grpp \<leftarrow> ad_grpp d;
       samples \<leftarrow> ad_samples d;
       let mode = ad_dmamode d;
       let cfgr1 = grp_cfgr1 grpp OR ADC_CFGR1_DMAEN;
       let (mode, cfgr1) =
         (if circular grpp
          then (if ad_depth d > 1 then mode OR STM32_DMA_CR_CIRC OR STM32_DMA_CR_HTIE
                else mode OR STM32_DMA_CR_CIRC, cfgr1 OR ADC_CFGR1_DMACFG)
          else (mode, cfgr1));
       let i = ad_stream d;
       let dma = dmaStreamSetMemory0 i samples (ad_dma d);
       let dma = dmaStreamSetTransactionSize i (of_nat (num_channels grpp) * of_nat (ad_depth d)) dma;
       let dma = dmaStreamEnable i (dmaStreamSetMode i mode dma);
       let a = hw_adc_ISR hw (adc_ISR (ad_adc d)) (ad_adc d);
       let a = a\<lparr>adc_IER := ADC_IER_OVRIE OR ADC_IER_AWDIE, adc_TR := grp_tr grpp,
                 adc_SMPR := grp_smpr grpp, adc_CHSELR := grp_chselr grpp, adc_CFGR1 := cfgr1\<rparr>;
       let a = hw_adc_CR hw (adc_CR a OR ADC_CR_ADSTART) a;
       Some (d\<lparr>ad_dma := dma, ad_adc := a\<rparr>)
     }"

definition adc_lld_stop_conversion :: "adc_hw \<Rightarrow> ADCDriver \<Rightarrow> ADCDriver option" where
  "adc_lld_stop_conversion hw d =
     do {
       let dma = dmaStreamDisable (ad_stream d) (ad_dma d);
       a \<leftarrow> adc_lld_stop_adc hw (ad_adc d);
       Some (d\<lparr>ad_dma := dma, ad_adc := a\<rparr>)
     }"

section \<open>Interrupt code\<close>

definition invoke_cb :: "adc_cb \<Rightarrow> adc_call \<Rightarrow> ADCDriver \<Rightarrow> ADCDriver" where
  "invoke_cb cb c d = cb c (d\<lparr>ad_calls := ad_calls d @ [c]\<rparr>)"

definition adc_isr_half_code :: "adc_cb \<Rightarrow> ADCDriver \<Rightarrow> ADCDriver option" where
  "adc_isr_half_code cb d =
     do {
       grpp \<leftarrow> ad_grpp d;
       Some (if has_end_cb grpp then invoke_cb cb (EndCb 0 (ad_depth d div 2)) d else d)
     }"

definition adc_isr_full_code :: "adc_hw \<Rightarrow> adc_cb \<Rightarrow> ADCDriver \<Rightarrow> ADCDriver option" where
  "adc_isr_full_code hw cb d =
     do {
       grpp \<leftarrow> ad_grpp d;
       if circular grpp
       then Some (if has_end_cb grpp
                  then if ad_depth d > 1
                       then let half = ad_depth d div 2; half_index = half * num_channels grpp
                            in invoke_cb cb (EndCb half_index half) d
                       else invoke_cb cb (EndCb 0 (ad_depth d)) d
                  else d)
       else do {
         d \<leftarrow> adc_lld_stop_conversion hw d;
         Some (if has_end_cb grpp
               then let d = invoke_cb cb (EndCb 0 (ad_depth d)) (d\<lparr>ad_state := ADC_COMPLETE\<rparr>)
                    in if ad_state d = ADC_COMPLETE then d\<lparr>ad_state := ADC_READY, ad_grpp := None\<rparr> else d
               else d\<lparr>ad_state := ADC_READY, ad_grpp := None\<rparr>)
       }
     }"

definition adc_isr_error_code :: "adc_hw \<Rightarrow> adc_cb \<Rightarrow> adcerror_t \<Rightarrow> ADCDriver \<Rightarrow> ADCDriver option" where
  "adc_isr_error_code hw cb err d =
     do {
       d \<leftarrow> adc_lld_stop_conversion hw d;
       grpp \<leftarrow> ad_grpp d;
       Some (if has_error_cb grpp
             then let d = invoke_cb cb (ErrorCb err) (d\<lparr>ad_state := ADC_ERROR\<rparr>);
                      d = (if ad_state d = ADC_ERROR then d\<lparr>ad_state := ADC_READY\<rparr> else d)
                  in d\<lparr>ad_grpp := None\<rparr>
             else d\<lparr>ad_state := ADC_READY, ad_grpp := None\<rparr>)
     }"

definition adc_lld_serve_rx_interrupt :: "adc_hw \<Rightarrow> adc_cb \<Rightarrow> u32 \<Rightarrow> ADCDriver \<Rightarrow> ADCDriver option" where
  "adc_lld_serve_rx_interrupt hw cb flags d =
     (if flags AND STM32_DMA_ISR_TEIF \<noteq> 0 then adc_isr_error_code hw cb ADC_ERR_DMAFAILURE d
      else if ad_grpp d \<noteq> None
      then if flags AND STM32_DMA_ISR_TCIF \<noteq> 0 then adc_isr_full_code hw cb d
           else if flags AND STM32_DMA_ISR_HTIF \<noteq> 0 then adc_isr_half_code cb d
           else Some d
      else Some d)"

definition adc_lld_serve_interrupt :: "adc_hw \<Rightarrow> adc_cb \<Rightarrow> ADCDriver \<Rightarrow> ADCDriver option" where
  "adc_lld_serve_interrupt hw cb d =
     (let isr = adc_ISR (ad_adc d);
          d = d\<lparr>ad_adc := hw_adc_ISR hw isr (ad_adc d)\<rparr>
      in if ad_grpp d \<noteq> None
         then do {
           d \<leftarrow> (if isr AND ADC_ISR_OVR \<noteq> 0 \<and> dmaStreamGetTransactionSize (ad_stream d) (ad_dma d) > 0
                then adc_isr_error_code hw cb ADC_ERR_OVERFLOW d else Some d);
           if isr AND ADC_ISR_AWD \<noteq> 0 then adc_isr_error_code hw cb ADC_ERR_AWD d else Some d
         }
         else Some d)"

section \<open>API\<close>

definition adcInit :: "adc_hw \<Rightarrow> ADCDriver \<Rightarrow> ADCDriver option" where
  "adcInit hw d = adc_lld_init hw d"

definition adcStart :: "adc_hw \<Rightarrow> u32 option \<Rightarrow> ADCDriver \<Rightarrow> ADCDriver option" where
  "adcStart hw config d =
     do { d \<leftarrow> adc_lld_start hw (d\<lparr>ad_config := config\<rparr>); Some (d\<lparr>ad_state := ADC_READY\<rparr>) }"

definition adcStop :: "adc_hw \<Rightarrow> ADCDriver \<Rightarrow> ADCDriver option" where
  "adcStop hw d = do { d \<leftarrow> adc_lld_stop hw d; Some (d\<lparr>ad_state := ADC_STOP\<rparr>) }"

definition adcStartConversionI :: "adc_hw \<Rightarrow> ADCConversionGroup \<Rightarrow> nat \<Rightarrow> nat \<Rightarrow> ADCDriver \<Rightarrow> ADCDriver option" where
  "adcStartConversionI hw grpp samples depth d =
     adc_lld_start_conversion hw (d\<lparr>ad_samples := Some samples, ad_depth := depth,
       ad_grpp := Some grpp, ad_state := ADC_ACTIVE\<rparr>)"

definition adcStartConversion :: "adc_hw \<Rightarrow> ADCConversionGroup \<Rightarrow> nat \<Rightarrow> nat \<Rightarrow> ADCDriver \<Rightarrow> ADCDriver option" where
  "adcStartConversion hw grpp samples depth d = adcStartConversionI hw grpp samples depth d"

definition adcStopConversionI :: "adc_hw \<Rightarrow> ADCDriver \<Rightarrow> ADCDriver option" where
  "adcStopConversionI hw d =
     (if ad_state d \<noteq> ADC_READY
      then do { d \<leftarrow> adc_lld_stop_conversion hw d; Some (d\<lparr>ad_grpp := None, ad_state := ADC_READY\<rparr>) }
      else Some d)"

definition adcStopConversion :: "adc_hw \<Rightarrow> ADCDriver \<Rightarrow> ADCDriver option" where
  "adcStopConversion hw d = adcStopConversionI hw d"

section \<open>What the converter and the callbacks are relied on to do\<close>

text \<open>
  The reference manual: after a stop request the converter clears the request bit.  A poll that
  sees a bit clear after finitely many reads ends.
\<close>

definition adc_stops :: "adc_hw \<Rightarrow> bool" where
  "adc_stops hw \<longleftrightarrow> (\<forall>a. \<exists>n. adc_CR ((adc_poll hw ^^ n) (hw_adc_CR hw (adc_CR a OR ADC_CR_ADSTP) a)) AND ADC_CR_ADSTP = 0)"

definition cb_passive :: "adc_cb \<Rightarrow> bool" where
  "cb_passive cb \<longleftrightarrow> (\<forall>c d. ad_state (cb c d) = ad_state d \<and> ad_grpp (cb c d) = ad_grpp d \<and>
     ad_calls (cb c d) = ad_calls d \<and> ad_dma (cb c d) = ad_dma d)"

lemma wait_clear_returns:
  "adc_CR ((adc_poll hw ^^ n) a) AND m = 0 \<Longrightarrow> \<exists>a'. wait_clear hw m a = Some a'"
proof (induction n arbitrary: a)
  case 0
  then show ?case by (simp add: wait_clear.simps)
next
  case (Suc n)
  have "adc_CR ((adc_poll hw ^^ n) (adc_poll hw a)) AND m = 0"
    using Suc.prems by (simp only: funpow_Suc_right o_apply)
  from Suc.IH [OF this] obtain b where "wait_clear hw m (adc_poll hw a) = Some b" by blast
  then show ?case by (subst wait_clear.simps) simp
qed

lemma stop_adc_returns: "adc_stops hw \<Longrightarrow> \<exists>a'. adc_lld_stop_adc hw a = Some a'"
  unfolding adc_stops_def adc_lld_stop_adc_def using wait_clear_returns by (metis (mono_tags, lifting))

lemma stop_conversion_returns:
  assumes "adc_stops hw"
  obtains a' where "adc_lld_stop_conversion hw d =
    Some (d\<lparr>ad_dma := dmaStreamDisable (ad_stream d) (ad_dma d), ad_adc := a'\<rparr>)"
  using stop_adc_returns [OF assms, of "ad_adc d"] that
  by (auto simp: adc_lld_stop_conversion_def Let_def)

text \<open>A disabled stream: its enable bit is off.\<close>

definition stream_enabled :: "nat \<Rightarrow> dma_state \<Rightarrow> bool" where
  "stream_enabled i s \<longleftrightarrow> bit (CCR (channels s ! i)) 0"

lemma dmaStreamDisable_off: "i < length (channels s) \<Longrightarrow> \<not> stream_enabled i (dmaStreamDisable i s)"
  by (simp add: stream_enabled_def dmaStreamDisable_def dmaStreamClearInterrupt_def upd_channel_def bit_and_iff)

lemma start_conversion_result:
  assumes "adcStartConversion hw grpp samples depth d = Some d'"
  shows "ad_state d' = ADC_ACTIVE" "ad_grpp d' = Some grpp" "ad_samples d' = Some samples" "ad_depth d' = depth"
    "ad_calls d' = ad_calls d" "ad_stream d' = ad_stream d"
    "length (channels (ad_dma d')) = length (channels (ad_dma d))"
  using assms
  by (auto simp: adcStartConversion_def adcStartConversionI_def adc_lld_start_conversion_def Let_def
      dmaStreamSetMemory0_def dmaStreamSetTransactionSize_def dmaStreamSetMode_def dmaStreamEnable_def upd_channel_def
      split: if_splits)

lemma start_conversion_returns: "\<exists>d'. adcStartConversion hw grpp samples depth d = Some d'"
  by (simp add: adcStartConversion_def adcStartConversionI_def adc_lld_start_conversion_def Let_def)

section \<open>The life of a conversion\<close>

lemma full_code_linear:
  assumes "adc_stops hw" "cb_passive cb" "ad_grpp d = Some grpp" "\<not> circular grpp"
    "ad_stream d < length (channels (ad_dma d))"
  shows "\<exists>d'. adc_isr_full_code hw cb d = Some d' \<and> ad_state d' = ADC_READY \<and> ad_grpp d' = None \<and>
    ad_calls d' = ad_calls d @ (if has_end_cb grpp then [EndCb 0 (ad_depth d)] else []) \<and>
    \<not> stream_enabled (ad_stream d) (ad_dma d')"
proof -
  obtain a where s: "adc_lld_stop_conversion hw d =
      Some (d\<lparr>ad_dma := dmaStreamDisable (ad_stream d) (ad_dma d), ad_adc := a\<rparr>)"
    using stop_conversion_returns [OF assms(1)] by blast
  show ?thesis
    using assms(2-5) dmaStreamDisable_off [OF assms(5)]
    by (simp add: adc_isr_full_code_def s cb_passive_def invoke_cb_def Let_def)
qed

text \<open>
  C8: a one-shot conversion runs to completion.  Whatever state the driver was in, once a
  conversion is started on a non-circular group, the transfer-complete interrupt returns, calls
  the group's end callback exactly once with the whole buffer, disables the stream and leaves
  the driver ready with no group; a second transfer-complete interrupt then changes nothing.
\<close>

theorem adc_conversion_completes:
  assumes "adc_stops hw" "cb_passive cb" "\<not> circular grpp" "has_end_cb grpp"
    "ad_stream d < length (channels (ad_dma d))"
    "flags AND STM32_DMA_ISR_TEIF = 0" "flags AND STM32_DMA_ISR_TCIF \<noteq> 0"
  shows "\<exists>d1 d2. adcStartConversion hw grpp samples depth d = Some d1 \<and> ad_state d1 = ADC_ACTIVE \<and>
    adc_lld_serve_rx_interrupt hw cb flags d1 = Some d2 \<and>
    ad_state d2 = ADC_READY \<and> ad_grpp d2 = None \<and> ad_calls d2 = ad_calls d @ [EndCb 0 depth] \<and>
    \<not> stream_enabled (ad_stream d) (ad_dma d2) \<and>
    adc_lld_serve_rx_interrupt hw cb flags d2 = Some d2"
proof -
  obtain d1 where d1: "adcStartConversion hw grpp samples depth d = Some d1"
    using start_conversion_returns by blast
  note r = start_conversion_result [OF d1]
  obtain d2 where d2: "adc_isr_full_code hw cb d1 = Some d2" "ad_state d2 = ADC_READY" "ad_grpp d2 = None"
      "ad_calls d2 = ad_calls d1 @ (if has_end_cb grpp then [EndCb 0 (ad_depth d1)] else [])"
      "\<not> stream_enabled (ad_stream d1) (ad_dma d2)"
    using full_code_linear [OF assms(1,2) r(2) assms(3)] assms(5) r(6,7) by auto
  then show ?thesis
    using d1 r assms(4,6,7) by (auto simp: adc_lld_serve_rx_interrupt_def)
qed

text \<open>
  Streaming mode hands over every sample once per turn of the circular buffer: with an even
  depth the half-transfer interrupt reports the first half, the transfer-complete interrupt the
  second, and together they cover the buffer without overlap.
\<close>

lemma adc_streaming_covers_buffer:
  assumes "cb_passive cb" "ad_grpp d = Some grpp" "circular grpp" "has_end_cb grpp" "even (ad_depth d)" "0 < ad_depth d"
    and "\<And>c e. ad_depth (cb c e) = ad_depth e"
  shows "\<exists>d1 d2 h. adc_isr_half_code cb d = Some d1 \<and> adc_isr_full_code hw cb d1 = Some d2 \<and>
    ad_calls d2 = ad_calls d @ [EndCb 0 h, EndCb (h * num_channels grpp) h] \<and>
    {0..<h * num_channels grpp} \<union> {h * num_channels grpp..<h * num_channels grpp + h * num_channels grpp}
      = {0..<ad_depth d * num_channels grpp} \<and>
    {0..<h * num_channels grpp} \<inter> {h * num_channels grpp..<h * num_channels grpp + h * num_channels grpp} = {}"
proof -
  let ?h = "ad_depth d div 2"
  have d: "ad_depth d = 2 * ?h" "ad_depth d > 1" using assms(5,6) by (auto elim: evenE)
  let ?d1 = "invoke_cb cb (EndCb 0 ?h) d"
  have "adc_isr_half_code cb d = Some ?d1" using assms(2,4) by (simp add: adc_isr_half_code_def)
  moreover have f: "ad_grpp ?d1 = Some grpp" "ad_depth ?d1 = ad_depth d" "ad_calls ?d1 = ad_calls d @ [EndCb 0 ?h]"
    using assms(1,2,7) by (simp_all add: invoke_cb_def cb_passive_def)
  moreover have "adc_isr_full_code hw cb ?d1 = Some (invoke_cb cb (EndCb (?h * num_channels grpp) ?h) ?d1)"
    using f assms(3,4) d(2) by (simp add: adc_isr_full_code_def Let_def)
  moreover have "ad_calls (invoke_cb cb (EndCb (?h * num_channels grpp) ?h) ?d1)
      = ad_calls d @ [EndCb 0 ?h, EndCb (?h * num_channels grpp) ?h]"
    using assms(1) f(3) by (simp add: invoke_cb_def [of cb "EndCb (?h * num_channels grpp) ?h"] cb_passive_def)
  moreover have "?h * num_channels grpp + ?h * num_channels grpp = ad_depth d * num_channels grpp"
    by (subst (3) d(1)) (simp add: distrib_right)
  ultimately show ?thesis
    by (intro exI [of _ ?d1] exI [of _ "invoke_cb cb (EndCb (?h * num_channels grpp) ?h) ?d1"] exI [of _ ?h])
      (auto simp: ivl_disj_un_two)
qed

text \<open>
  An overrun and an analog watchdog flag raised together fault: the overrun branch clears
  the group, and the watchdog branch then dereferences it.
\<close>

lemma adc_overrun_with_watchdog_faults:
  assumes "adc_stops hw" "cb_passive cb" "ad_grpp d = Some grpp"
    "adc_ISR (ad_adc d) AND ADC_ISR_OVR \<noteq> 0" "adc_ISR (ad_adc d) AND ADC_ISR_AWD \<noteq> 0"
    "0 < dmaStreamGetTransactionSize (ad_stream d) (ad_dma d)"
  shows "adc_lld_serve_interrupt hw cb d = None"
proof -
  let ?d = "d\<lparr>ad_adc := hw_adc_ISR hw (adc_ISR (ad_adc d)) (ad_adc d)\<rparr>"
  obtain a where s: "adc_lld_stop_conversion hw ?d =
      Some (?d\<lparr>ad_dma := dmaStreamDisable (ad_stream ?d) (ad_dma ?d), ad_adc := a\<rparr>)"
    using stop_conversion_returns [OF assms(1)] by blast
  obtain d1 where d1: "adc_isr_error_code hw cb ADC_ERR_OVERFLOW ?d = Some d1" "ad_grpp d1 = None"
    using assms(3) by (simp add: adc_isr_error_code_def s Let_def)
  obtain b where s1: "adc_lld_stop_conversion hw d1 =
      Some (d1\<lparr>ad_dma := dmaStreamDisable (ad_stream d1) (ad_dma d1), ad_adc := b\<rparr>)"
    using stop_conversion_returns [OF assms(1)] by blast
  have "adc_isr_error_code hw cb ADC_ERR_AWD d1 = None"
    using d1(2) by (simp add: adc_isr_error_code_def s1)
  then show ?thesis
    using assms(3-6) d1(1) by (simp add: adc_lld_serve_interrupt_def Let_def)
qed

section \<open>The driver's state machine\<close>

text \<open>
  Steps of the running driver, each with the state the code asserts for it; \<open>hw\<close> and \<open>cb\<close> are
  the converter and the group's callbacks.
\<close>

inductive adc_step :: "adc_hw \<Rightarrow> adc_cb \<Rightarrow> ADCDriver \<Rightarrow> ADCDriver \<Rightarrow> bool" for hw cb where
  start: "ad_state d \<in> {ADC_STOP, ADC_READY} \<Longrightarrow> adcStart hw cfg d = Some d' \<Longrightarrow> adc_step hw cb d d'"
| stop: "ad_state d \<in> {ADC_STOP, ADC_READY} \<Longrightarrow> adcStop hw d = Some d' \<Longrightarrow> adc_step hw cb d d'"
| convert: "ad_state d = ADC_READY \<Longrightarrow> adcStartConversion hw grpp samples depth d = Some d' \<Longrightarrow>
    adc_step hw cb d d'"
| halt: "ad_state d \<in> {ADC_READY, ADC_ACTIVE} \<Longrightarrow> adcStopConversion hw d = Some d' \<Longrightarrow> adc_step hw cb d d'"
| dma_irq: "adc_lld_serve_rx_interrupt hw cb flags d = Some d' \<Longrightarrow> adc_step hw cb d d'"
| adc_irq: "adc_lld_serve_interrupt hw cb d = Some d' \<Longrightarrow> adc_step hw cb d d'"

inductive_cases adc_stepE: "adc_step hw cb d d'"

definition adc_inv :: "ADCDriver \<Rightarrow> bool" where
  "adc_inv d \<longleftrightarrow> ad_state d \<in> {ADC_STOP, ADC_READY, ADC_ACTIVE} \<and> (ad_grpp d \<noteq> None \<longleftrightarrow> ad_state d = ADC_ACTIVE)"

lemma stop_conversion_frame:
  assumes "adc_lld_stop_conversion hw d = Some d'"
  shows "ad_state d' = ad_state d" "ad_grpp d' = ad_grpp d" "ad_calls d' = ad_calls d"
  using assms by (auto simp: adc_lld_stop_conversion_def Let_def bind_eq_Some_conv)

lemma error_code_inv:
  assumes "cb_passive cb" "adc_isr_error_code hw cb err d = Some d'"
  shows "ad_state d' = ADC_READY" "ad_grpp d' = None"
  using assms
  by (auto simp: adc_isr_error_code_def Let_def bind_eq_Some_conv cb_passive_def invoke_cb_def split: if_splits)

lemma full_code_inv:
  assumes "cb_passive cb" "adc_isr_full_code hw cb d = Some d'" "adc_inv d"
  shows "adc_inv d'"
proof -
  obtain grpp where g: "ad_grpp d = Some grpp"
    using assms(2) by (auto simp: adc_isr_full_code_def bind_eq_Some_conv)
  show ?thesis
  proof (cases "circular grpp")
    case True
    then show ?thesis using assms g
      by (auto simp: adc_isr_full_code_def adc_inv_def cb_passive_def invoke_cb_def Let_def split: if_splits)
  next
    case False
    then show ?thesis using assms g
      by (auto simp: adc_isr_full_code_def adc_inv_def cb_passive_def invoke_cb_def Let_def bind_eq_Some_conv
          split: if_splits)
  qed
qed


section \<open>A converter and a group to evaluate the driver on\<close>

definition sample_adc :: adc_hw where
  "sample_adc = \<lparr>
     hw_adc_CR = (\<lambda>v a. if bit v 4 then a\<lparr>adc_CR := unset_bit 2 (unset_bit 4 v)\<rparr>
                        else a\<lparr>adc_CR := v, adc_ISR := set_bit 0 (adc_ISR a)\<rparr>),
     hw_adc_ISR = (\<lambda>v a. a\<lparr>adc_ISR := adc_ISR a AND NOT v\<rparr>),
     adc_poll = (\<lambda>a. a)\<rparr>"

lemma sample_adc_stops: "adc_stops sample_adc"
proof -
  have "unset_bit 2 (unset_bit 4 w) AND 0x10 = 0" for w :: u32
    using stream_bit [of 4 "unset_bit 2 (unset_bit 4 w)"] by (simp add: bit_unset_bit_iff)
  then show ?thesis
    by (auto simp: adc_stops_def sample_adc_def bit_or_iff intro!: exI [of _ 0])
qed

definition sample_group :: ADCConversionGroup where
  "sample_group = \<lparr>circular = False, num_channels = 4, has_end_cb = True, has_error_cb = True,
     grp_cfgr1 = 0, grp_tr = 0, grp_smpr = 3, grp_chselr = 0x2E0\<rparr>"

definition sample_adcd :: ADCDriver where
  "sample_adcd = \<lparr>ad_state = ADC_READY, ad_config = None, ad_samples = None, ad_depth = 0, ad_grpp = None,
     ad_adc = \<lparr>adc_ISR = 0, adc_IER = 0, adc_CR = 1, adc_CFGR1 = 0, adc_CFGR2 = 0, adc_TR = 0, adc_SMPR = 0,
       adc_CHSELR = 0, adc_CCR = 0\<rparr>,
     ad_dma = dma_reset, ad_stream = 0, ad_dmamode = 0x258A, ad_clock = True, ad_calls = []\<rparr>"

lemma passive_id: "cb_passive (\<lambda>c d. d)"
  by (simp add: cb_passive_def)

lemma sample_adcd_channels: "length (channels (ad_dma sample_adcd)) = 5" "ad_stream sample_adcd = 0" "ad_calls sample_adcd = []"
  by (simp_all add: sample_adcd_def dma_reset_def dmaInit_def)

theorem adc_conversion_completes_witness:
  "\<exists>d1 d2. adcStartConversion sample_adc sample_group 64 1 sample_adcd = Some d1 \<and>
     adc_lld_serve_rx_interrupt sample_adc (\<lambda>c d. d) 2 d1 = Some d2 \<and> ad_calls d2 = [EndCb 0 1]"
  using adc_conversion_completes [OF sample_adc_stops passive_id, of sample_group sample_adcd 2 64 1]
  by (auto simp: sample_group_def sample_adcd_channels)


end
