(* ===== verification/Wdg.thy ===== *)
theory Wdg
  imports Prelude
begin

text \<open>
  The watchdog driver, \<^verbatim>\<open>os/hal/src/wdg.c\<close> and \<^verbatim>\<open>os/hal/ports/STM32/LLD/xWDGv1/wdg_lld.[ch]\<close> in the
  windowed variant of the STM32F042.  \<open>KR\<close> keeps the keys written to the key register, oldest
  first; how the peripheral updates its status register between two polls is a parameter.
\<close>

datatype wdgstate_t = WDG_UNINIT | WDG_STOP | WDG_READY

record WDGConfig =
  wc_pr :: u32
  wc_rlr :: u32
  wc_winr :: u32

record IWDG_TypeDef =
  KR :: "u32 list"
  PR :: u32
  RLR :: u32
  SR :: u32
  WINR :: u32

record WDGDriver =
  wd_state :: wdgstate_t
  wd_config :: "WDGConfig option"
  wdg :: IWDG_TypeDef

abbreviation (input) KR_KEY_RELOAD :: u32 where "KR_KEY_RELOAD \<equiv> 0xAAAA"
abbreviation (input) KR_KEY_ENABLE :: u32 where "KR_KEY_ENABLE \<equiv> 0xCCCC"
abbreviation (input) KR_KEY_WRITE :: u32 where "KR_KEY_WRITE \<equiv> 0x5555"

definition write_KR :: "u32 \<Rightarrow> IWDG_TypeDef \<Rightarrow> IWDG_TypeDef" where
  "write_KR k w = w\<lparr>KR := KR w @ [k]\<rparr>"

partial_function (option) wait_sr :: "(IWDG_TypeDef \<Rightarrow> IWDG_TypeDef) \<Rightarrow> IWDG_TypeDef \<Rightarrow> IWDG_TypeDef option" where
  "wait_sr poll w = (if SR w \<noteq> 0 then wait_sr poll (poll w) else Some w)"

definition wdg_lld_init :: "WDGDriver \<Rightarrow> WDGDriver" where
  "wdg_lld_init d = d\<lparr>wd_state := WDG_STOP\<rparr>"

definition wdg_lld_start :: "(IWDG_TypeDef \<Rightarrow> IWDG_TypeDef) \<Rightarrow> WDGDriver \<Rightarrow> WDGDriver option" where
  "wdg_lld_start poll d =
     do {
       config \<leftarrow> wd_config d;
       let w = write_KR KR_KEY_WRITE (write_KR KR_KEY_ENABLE (wdg d));
       let w = w\<lparr>PR := wc_pr config, RLR := wc_rlr config\<rparr>;
       w \<leftarrow> wait_sr poll w;
       Some (d\<lparr>wdg := w\<lparr>WINR := wc_winr config\<rparr>\<rparr>)
     }"

definition wdg_lld_stop :: "WDGDriver \<Rightarrow> WDGDriver" where "wdg_lld_stop d = d"

definition wdg_lld_reset :: "WDGDriver \<Rightarrow> WDGDriver" where
  "wdg_lld_reset d = d\<lparr>wdg := write_KR KR_KEY_RELOAD (wdg d)\<rparr>"

definition wdgInit :: "WDGDriver \<Rightarrow> WDGDriver" where "wdgInit d = wdg_lld_init d"

definition wdgStart :: "(IWDG_TypeDef \<Rightarrow> IWDG_TypeDef) \<Rightarrow> WDGConfig \<Rightarrow> WDGDriver \<Rightarrow> WDGDriver option" where
  "wdgStart poll config d =
     do { d \<leftarrow> wdg_lld_start poll (d\<lparr>wd_config := Some config\<rparr>); Some (d\<lparr>wd_state := WDG_READY\<rparr>) }"

definition wdgStop :: "WDGDriver \<Rightarrow> WDGDriver" where
  "wdgStop d = (wdg_lld_stop d)\<lparr>wd_state := WDG_STOP\<rparr>"

definition wdgReset :: "WDGDriver \<Rightarrow> WDGDriver" where "wdgReset d = wdg_lld_reset d"

definition reload_count :: "WDGDriver \<Rightarrow> nat" where
  "reload_count d = length (filter (\<lambda>k. k = KR_KEY_RELOAD) (KR (wdg d)))"

lemma reload_count_reset [simp]: "reload_count (wdgReset d) = reload_count d + 1"
  by (simp add: reload_count_def wdgReset_def wdg_lld_reset_def write_KR_def)

lemma wait_sr_returns:
  "SR ((poll ^^ n) w) = 0 \<Longrightarrow> \<exists>k \<le> n. wait_sr poll w = Some ((poll ^^ k) w)"
proof (induction n arbitrary: w)
  case 0
  then show ?case by (simp add: wait_sr.simps)
next
  case (Suc n)
  show ?case
  proof (cases "SR w = 0")
    case True
    then show ?thesis by (intro exI [of _ 0]) (simp add: wait_sr.simps)
  next
    case False
    have "SR ((poll ^^ n) (poll w)) = 0" using Suc.prems by (simp only: funpow_Suc_right o_apply)
    then obtain k where "k \<le> n" "wait_sr poll (poll w) = Some ((poll ^^ k) (poll w))" using Suc.IH by blast
    then show ?thesis using False
      by (intro exI [of _ "Suc k"]) (subst wait_sr.simps, simp add: funpow_swap1)
  qed
qed

text \<open>
  Starting the watchdog ends and programs it.  If the peripheral finishes its register
  update after some number of polls (and leaves the programmed values alone), \<open>wdgStart\<close> returns
  with the enable key and then the write key given, and prescaler, reload value and window as
  configured; every reset afterwards writes the reload key.
\<close>

lemma wdgStart_programs:
  assumes "\<And>w. PR (poll w) = PR w \<and> RLR (poll w) = RLR w \<and> KR (poll w) = KR w"
    and "\<And>w. \<exists>n. SR ((poll ^^ n) w) = 0"
  shows "\<exists>d'. wdgStart poll config d = Some d' \<and> wd_state d' = WDG_READY \<and>
    PR (wdg d') = wc_pr config \<and> RLR (wdg d') = wc_rlr config \<and> WINR (wdg d') = wc_winr config \<and>
    KR (wdg d') = KR (wdg d) @ [KR_KEY_ENABLE, KR_KEY_WRITE] \<and>
    (\<forall>n. reload_count ((wdgReset ^^ n) d') = reload_count d' + n)"
proof -
  let ?w = "(write_KR KR_KEY_WRITE (write_KR KR_KEY_ENABLE (wdg d)))\<lparr>PR := wc_pr config, RLR := wc_rlr config\<rparr>"
  obtain n where "SR ((poll ^^ n) ?w) = 0" using assms(2) by blast
  then obtain k where k: "wait_sr poll ?w = Some ((poll ^^ k) ?w)" using wait_sr_returns by blast
  have inv: "PR ((poll ^^ k) w) = PR w \<and> RLR ((poll ^^ k) w) = RLR w \<and> KR ((poll ^^ k) w) = KR w" for w
    by (induction k) (simp_all add: assms(1))
  have "reload_count ((wdgReset ^^ m) e) = reload_count e + m" for m e
    by (induction m) simp_all
  then show ?thesis
    using k inv [of ?w]
    by (simp add: wdgStart_def wdg_lld_start_def Let_def write_KR_def)
qed

end
