(* ===== verification/Ring.thy ===== *)
theory Ring
  imports Prelude
begin

text \<open>
  Circular buffers.  The queues, mailboxes and buffer queues of the system keep a memory area, a
  read and a write position and a counter; what they hold is the list \<open>ring buf rd n\<close> of the
  \<open>n\<close> cells from the read position on.  \<open>bounded_fifo\<close> is the contract their clients rely on.
\<close>

definition ring :: "'a list \<Rightarrow> nat \<Rightarrow> nat \<Rightarrow> 'a list" where
  "ring buf rd n = map (\<lambda>i. buf ! ((rd + i) mod length buf)) [0..<n]"

text \<open>The pointer increments and decrements with wrap-around, as the code writes them.\<close>

definition ptr_next :: "nat \<Rightarrow> nat \<Rightarrow> nat" where
  "ptr_next sz p = (if p + 1 \<ge> sz then 0 else p + 1)"

definition ptr_prev :: "nat \<Rightarrow> nat \<Rightarrow> nat" where
  "ptr_prev sz p = (if p = 0 then sz - 1 else p - 1)"

lemma ptr_next_mod: "p < sz \<Longrightarrow> ptr_next sz p = (p + 1) mod sz"
  by (auto simp: ptr_next_def mod_if)

lemma ptr_next_less [simp]: "0 < sz \<Longrightarrow> ptr_next sz p < sz"
  by (simp add: ptr_next_def)

lemma ptr_next_add: "0 < sz \<Longrightarrow> ptr_next sz ((rd + n) mod sz) = (rd + Suc n) mod sz"
  by (simp add: ptr_next_mod mod_Suc_eq)

lemma ptr_prev_less [simp]: "p < sz \<Longrightarrow> ptr_prev sz p < sz"
  by (auto simp: ptr_prev_def)

lemma ptr_next_prev: "p < sz \<Longrightarrow> ptr_next sz (ptr_prev sz p) = p"
  by (auto simp: ptr_next_def ptr_prev_def)

lemma ring_0 [simp]: "ring buf rd 0 = []"
  by (simp add: ring_def)

lemma length_ring [simp]: "length (ring buf rd n) = n"
  by (simp add: ring_def)

lemma ring_index_inj:
  assumes "i < (n :: nat)" "j < n" "(rd + i) mod n = (rd + j) mod n"
  shows "i = j"
proof -
  have "n dvd (rd + j) - (rd + i)" if "(rd + i) mod n = (rd + j) mod n" "i \<le> j" for i j
    using that by (metis mod_eq_dvd_iff_nat add_le_cancel_left)
  then have "n dvd j - i" "n dvd i - j" using assms(3) by (cases "i \<le> j"; fastforce)+
  then show ?thesis using assms(1,2) by (auto dest!: dvd_imp_le)
qed

lemma ring_store:
  assumes "n < length buf"
  shows "ring (buf[(rd + n) mod length buf := b]) rd (Suc n) = ring buf rd n @ [b]"
proof -
  have "(rd + n) mod length buf \<noteq> (rd + i) mod length buf" if "i < n" for i
    using ring_index_inj [of n "length buf" i rd] that assms by auto
  moreover have "(rd + n) mod length buf < length buf" using assms by (intro mod_less_divisor) linarith
  ultimately show ?thesis by (simp add: ring_def)
qed

lemma ring_Suc: "ring buf rd (Suc n) = buf ! (rd mod length buf) # ring buf (rd + 1) n"
  unfolding ring_def by (simp add: upt_conv_Cons map_Suc_upt [symmetric] del: upt_Suc)

lemma ring_mod: "ring buf (rd mod length buf) n = ring buf rd n"
  by (simp add: ring_def mod_add_left_eq)

lemma ring_take:
  assumes "rd < length buf"
  shows "ring buf rd (Suc n) = buf ! rd # ring buf (ptr_next (length buf) rd) n"
  using assms ring_mod [of buf "rd + 1" n] by (simp add: ring_Suc ptr_next_mod)

lemma ring_push_front:
  assumes "rd < length buf" "n < length buf"
  shows "ring (buf[ptr_prev (length buf) rd := b]) (ptr_prev (length buf) rd) (Suc n) = b # ring buf rd n"
proof -
  let ?p = "ptr_prev (length buf) rd"
  have p: "?p < length buf" using assms(1) by simp
  have "ring (buf[?p := b]) rd n = ring buf rd n"
  proof -
    have "?p \<noteq> (rd + i) mod length buf" if "i < n" for i
    proof
      assume e: "?p = (rd + i) mod length buf"
      have "(rd + (length buf - 1)) mod length buf = ?p"
        using assms(1) by (cases rd) (auto simp: ptr_prev_def mod_if)
      then have "i = length buf - 1"
        using e that assms ring_index_inj [of i "length buf" "length buf - 1" rd] by auto
      then show False using that assms(2) by simp
    qed
    then show ?thesis by (auto simp: ring_def nth_list_update_neq)
  qed
  then show ?thesis
    using ring_take [of ?p "buf[?p := b]" n] p ptr_next_prev [OF assms(1)] by simp
qed

section \<open>The bounded queue contract\<close>

locale bounded_fifo =
  fixes inv :: "'q \<Rightarrow> bool"
    and content :: "'q \<Rightarrow> 'a list"
    and cap :: "'q \<Rightarrow> nat"
    and put :: "'a \<Rightarrow> 'q \<Rightarrow> 'q"
    and get :: "'q \<Rightarrow> 'a \<times> 'q"
  assumes bound: "inv q \<Longrightarrow> length (content q) \<le> cap q"
    and put_ok: "inv q \<Longrightarrow> length (content q) < cap q \<Longrightarrow>
      inv (put b q) \<and> content (put b q) = content q @ [b] \<and> cap (put b q) = cap q"
    and get_ok: "inv q \<Longrightarrow> content q \<noteq> [] \<Longrightarrow>
      inv (snd (get q)) \<and> content q = fst (get q) # content (snd (get q)) \<and> cap (snd (get q)) = cap q"
begin

text \<open>A schedule of producer and consumer: \<open>Some b\<close> offers \<open>b\<close>, \<open>None\<close> asks for an element.\<close>

fun run :: "'a option list \<Rightarrow> 'q \<Rightarrow> 'a list \<times> 'a list \<times> 'q" where
  "run [] q = ([], [], q)"
| "run (Some b # ops) q =
     (if length (content q) < cap q
      then (let (xs, ys, q') = run ops (put b q) in (b # xs, ys, q'))
      else run ops q)"
| "run (None # ops) q =
     (if content q = [] then run ops q
      else (let (xs, ys, q') = run ops (snd (get q)) in (xs, fst (get q) # ys, q')))"

text \<open>What went in comes out, once and in order; what has not come out yet is the content.\<close>

lemma run_fifo:
  "inv q \<Longrightarrow> run ops q = (xs, ys, q') \<Longrightarrow> inv q' \<and> content q @ xs = ys @ content q' \<and> length (content q') \<le> cap q"
proof (induction ops q arbitrary: xs ys q' rule: run.induct)
  case (1 q)
  then show ?case by (simp add: bound)
next
  case (2 b ops q)
  show ?case
  proof (cases "length (content q) < cap q")
    case True
    then obtain xs1 where 1: "run ops (put b q) = (xs1, ys, q')" "xs = b # xs1"
      using "2.prems" by (auto split: prod.splits)
    show ?thesis using "2.IH"(1) [OF True _ 1(1)] put_ok [OF "2.prems"(1) True] 1(2) by simp
  next
    case False
    then show ?thesis using "2.IH"(2) "2.prems" by simp
  qed
next
  case (3 ops q)
  show ?case
  proof (cases "content q = []")
    case True
    then show ?thesis using "3.IH"(1) "3.prems" by simp
  next
    case False
    then obtain ys1 where 1: "run ops (snd (get q)) = (xs, ys1, q')" "ys = fst (get q) # ys1"
      using "3.prems" by (auto split: prod.splits)
    have g: "inv (snd (get q))" "content q = fst (get q) # content (snd (get q))" "cap (snd (get q)) = cap q"
      using get_ok [OF "3.prems"(1) False] by auto
    have "content (snd (get q)) @ xs = ys1 @ content q'" "inv q'" "length (content q') \<le> cap q"
      using "3.IH"(2) [OF False g(1) 1(1)] g(3) by auto
    then show ?thesis by (subst g(2)) (simp add: 1(2))
  qed
qed

end

end
