(* ===== verification/Queues.thy ===== *)
theory Queues
  imports Ring
begin

text \<open>
  The byte queues of the kernel, \<^verbatim>\<open>os/rt/src/chqueues.c\<close> and \<^verbatim>\<open>os/rt/include/chqueues.h\<close>.  Positions are
  offsets into the buffer, whose length is the size of the queue; \<open>q_resumed\<close> logs the threads
  taken off the waiting list with the message they are resumed with.

  The calls that may block belong to a driver state \<open>'s\<close> that owns the queue: they take the
  access function and the update function of the queue in that state, the notification
  callback, and a script of wakeups.  An entry of the script is the message a blocked thread is
  resumed with and what happened to the state meanwhile; \<open>None\<close> is a thread that is never
  resumed.
\<close>

record io_queue =
  q_waiting :: "nat list"
  q_counter :: nat
  q_buffer :: "u8 list"
  q_wrptr :: nat
  q_rdptr :: nat
  q_resumed :: "(nat \<times> msg_t) list"

abbreviation (input) Q_OK :: msg_t where "Q_OK \<equiv> MSG_OK"
abbreviation (input) Q_TIMEOUT :: msg_t where "Q_TIMEOUT \<equiv> MSG_TIMEOUT"
abbreviation (input) Q_RESET :: msg_t where "Q_RESET \<equiv> MSG_RESET"
abbreviation (input) Q_EMPTY :: msg_t where "Q_EMPTY \<equiv> - 3"
abbreviation (input) Q_FULL :: msg_t where "Q_FULL \<equiv> - 4"

type_synonym 's script = "(msg_t \<times> ('s \<Rightarrow> 's)) list"

section \<open>Waiting threads\<close>

definition chThdDequeueNextI :: "msg_t \<Rightarrow> io_queue \<Rightarrow> io_queue" where
  "chThdDequeueNextI msg q = (case q_waiting q of [] \<Rightarrow> q
     | t # ts \<Rightarrow> q\<lparr>q_waiting := ts, q_resumed := q_resumed q @ [(t, msg)]\<rparr>)"

definition chThdDequeueAllI :: "msg_t \<Rightarrow> io_queue \<Rightarrow> io_queue" where
  "chThdDequeueAllI msg q =
     q\<lparr>q_waiting := [], q_resumed := q_resumed q @ map (\<lambda>t. (t, msg)) (q_waiting q)\<rparr>"

definition enqueue_self :: "nat \<Rightarrow> io_queue \<Rightarrow> io_queue" where
  "enqueue_self self q = q\<lparr>q_waiting := q_waiting q @ [self]\<rparr>"

text \<open>
  The waiting loop: while \<open>blocked\<close>, \<open>chThdEnqueueTimeoutS\<close>; it stops early on a message for
  which \<open>fails\<close> holds.
\<close>

fun wait_while :: "(msg_t \<Rightarrow> bool) \<Rightarrow> ('s \<Rightarrow> bool) \<Rightarrow> ('s \<Rightarrow> 's) \<Rightarrow> systime_t \<Rightarrow> 's script \<Rightarrow> 's \<Rightarrow>
    (msg_t \<times> 's script \<times> 's) option" where
  "wait_while fails blocked enq timeout ws s =
     (if \<not> blocked s then Some (MSG_OK, ws, s)
      else if timeout = TIME_IMMEDIATE then Some (MSG_TIMEOUT, ws, s)
      else (case ws of [] \<Rightarrow> None
            | (m, env) # ws' \<Rightarrow>
                if fails m then Some (m, ws', env (enq s))
                else wait_while fails blocked enq timeout ws' (env (enq s))))"

declare wait_while.simps [simp del]

section \<open>Input queues\<close>

definition chIQObjectInit :: "u8 list \<Rightarrow> io_queue" where
  "chIQObjectInit bp = \<lparr>q_waiting = [], q_counter = 0, q_buffer = bp, q_wrptr = 0, q_rdptr = 0, q_resumed = []\<rparr>"

definition chQSizeX :: "io_queue \<Rightarrow> nat" where "chQSizeX q = length (q_buffer q)"
definition chQSpaceI :: "io_queue \<Rightarrow> nat" where "chQSpaceI q = q_counter q"

definition chIQGetFullI :: "io_queue \<Rightarrow> nat" where "chIQGetFullI q = chQSpaceI q"
definition chIQGetEmptyI :: "io_queue \<Rightarrow> nat" where "chIQGetEmptyI q = chQSizeX q - chQSpaceI q"
definition chIQIsEmptyI :: "io_queue \<Rightarrow> bool" where "chIQIsEmptyI q \<longleftrightarrow> chQSpaceI q = 0"
definition chIQIsFullI :: "io_queue \<Rightarrow> bool" where
  "chIQIsFullI q \<longleftrightarrow> q_wrptr q = q_rdptr q \<and> q_counter q \<noteq> 0"

definition chIQResetI :: "io_queue \<Rightarrow> io_queue" where
  "chIQResetI q = chThdDequeueAllI Q_RESET (q\<lparr>q_rdptr := 0, q_wrptr := 0, q_counter := 0\<rparr>)"

definition chIQPutI :: "u8 \<Rightarrow> io_queue \<Rightarrow> msg_t \<times> io_queue" where
  "chIQPutI b q =
     (if chIQIsFullI q then (Q_FULL, q)
      else (Q_OK, chThdDequeueNextI Q_OK
             (q\<lparr>q_counter := q_counter q + 1, q_buffer := (q_buffer q)[q_wrptr q := b],
                q_wrptr := ptr_next (chQSizeX q) (q_wrptr q)\<rparr>)))"

text \<open>Taking the byte under the read pointer, shared by the two read calls.\<close>

definition iq_take :: "io_queue \<Rightarrow> u8 \<times> io_queue" where
  "iq_take q = (q_buffer q ! q_rdptr q,
     q\<lparr>q_counter := q_counter q - 1, q_rdptr := ptr_next (chQSizeX q) (q_rdptr q)\<rparr>)"

definition chIQGetTimeout :: "('s \<Rightarrow> io_queue) \<Rightarrow> ((io_queue \<Rightarrow> io_queue) \<Rightarrow> 's \<Rightarrow> 's) \<Rightarrow> ('s \<Rightarrow> 's) option \<Rightarrow>
    nat \<Rightarrow> systime_t \<Rightarrow> 's script \<Rightarrow> 's \<Rightarrow> (msg_t \<times> 's script \<times> 's) option" where
  "chIQGetTimeout qf upd nfy self timeout ws s0 =
     do {
       let s = (case nfy of None \<Rightarrow> s0 | Some f \<Rightarrow> f s0);
       (m, ws, s) \<leftarrow> wait_while (\<lambda>m. m < Q_OK) (\<lambda>s. chIQIsEmptyI (qf s)) (upd (enqueue_self self)) timeout ws s;
       if m < Q_OK then Some (m, ws, s)
       else Some (uint (fst (iq_take (qf s))), ws, upd (\<lambda>q. snd (iq_take q)) s)
     }"

text \<open>
  Reading a block: the lock is released after each byte, where \<open>preempt\<close> happens.  The result
  is the bytes stored through \<^verbatim>\<open>bp\<close>; their number is the value the call returns.  The length 0
  is reserved.
\<close>

fun chIQReadTimeout :: "('s \<Rightarrow> io_queue) \<Rightarrow> ((io_queue \<Rightarrow> io_queue) \<Rightarrow> 's \<Rightarrow> 's) \<Rightarrow> ('s \<Rightarrow> 's) option \<Rightarrow>
    ('s \<Rightarrow> 's) \<Rightarrow> nat \<Rightarrow> nat \<Rightarrow> systime_t \<Rightarrow> 's script \<Rightarrow> 's \<Rightarrow> (u8 list \<times> 's script \<times> 's) option" where
  "chIQReadTimeout qf upd nfy preempt self 0 timeout ws s0 = None"
| "chIQReadTimeout qf upd nfy preempt self (Suc n) timeout ws s0 =
     do {
       let s = (case nfy of None \<Rightarrow> s0 | Some f \<Rightarrow> f s0);
       (m, ws, s) \<leftarrow> wait_while (\<lambda>m. m \<noteq> Q_OK) (\<lambda>s. chIQIsEmptyI (qf s)) (upd (enqueue_self self)) timeout ws s;
       if m \<noteq> Q_OK then Some ([], ws, s)
       else do {
         let b = fst (iq_take (qf s));
         let s = preempt (upd (\<lambda>q. snd (iq_take q)) s);
         if n = 0 then Some ([b], ws, s)
         else do {
           (bs, ws, s) \<leftarrow> chIQReadTimeout qf upd nfy preempt self n timeout ws s;
           Some (b # bs, ws, s)
         }
       }
     }"

section \<open>Output queues\<close>

definition chOQObjectInit :: "u8 list \<Rightarrow> io_queue" where
  "chOQObjectInit bp =
     \<lparr>q_waiting = [], q_counter = length bp, q_buffer = bp, q_wrptr = 0, q_rdptr = 0, q_resumed = []\<rparr>"

definition chOQGetFullI :: "io_queue \<Rightarrow> nat" where "chOQGetFullI q = chQSizeX q - chQSpaceI q"
definition chOQGetEmptyI :: "io_queue \<Rightarrow> nat" where "chOQGetEmptyI q = chQSpaceI q"
definition chOQIsEmptyI :: "io_queue \<Rightarrow> bool" where
  "chOQIsEmptyI q \<longleftrightarrow> q_wrptr q = q_rdptr q \<and> q_counter q \<noteq> 0"
definition chOQIsFullI :: "io_queue \<Rightarrow> bool" where "chOQIsFullI q \<longleftrightarrow> chQSpaceI q = 0"

definition chOQResetI :: "io_queue \<Rightarrow> io_queue" where
  "chOQResetI q = chThdDequeueAllI Q_RESET (q\<lparr>q_rdptr := 0, q_wrptr := 0, q_counter := chQSizeX q\<rparr>)"

text \<open>Storing a byte under the write pointer, shared by the two write calls.\<close>

definition oq_store :: "u8 \<Rightarrow> io_queue \<Rightarrow> io_queue" where
  "oq_store b q = q\<lparr>q_counter := q_counter q - 1, q_buffer := (q_buffer q)[q_wrptr q := b],
     q_wrptr := ptr_next (chQSizeX q) (q_wrptr q)\<rparr>"

definition chOQPutTimeout :: "('s \<Rightarrow> io_queue) \<Rightarrow> ((io_queue \<Rightarrow> io_queue) \<Rightarrow> 's \<Rightarrow> 's) \<Rightarrow> ('s \<Rightarrow> 's) option \<Rightarrow>
    nat \<Rightarrow> u8 \<Rightarrow> systime_t \<Rightarrow> 's script \<Rightarrow> 's \<Rightarrow> (msg_t \<times> 's script \<times> 's) option" where
  "chOQPutTimeout qf upd nfy self b timeout ws s0 =
     do {
       (m, ws, s) \<leftarrow> wait_while (\<lambda>m. m < Q_OK) (\<lambda>s. chOQIsFullI (qf s)) (upd (enqueue_self self)) timeout ws s0;
       if m < Q_OK then Some (m, ws, s)
       else do {
         let s = upd (oq_store b) s;
         Some (Q_OK, ws, case nfy of None \<Rightarrow> s | Some f \<Rightarrow> f s)
       }
     }"

definition chOQGetI :: "io_queue \<Rightarrow> msg_t \<times> io_queue" where
  "chOQGetI q =
     (if chOQIsEmptyI q then (Q_EMPTY, q)
      else (uint (q_buffer q ! q_rdptr q),
            chThdDequeueNextI Q_OK
              (q\<lparr>q_counter := q_counter q + 1, q_rdptr := ptr_next (chQSizeX q) (q_rdptr q)\<rparr>)))"

text \<open>Writing a block; the result is the number of bytes written.\<close>

fun chOQWriteTimeout :: "('s \<Rightarrow> io_queue) \<Rightarrow> ((io_queue \<Rightarrow> io_queue) \<Rightarrow> 's \<Rightarrow> 's) \<Rightarrow> ('s \<Rightarrow> 's) option \<Rightarrow>
    ('s \<Rightarrow> 's) \<Rightarrow> nat \<Rightarrow> u8 list \<Rightarrow> systime_t \<Rightarrow> 's script \<Rightarrow> 's \<Rightarrow> (nat \<times> 's script \<times> 's) option" where
  "chOQWriteTimeout qf upd nfy preempt self [] timeout ws s0 = None"
| "chOQWriteTimeout qf upd nfy preempt self (b # bs) timeout ws s0 =
     do {
       (m, ws, s) \<leftarrow> wait_while (\<lambda>m. m \<noteq> Q_OK) (\<lambda>s. chOQIsFullI (qf s)) (upd (enqueue_self self)) timeout ws s0;
       if m \<noteq> Q_OK then Some (0, ws, s)
       else do {
         let s = upd (oq_store b) s;
         let s = preempt (case nfy of None \<Rightarrow> s | Some f \<Rightarrow> f s);
         if bs = [] then Some (1, ws, s)
         else do {
           (w, ws, s) \<leftarrow> chOQWriteTimeout qf upd nfy preempt self bs timeout ws s;
           Some (w + 1, ws, s)
         }
       }
     }"

section \<open>What the queues hold\<close>

definition iq_inv :: "io_queue \<Rightarrow> bool" where
  "iq_inv q \<longleftrightarrow> 0 < chQSizeX q \<and> q_counter q \<le> chQSizeX q \<and> q_rdptr q < chQSizeX q \<and>
     q_wrptr q = (q_rdptr q + q_counter q) mod chQSizeX q"

definition iq_content :: "io_queue \<Rightarrow> u8 list" where
  "iq_content q = ring (q_buffer q) (q_rdptr q) (q_counter q)"

definition oq_inv :: "io_queue \<Rightarrow> bool" where
  "oq_inv q \<longleftrightarrow> 0 < chQSizeX q \<and> q_counter q \<le> chQSizeX q \<and> q_rdptr q < chQSizeX q \<and>
     q_wrptr q = (q_rdptr q + chOQGetFullI q) mod chQSizeX q"

definition oq_content :: "io_queue \<Rightarrow> u8 list" where
  "oq_content q = ring (q_buffer q) (q_rdptr q) (chOQGetFullI q)"

lemmas q_defs = chQSizeX_def chQSpaceI_def chIQGetFullI_def chOQGetFullI_def chIQIsEmptyI_def chOQIsFullI_def

lemma dequeue_next_simps [simp]:
  "q_counter (chThdDequeueNextI m q) = q_counter q" "q_buffer (chThdDequeueNextI m q) = q_buffer q"
  "q_wrptr (chThdDequeueNextI m q) = q_wrptr q" "q_rdptr (chThdDequeueNextI m q) = q_rdptr q"
  "q_counter (chThdDequeueAllI m q) = q_counter q" "q_buffer (chThdDequeueAllI m q) = q_buffer q"
  "q_wrptr (chThdDequeueAllI m q) = q_wrptr q" "q_rdptr (chThdDequeueAllI m q) = q_rdptr q"
  by (simp_all add: chThdDequeueNextI_def chThdDequeueAllI_def split: list.splits)

lemma enqueue_self_simps [simp]:
  "iq_content (enqueue_self t q) = iq_content q" "iq_inv (enqueue_self t q) = iq_inv q"
  "oq_content (enqueue_self t q) = oq_content q" "oq_inv (enqueue_self t q) = oq_inv q"
  by (simp_all add: enqueue_self_def iq_content_def iq_inv_def oq_content_def oq_inv_def q_defs)

lemma ring_full_ptr:
  assumes "rd < (sz :: nat)" "0 < n" "n \<le> sz"
  shows "(rd + n) mod sz = rd \<longleftrightarrow> n = sz"
  using assms ring_index_inj [of n sz 0 rd] by (cases "n = sz") auto

lemma iq_full: "iq_inv q \<Longrightarrow> chIQIsFullI q \<longleftrightarrow> q_counter q = chQSizeX q"
  using ring_full_ptr [of "q_rdptr q" "chQSizeX q" "q_counter q"]
  by (cases "q_counter q = 0") (auto simp: iq_inv_def chIQIsFullI_def)

lemma oq_empty: "oq_inv q \<Longrightarrow> chOQIsEmptyI q \<longleftrightarrow> oq_content q = []"
  using ring_full_ptr [of "q_rdptr q" "chQSizeX q" "chOQGetFullI q"]
  by (cases "chOQGetFullI q = 0") (auto simp: oq_inv_def chOQIsEmptyI_def oq_content_def ring_def chOQGetFullI_def chQSpaceI_def)

lemma iq_empty: "chIQIsEmptyI q \<longleftrightarrow> iq_content q = []"
  by (auto simp: iq_content_def ring_def q_defs)

lemma oq_full: "oq_inv q \<Longrightarrow> chOQIsFullI q \<longleftrightarrow> length (oq_content q) = chQSizeX q"
  by (auto simp: oq_inv_def oq_content_def q_defs)

lemma length_iq_content: "iq_inv q \<Longrightarrow> length (iq_content q) = q_counter q"
  by (simp add: iq_content_def)

lemma iq_put_store:
  assumes "iq_inv q" "length (iq_content q) < chQSizeX q"
  shows "chIQPutI b q = (Q_OK, snd (chIQPutI b q))" "iq_inv (snd (chIQPutI b q))"
    "iq_content (snd (chIQPutI b q)) = iq_content q @ [b]" "chQSizeX (snd (chIQPutI b q)) = chQSizeX q"
proof -
  have nf: "\<not> chIQIsFullI q" using assms iq_full [OF assms(1)] by (simp add: iq_content_def)
  then show "chIQPutI b q = (Q_OK, snd (chIQPutI b q))" by (simp add: chIQPutI_def)
  show "chQSizeX (snd (chIQPutI b q)) = chQSizeX q" using nf by (simp add: chIQPutI_def chQSizeX_def)
  show "iq_inv (snd (chIQPutI b q))"
    using assms nf by (simp add: chIQPutI_def iq_inv_def iq_content_def chQSizeX_def ptr_next_add)
  show "iq_content (snd (chIQPutI b q)) = iq_content q @ [b]"
    using assms nf ring_store [of "q_counter q" "q_buffer q" "q_rdptr q" b]
    by (simp add: chIQPutI_def iq_content_def iq_inv_def chQSizeX_def)
qed

lemma iq_put_full: "iq_inv q \<Longrightarrow> length (iq_content q) = chQSizeX q \<Longrightarrow> chIQPutI b q = (Q_FULL, q)"
  using iq_full by (simp add: chIQPutI_def iq_content_def)

lemma take_wr: "rd < sz \<Longrightarrow> 0 < n \<Longrightarrow> (rd + n) mod sz = (ptr_next sz rd + (n - 1)) mod sz"
  using mod_add_left_eq [of "rd + 1" sz "n - 1"] by (simp add: ptr_next_mod)

lemma iq_take_head:
  assumes "iq_inv q" "iq_content q \<noteq> []"
  shows "iq_inv (snd (iq_take q))" "iq_content q = fst (iq_take q) # iq_content (snd (iq_take q))"
    "chQSizeX (snd (iq_take q)) = chQSizeX q"
proof -
  have n: "0 < q_counter q" using assms(2) by (cases "q_counter q") (auto simp: iq_content_def)
  then obtain n where n': "q_counter q = Suc n" by (cases "q_counter q") auto
  show "iq_content q = fst (iq_take q) # iq_content (snd (iq_take q))"
    using assms(1) ring_take [of "q_rdptr q" "q_buffer q" n] n'
    by (simp add: iq_content_def iq_take_def iq_inv_def chQSizeX_def)
  show "iq_inv (snd (iq_take q))"
    using assms(1) n take_wr [OF _ n, of "q_rdptr q" "chQSizeX q"]
    by (simp add: iq_inv_def iq_take_def) (simp add: chQSizeX_def, linarith)
  show "chQSizeX (snd (iq_take q)) = chQSizeX q" by (simp add: iq_take_def chQSizeX_def)
qed

lemma oq_store_tail:
  assumes "oq_inv q" "length (oq_content q) < chQSizeX q"
  shows "oq_inv (oq_store b q)" "oq_content (oq_store b q) = oq_content q @ [b]" "chQSizeX (oq_store b q) = chQSizeX q"
proof -
  have c: "0 < q_counter q" "q_counter q \<le> length (q_buffer q)"
    using assms by (auto simp: oq_content_def oq_inv_def q_defs)
  then have s: "length (q_buffer q) - (q_counter q - 1) = Suc (length (q_buffer q) - q_counter q)" by simp
  show "oq_inv (oq_store b q)"
    using assms(1) c s ptr_next_add [of "length (q_buffer q)" "q_rdptr q" "length (q_buffer q) - q_counter q"]
    by (simp add: oq_inv_def oq_store_def q_defs)
  show "oq_content (oq_store b q) = oq_content q @ [b]"
    using assms c s ring_store [of "length (q_buffer q) - q_counter q" "q_buffer q" "q_rdptr q" b]
    by (simp add: oq_content_def oq_store_def oq_inv_def q_defs)
  show "chQSizeX (oq_store b q) = chQSizeX q" by (simp add: oq_store_def chQSizeX_def)
qed

lemma oq_get_head:
  assumes "oq_inv q" "oq_content q \<noteq> []"
  shows "oq_inv (snd (chOQGetI q))" "fst (chOQGetI q) = uint (hd (oq_content q))"
    "oq_content (snd (chOQGetI q)) = tl (oq_content q)" "chQSizeX (snd (chOQGetI q)) = chQSizeX q"
proof -
  have ne: "\<not> chOQIsEmptyI q" using oq_empty [OF assms(1)] assms(2) by simp
  have n: "0 < chOQGetFullI q" using assms(2) by (cases "chOQGetFullI q") (auto simp: oq_content_def)
  then obtain n where n': "length (q_buffer q) - q_counter q = Suc n" by (cases "length (q_buffer q) - q_counter q") (auto simp: q_defs)
  then have n2: "length (q_buffer q) - Suc (q_counter q) = n" by simp
  have h: "oq_content q = q_buffer q ! q_rdptr q # ring (q_buffer q) (ptr_next (length (q_buffer q)) (q_rdptr q)) n"
    using assms(1) ring_take [of "q_rdptr q" "q_buffer q" n] n' by (simp add: oq_content_def oq_inv_def q_defs)
  show "fst (chOQGetI q) = uint (hd (oq_content q))" using ne h by (simp add: chOQGetI_def)
  show "oq_content (snd (chOQGetI q)) = tl (oq_content q)"
    using ne n2 by (subst h) (simp add: chOQGetI_def oq_content_def q_defs)
  show "oq_inv (snd (chOQGetI q))"
    using assms(1) ne n' n2 take_wr [of "q_rdptr q" "length (q_buffer q)" "Suc n"]
    by (simp add: oq_inv_def chOQGetI_def q_defs)
  show "chQSizeX (snd (chOQGetI q)) = chQSizeX q" using ne by (simp add: chOQGetI_def chQSizeX_def)
qed

interpretation iq: bounded_fifo iq_inv iq_content chQSizeX "\<lambda>b q. snd (chIQPutI b q)" iq_take
proof unfold_locales
  show "iq_inv q \<Longrightarrow> length (iq_content q) \<le> chQSizeX q" for q by (simp add: iq_content_def iq_inv_def)
qed (simp_all add: iq_put_store(2-) iq_take_head(1,3) iq_take_head(2) [symmetric])

interpretation oq: bounded_fifo oq_inv oq_content chQSizeX oq_store "\<lambda>q. (word_of_int (fst (chOQGetI q)), snd (chOQGetI q))"
proof unfold_locales
  show "oq_inv q \<Longrightarrow> length (oq_content q) \<le> chQSizeX q" for q by (simp add: oq_content_def oq_inv_def q_defs)
next
  fix q assume "oq_inv q" "oq_content q \<noteq> []"
  note g = oq_get_head [OF this]
  show "oq_inv (snd (word_of_int (fst (chOQGetI q)), snd (chOQGetI q))) \<and>
    oq_content q = fst (word_of_int (fst (chOQGetI q)), snd (chOQGetI q)) # oq_content (snd (word_of_int (fst (chOQGetI q)), snd (chOQGetI q))) \<and>
    chQSizeX (snd (word_of_int (fst (chOQGetI q)), snd (chOQGetI q))) = chQSizeX q"
    using g \<open>oq_content q \<noteq> []\<close> by simp
qed (simp add: oq_store_tail)

section \<open>Byte streams through a queue\<close>

text \<open>
  The state that owns a queue.  Of the notification callback and of what happens while a call is
  blocked or preempted, a reader relies on this: bytes are only appended; a writer on this:
  bytes are only taken from the front.
\<close>

lemma wait_while_rule:
  assumes "wait_while fails blocked enq timeout ws s = Some (m, ws', s')"
    and R: "\<And>s. R s s" "\<And>s s' s''. R s s' \<Longrightarrow> R s' s'' \<Longrightarrow> R s s''" "\<And>s. R s (enq s)" "\<forall>(m, e) \<in> set ws. \<forall>s. R s (e s)"
  shows "R s s'" "set ws' \<subseteq> set ws" "m = MSG_OK \<and> \<not> blocked s' \<or> m = MSG_TIMEOUT \<or> fails m"
proof -
  have "R s s' \<and> set ws' \<subseteq> set ws \<and> (m = MSG_OK \<and> \<not> blocked s' \<or> m = MSG_TIMEOUT \<or> fails m)"
    using assms(1) R(4)
  proof (induction ws arbitrary: s)
    case Nil
    then show ?case using R(1) by (subst (asm) wait_while.simps) (auto split: if_splits)
  next
    case (Cons w ws)
    obtain m1 e where w: "w = (m1, e)" by (cases w)
    have r: "R s (e (enq s))" using R(2) [OF R(3)] Cons.prems(2) w by auto
    show ?case
    proof (cases "\<not> blocked s \<or> timeout = TIME_IMMEDIATE \<or> fails m1")
      case True
      then show ?thesis
        using Cons.prems(1) w R(1) r by (subst (asm) wait_while.simps) (auto split: if_splits)
    next
      case False
      then have "wait_while fails blocked enq timeout ws (e (enq s)) = Some (m, ws', s')"
        using Cons.prems(1) w by (subst (asm) wait_while.simps) simp
      then show ?thesis using Cons.IH [of "e (enq s)"] Cons.prems(2) R(2) [OF r] by auto
    qed
  qed
  then show "R s s'" "set ws' \<subseteq> set ws" "m = MSG_OK \<and> \<not> blocked s' \<or> m = MSG_TIMEOUT \<or> fails m" by auto
qed

locale queue_owner =
  fixes qf :: "'s \<Rightarrow> io_queue"
    and upd :: "(io_queue \<Rightarrow> io_queue) \<Rightarrow> 's \<Rightarrow> 's"
  assumes qf_upd: "qf (upd f s) = f (qf s)"
begin

definition fed :: "'s \<Rightarrow> 's \<Rightarrow> bool" where
  "fed s s' \<longleftrightarrow> (iq_inv (qf s) \<longrightarrow> iq_inv (qf s') \<and> (\<exists>xs. iq_content (qf s') = iq_content (qf s) @ xs))"

definition drained :: "'s \<Rightarrow> 's \<Rightarrow> bool" where
  "drained s s' \<longleftrightarrow> (oq_inv (qf s) \<longrightarrow> oq_inv (qf s') \<and> (\<exists>ys. oq_content (qf s) = ys @ oq_content (qf s')))"

lemma fed_preorder: "fed s s" "fed s s' \<Longrightarrow> fed s' s'' \<Longrightarrow> fed s s''" "fed s (upd (enqueue_self t) s)"
  by (auto simp: fed_def qf_upd)

lemma drained_preorder: "drained s s" "drained s s' \<Longrightarrow> drained s' s'' \<Longrightarrow> drained s s''" "drained s (upd (enqueue_self t) s)"
  by (auto simp: drained_def qf_upd)

definition reader_env :: "'s script \<Rightarrow> ('s \<Rightarrow> 's) option \<Rightarrow> ('s \<Rightarrow> 's) \<Rightarrow> bool" where
  "reader_env ws nfy preempt \<longleftrightarrow> (\<forall>(m, e) \<in> set ws. \<forall>s. fed s (e s)) \<and> (\<forall>f \<in> set_option nfy. \<forall>s. fed s (f s)) \<and>
     (\<forall>s. fed s (preempt s))"

definition writer_env :: "'s script \<Rightarrow> ('s \<Rightarrow> 's) option \<Rightarrow> ('s \<Rightarrow> 's) \<Rightarrow> bool" where
  "writer_env ws nfy preempt \<longleftrightarrow> (\<forall>(m, e) \<in> set ws. \<forall>s. drained s (e s)) \<and> (\<forall>f \<in> set_option nfy. \<forall>s. drained s (f s)) \<and>
     (\<forall>s. drained s (preempt s))"

lemma wait_fed:
  assumes "wait_while fails blocked (upd (enqueue_self t)) timeout ws s = Some (m, ws', s')" "\<forall>(m, e) \<in> set ws. \<forall>s. fed s (e s)"
  shows "fed s s'" "set ws' \<subseteq> set ws" "m = MSG_OK \<and> \<not> blocked s' \<or> m = MSG_TIMEOUT \<or> fails m"
proof -
  note W = wait_while_rule [where R = fed, OF assms(1) fed_preorder(1) _ fed_preorder(3) assms(2)]
  show "fed s s'" by (rule W(1)) (rule fed_preorder(2))
  show "set ws' \<subseteq> set ws" by (rule W(2)) (rule fed_preorder(2))
  show "m = MSG_OK \<and> \<not> blocked s' \<or> m = MSG_TIMEOUT \<or> fails m" by (rule W(3)) (rule fed_preorder(2))
qed

lemma wait_drained:
  assumes "wait_while fails blocked (upd (enqueue_self t)) timeout ws s = Some (m, ws', s')" "\<forall>(m, e) \<in> set ws. \<forall>s. drained s (e s)"
  shows "drained s s'" "set ws' \<subseteq> set ws" "m = MSG_OK \<and> \<not> blocked s' \<or> m = MSG_TIMEOUT \<or> fails m"
proof -
  note W = wait_while_rule [where R = drained, OF assms(1) drained_preorder(1) _ drained_preorder(3) assms(2)]
  show "drained s s'" by (rule W(1)) (rule drained_preorder(2))
  show "set ws' \<subseteq> set ws" by (rule W(2)) (rule drained_preorder(2))
  show "m = MSG_OK \<and> \<not> blocked s' \<or> m = MSG_TIMEOUT \<or> fails m" by (rule W(3)) (rule drained_preorder(2))
qed

lemma nfy_fed: "reader_env ws nfy preempt \<Longrightarrow> fed s (case nfy of None \<Rightarrow> s | Some f \<Rightarrow> f s)"
  by (auto simp: reader_env_def fed_preorder split: option.splits)

lemma nfy_drained: "writer_env ws nfy preempt \<Longrightarrow> drained s (case nfy of None \<Rightarrow> s | Some f \<Rightarrow> f s)"
  by (auto simp: writer_env_def drained_preorder split: option.splits)

lemma iq_get_stream:
  assumes "chIQGetTimeout qf upd nfy t timeout ws s = Some (m, ws', s')" "reader_env ws nfy preempt" "iq_inv (qf s)"
  shows "iq_inv (qf s') \<and> set ws' \<subseteq> set ws \<and>
    (\<exists>xs. iq_content (qf s) @ xs = (if m < Q_OK then [] else [word_of_int m]) @ iq_content (qf s'))"
proof -
  let ?s = "case nfy of None \<Rightarrow> s | Some f \<Rightarrow> f s"
  obtain m1 ws1 s1 where w: "wait_while (\<lambda>m. m < Q_OK) (\<lambda>s. chIQIsEmptyI (qf s)) (upd (enqueue_self t)) timeout ws ?s = Some (m1, ws1, s1)"
      and r: "if m1 < Q_OK then (m, ws', s') = (m1, ws1, s1)
        else (m, ws', s') = (uint (fst (iq_take (qf s1))), ws1, upd (\<lambda>q. snd (iq_take q)) s1)"
    using assms(1) by (auto simp: chIQGetTimeout_def bind_eq_Some_conv Let_def split: if_splits)
  note W = wait_fed [OF w]
  have e: "\<forall>(m, e) \<in> set ws. \<forall>s. fed s (e s)" using assms(2) by (simp add: reader_env_def)
  have "fed s s1" using fed_preorder(2) [OF nfy_fed [OF assms(2)] W(1) [OF e]] .
  then obtain xs where s1: "iq_inv (qf s1)" "iq_content (qf s1) = iq_content (qf s) @ xs" using assms(3) by (auto simp: fed_def)
  show ?thesis
  proof (cases "m1 < Q_OK")
    case True
    then show ?thesis using r s1 W(2) [OF e] by auto
  next
    case False
    then have ne: "iq_content (qf s1) \<noteq> []" using W(3) [OF e] by (auto simp: iq_empty)
    note h = iq_take_head [OF s1(1) ne]
    have m: "m = uint (fst (iq_take (qf s1)))" "ws' = ws1" "s' = upd (\<lambda>q. snd (iq_take q)) s1" using r False by auto
    have "iq_content (qf s) @ xs = word_of_int m # iq_content (qf s')"
      using h(2) s1(2) m by (simp add: qf_upd)
    then show ?thesis using h(1) m W(2) [OF e] by (auto simp: qf_upd)
  qed
qed

lemma iq_read_stream:
  assumes "chIQReadTimeout qf upd nfy preempt t n timeout ws s = Some (bs, ws', s')"
    "reader_env ws nfy preempt" "iq_inv (qf s)"
  shows "iq_inv (qf s') \<and> length bs \<le> n \<and> (\<exists>xs. iq_content (qf s) @ xs = bs @ iq_content (qf s'))"
  using assms
proof (induction n arbitrary: ws s bs)
  case 0
  then show ?case by simp
next
  case (Suc n)
  let ?s = "case nfy of None \<Rightarrow> s | Some f \<Rightarrow> f s"
  obtain m ws1 s1 where w: "wait_while (\<lambda>m. m \<noteq> Q_OK) (\<lambda>s. chIQIsEmptyI (qf s)) (upd (enqueue_self t)) timeout ws ?s = Some (m, ws1, s1)"
    using Suc.prems(1) by (auto simp: bind_eq_Some_conv Let_def)
  note W = wait_fed [OF w]
  have e: "\<forall>(m, e) \<in> set ws. \<forall>s. fed s (e s)" using Suc.prems(2) by (simp add: reader_env_def)
  have "fed s s1" using fed_preorder(2) [OF nfy_fed [OF Suc.prems(2)] W(1) [OF e]] .
  then obtain xs where s1: "iq_inv (qf s1)" "iq_content (qf s1) = iq_content (qf s) @ xs" using Suc.prems(3) by (auto simp: fed_def)
  have ws1: "reader_env ws1 nfy preempt" using Suc.prems(2) W(2) [OF e] unfolding reader_env_def by blast
  show ?case
  proof (cases "m = Q_OK")
    case False
    then show ?thesis using Suc.prems(1) w s1 by (auto simp: Let_def)
  next
    case True
    then have ne: "iq_content (qf s1) \<noteq> []" using W(3) [OF e] by (auto simp: iq_empty)
    note h = iq_take_head [OF s1(1) ne]
    let ?b = "fst (iq_take (qf s1))" and ?s2 = "preempt (upd (\<lambda>q. snd (iq_take q)) s1)"
    have "fed (upd (\<lambda>q. snd (iq_take q)) s1) ?s2" using Suc.prems(2) by (simp add: reader_env_def)
    then obtain ys where s2': "iq_inv (qf ?s2)" "iq_content (qf ?s2) = iq_content (snd (iq_take (qf s1))) @ ys"
      using h(1) by (auto simp: fed_def qf_upd)
    have "(iq_content (qf s) @ xs) @ ys = ?b # iq_content (qf ?s2)"
      unfolding s1(2) [symmetric] s2'(2) by (subst h(2)) simp
    then have s2: "iq_inv (qf ?s2)" "iq_content (qf s) @ xs @ ys = ?b # iq_content (qf ?s2)"
      using s2'(1) by simp_all
    show ?thesis
    proof (cases "n = 0")
      case True
      then have "bs = [?b]" "s' = ?s2" using Suc.prems(1) w \<open>m = Q_OK\<close> by (auto simp: Let_def)
      then show ?thesis using s2 by auto
    next
      case False
      then obtain bs1 where b: "chIQReadTimeout qf upd nfy preempt t n timeout ws1 ?s2 = Some (bs1, ws', s')" "bs = ?b # bs1"
        using Suc.prems(1) w \<open>m = Q_OK\<close> by (auto simp: Let_def bind_eq_Some_conv)
      obtain zs where z: "iq_inv (qf s')" "length bs1 \<le> n" "iq_content (qf ?s2) @ zs = bs1 @ iq_content (qf s')"
        using Suc.IH [OF b(1) ws1 s2(1)] by auto
      have "iq_content (qf s) @ (xs @ ys @ zs) = (?b # iq_content (qf ?s2)) @ zs" using s2(2) by simp
      also have "\<dots> = bs @ iq_content (qf s')" using z(3) b(2) by simp
      finally show ?thesis using z b(2) by auto
    qed
  qed
qed

lemma oq_put_stream:
  assumes "chOQPutTimeout qf upd nfy t b timeout ws s = Some (m, ws', s')" "writer_env ws nfy preempt" "oq_inv (qf s)"
  shows "oq_inv (qf s') \<and> set ws' \<subseteq> set ws \<and>
    (\<exists>ys. oq_content (qf s) @ (if m < Q_OK then [] else [b]) = ys @ oq_content (qf s'))"
proof -
  obtain m1 ws1 s1 where w: "wait_while (\<lambda>m. m < Q_OK) (\<lambda>s. chOQIsFullI (qf s)) (upd (enqueue_self t)) timeout ws s = Some (m1, ws1, s1)"
      and r: "if m1 < Q_OK then (m, ws', s') = (m1, ws1, s1)
        else (m, ws', s') = (Q_OK, ws1, case nfy of None \<Rightarrow> upd (oq_store b) s1 | Some f \<Rightarrow> f (upd (oq_store b) s1))"
    using assms(1) by (auto simp: chOQPutTimeout_def bind_eq_Some_conv Let_def split: if_splits)
  have e: "\<forall>(m, e) \<in> set ws. \<forall>s. drained s (e s)" using assms(2) by (simp add: writer_env_def)
  note W = wait_drained [OF w e]
  obtain ys where s1: "oq_inv (qf s1)" "oq_content (qf s) = ys @ oq_content (qf s1)"
    using W(1) assms(3) by (auto simp: drained_def)
  show ?thesis
  proof (cases "m1 < Q_OK")
    case True
    then show ?thesis using r s1 W(2) by auto
  next
    case False
    then have "\<not> chOQIsFullI (qf s1)" using W(3) by auto
    then have nf: "length (oq_content (qf s1)) < chQSizeX (qf s1)"
      using oq_full [OF s1(1)] oq.bound [OF s1(1)] by linarith
    note h = oq_store_tail [OF s1(1) nf, of b]
    let ?s2 = "upd (oq_store b) s1"
    have m: "m = Q_OK" "ws' = ws1" "s' = (case nfy of None \<Rightarrow> ?s2 | Some f \<Rightarrow> f ?s2)" using r False by auto
    have "drained ?s2 s'" using nfy_drained [OF assms(2), of ?s2] m(3) by simp
    then obtain zs where "oq_inv (qf s')" "oq_content (qf s1) @ [b] = zs @ oq_content (qf s')"
      using h(1,2) by (auto simp: drained_def qf_upd)
    then show ?thesis using s1(2) m(1,2) W(2) by simp
  qed
qed

lemma oq_write_stream:
  assumes "chOQWriteTimeout qf upd nfy preempt t bs timeout ws s = Some (w, ws', s')"
    "writer_env ws nfy preempt" "oq_inv (qf s)"
  shows "oq_inv (qf s') \<and> w \<le> length bs \<and> (\<exists>ys. oq_content (qf s) @ take w bs = ys @ oq_content (qf s'))"
  using assms
proof (induction bs arbitrary: ws s w)
  case Nil
  then show ?case by simp
next
  case (Cons b bs)
  obtain m ws1 s1 where w: "wait_while (\<lambda>m. m \<noteq> Q_OK) (\<lambda>s. chOQIsFullI (qf s)) (upd (enqueue_self t)) timeout ws s = Some (m, ws1, s1)"
    using Cons.prems(1) by (auto simp: bind_eq_Some_conv Let_def)
  have e: "\<forall>(m, e) \<in> set ws. \<forall>s. drained s (e s)" using Cons.prems(2) by (simp add: writer_env_def)
  note W = wait_drained [OF w e]
  obtain ys where s1: "oq_inv (qf s1)" "oq_content (qf s) = ys @ oq_content (qf s1)"
    using W(1) Cons.prems(3) by (auto simp: drained_def)
  have ws1: "writer_env ws1 nfy preempt" using Cons.prems(2) W(2) unfolding writer_env_def by blast
  show ?case
  proof (cases "m = Q_OK")
    case False
    then show ?thesis using Cons.prems(1) w s1 by (auto simp: Let_def)
  next
    case True
    then have "\<not> chOQIsFullI (qf s1)" using W(3) by auto
    then have nf: "length (oq_content (qf s1)) < chQSizeX (qf s1)"
      using oq_full [OF s1(1)] oq.bound [OF s1(1)] by linarith
    note h = oq_store_tail [OF s1(1) nf, of b]
    let ?s2 = "upd (oq_store b) s1"
    define s3 where "s3 = preempt (case nfy of None \<Rightarrow> ?s2 | Some f \<Rightarrow> f ?s2)"
    have "drained ?s2 s3"
      unfolding s3_def by (rule drained_preorder(2), rule nfy_drained [OF Cons.prems(2)]) (use Cons.prems(2) in \<open>simp add: writer_env_def\<close>)
    then have i3: "oq_inv (qf s3) \<and> (\<exists>zs. oq_content (qf s1) @ [b] = zs @ oq_content (qf s3))"
      by (simp add: drained_def qf_upd h(1,2))
    then obtain zs where s3': "oq_inv (qf s3)" "oq_content (qf s1) @ [b] = zs @ oq_content (qf s3)" by blast
    then have s3: "oq_inv (qf s3)" "oq_content (qf s) @ [b] = (ys @ zs) @ oq_content (qf s3)"
      using s1(2) by simp_all
    show ?thesis
    proof (cases "bs = []")
      case True
      then have "w = 1" "s' = s3" using Cons.prems(1) w \<open>m = Q_OK\<close> by (auto simp: Let_def s3_def)
      then show ?thesis using s3 True by auto
    next
      case False
      then obtain w1 where b: "chOQWriteTimeout qf upd nfy preempt t bs timeout ws1 s3 = Some (w1, ws', s')" "w = w1 + 1"
        using Cons.prems(1) w \<open>m = Q_OK\<close> by (auto simp: Let_def bind_eq_Some_conv s3_def)
      obtain vs where v: "oq_inv (qf s')" "w1 \<le> length bs" "oq_content (qf s3) @ take w1 bs = vs @ oq_content (qf s')"
        using Cons.IH [OF b(1) ws1 s3(1)] by auto
      have "oq_content (qf s) @ take w (b # bs) = (oq_content (qf s) @ [b]) @ take w1 bs" using b(2) by simp
      also have "\<dots> = (ys @ zs @ vs) @ oq_content (qf s')" unfolding s3(2) using v(3) by simp
      finally show ?thesis using v b(2) by auto
    qed
  qed
qed

end

end
