(* ===== verification/Serial.thy ===== *)
theory Serial
  imports Queues
begin

text \<open>
  The serial driver, \<^verbatim>\<open>os/hal/src/serial.c\<close>, its macros in \<^verbatim>\<open>os/hal/include/serial.h\<close> and
  \<^verbatim>\<open>os/hal/ports/STM32/LLD/USARTv2/serial_lld.c\<close> for the two USARTs the configuration enables,
  and \<^verbatim>\<open>serial_getline\<close> of \<^verbatim>\<open>system_serial.c\<close>.  \<open>us_TDR\<close> logs the bytes written to the transmit
  data register, oldest first; \<open>us_ISR\<close> and \<open>us_RDR\<close> are what the peripheral presents;
  \<open>sd_flags\<close> logs the event flags broadcast to the listeners.
\<close>

record USART_TypeDef =
  us_CR1 :: u32
  us_CR2 :: u32
  us_CR3 :: u32
  us_BRR :: u32
  us_ISR :: u32
  us_ICR :: u32
  us_RDR :: u16
  us_TDR :: "u8 list"

datatype sdstate_t = SD_UNINIT | SD_STOP | SD_READY

record SerialConfig =
  sc_speed :: u32
  sc_cr1 :: u32
  sc_cr2 :: u32
  sc_cr3 :: u32

record SerialDriver =
  sd_state :: sdstate_t
  iqueue :: io_queue
  oqueue :: io_queue
  usart :: USART_TypeDef
  sd_clock :: u32
  sd_clock_enabled :: bool
  sd_nvic :: bool
  sd_flags :: "u32 list"

abbreviation (input) SERIAL_BUFFERS_SIZE :: nat where "SERIAL_BUFFERS_SIZE \<equiv> 16"
abbreviation (input) CHN_INPUT_AVAILABLE :: u32 where "CHN_INPUT_AVAILABLE \<equiv> 4"
abbreviation (input) CHN_OUTPUT_EMPTY :: u32 where "CHN_OUTPUT_EMPTY \<equiv> 8"
abbreviation (input) CHN_TRANSMISSION_END :: u32 where "CHN_TRANSMISSION_END \<equiv> 16"
abbreviation (input) SD_PARITY_ERROR :: u32 where "SD_PARITY_ERROR \<equiv> 32"
abbreviation (input) SD_FRAMING_ERROR :: u32 where "SD_FRAMING_ERROR \<equiv> 64"
abbreviation (input) SD_OVERRUN_ERROR :: u32 where "SD_OVERRUN_ERROR \<equiv> 128"
abbreviation (input) SD_NOISE_ERROR :: u32 where "SD_NOISE_ERROR \<equiv> 256"
abbreviation (input) SD_BREAK_DETECTED :: u32 where "SD_BREAK_DETECTED \<equiv> 512"
abbreviation (input) USART_CR1_UE :: u32 where "USART_CR1_UE \<equiv> 0x1"
abbreviation (input) USART_CR1_RE :: u32 where "USART_CR1_RE \<equiv> 0x4"
abbreviation (input) USART_CR1_TE :: u32 where "USART_CR1_TE \<equiv> 0x8"
abbreviation (input) USART_CR1_RXNEIE :: u32 where "USART_CR1_RXNEIE \<equiv> 0x20"
abbreviation (input) USART_CR1_TCIE :: u32 where "USART_CR1_TCIE \<equiv> 0x40"
abbreviation (input) USART_CR1_TXEIE :: u32 where "USART_CR1_TXEIE \<equiv> 0x80"
abbreviation (input) USART_CR1_PEIE :: u32 where "USART_CR1_PEIE \<equiv> 0x100"
abbreviation (input) USART_CR2_LBDIE :: u32 where "USART_CR2_LBDIE \<equiv> 0x40"
abbreviation (input) USART_CR2_LINEN :: u32 where "USART_CR2_LINEN \<equiv> 0x4000"
abbreviation (input) USART_CR3_EIE :: u32 where "USART_CR3_EIE \<equiv> 0x1"
abbreviation (input) USART_ISR_PE :: u32 where "USART_ISR_PE \<equiv> 0x1"
abbreviation (input) USART_ISR_FE :: u32 where "USART_ISR_FE \<equiv> 0x2"
abbreviation (input) USART_ISR_NE :: u32 where "USART_ISR_NE \<equiv> 0x4"
abbreviation (input) USART_ISR_ORE :: u32 where "USART_ISR_ORE \<equiv> 0x8"
abbreviation (input) USART_ISR_RXNE :: u32 where "USART_ISR_RXNE \<equiv> 0x20"
abbreviation (input) USART_ISR_TC :: u32 where "USART_ISR_TC \<equiv> 0x40"
abbreviation (input) USART_ISR_TXE :: u32 where "USART_ISR_TXE \<equiv> 0x80"
abbreviation (input) USART_ISR_LBDF :: u32 where "USART_ISR_LBDF \<equiv> 0x100"

definition chnAddFlagsI :: "u32 \<Rightarrow> SerialDriver \<Rightarrow> SerialDriver" where
  "chnAddFlagsI flags d = d\<lparr>sd_flags := sd_flags d @ [flags]\<rparr>"

definition upd_usart :: "(USART_TypeDef \<Rightarrow> USART_TypeDef) \<Rightarrow> SerialDriver \<Rightarrow> SerialDriver" where
  "upd_usart f d = d\<lparr>usart := f (usart d)\<rparr>"

section \<open>Queue ends seen by the interrupt handler\<close>

definition sdIncomingDataI :: "u8 \<Rightarrow> SerialDriver \<Rightarrow> SerialDriver" where
  "sdIncomingDataI b d =
     (let d = (if chIQIsEmptyI (iqueue d) then chnAddFlagsI CHN_INPUT_AVAILABLE d else d);
          (m, q) = chIQPutI b (iqueue d);
          d = d\<lparr>iqueue := q\<rparr>
      in if m < Q_OK then chnAddFlagsI SD_OVERRUN_ERROR d else d)"

definition sdRequestDataI :: "SerialDriver \<Rightarrow> msg_t \<times> SerialDriver" where
  "sdRequestDataI d =
     (let (b, q) = chOQGetI (oqueue d);
          d = d\<lparr>oqueue := q\<rparr>
      in (b, if b < Q_OK then chnAddFlagsI CHN_OUTPUT_EMPTY d else d))"

definition sdPutWouldBlock :: "SerialDriver \<Rightarrow> bool" where "sdPutWouldBlock d = chOQIsFullI (oqueue d)"
definition sdGetWouldBlock :: "SerialDriver \<Rightarrow> bool" where "sdGetWouldBlock d = chIQIsEmptyI (iqueue d)"

section \<open>Low level driver\<close>

definition default_config :: SerialConfig where
  "default_config = \<lparr>sc_speed = 38400, sc_cr1 = 0, sc_cr2 = push_bit 12 0 OR USART_CR2_LINEN, sc_cr3 = 0\<rparr>"

text \<open>\<open>None\<close>: a bit rate of zero is divided by.\<close>

definition usart_init :: "SerialConfig \<Rightarrow> SerialDriver \<Rightarrow> SerialDriver option" where
  "usart_init config d =
     (if sc_speed config = 0 then None
      else Some (upd_usart (\<lambda>u. u\<lparr>us_BRR := sd_clock d div sc_speed config,
        us_CR2 := sc_cr2 config OR USART_CR2_LBDIE, us_CR3 := sc_cr3 config OR USART_CR3_EIE,
        us_CR1 := sc_cr1 config OR USART_CR1_UE OR USART_CR1_PEIE OR USART_CR1_RXNEIE OR USART_CR1_TE OR USART_CR1_RE,
        us_ICR := 0xFFFFFFFF\<rparr>) d))"

definition usart_deinit :: "USART_TypeDef \<Rightarrow> USART_TypeDef" where
  "usart_deinit u = u\<lparr>us_CR1 := 0, us_CR2 := 0, us_CR3 := 0\<rparr>"

definition set_error :: "u32 \<Rightarrow> SerialDriver \<Rightarrow> SerialDriver" where
  "set_error isr d =
     chnAddFlagsI ((if isr AND USART_ISR_ORE \<noteq> 0 then SD_OVERRUN_ERROR else 0)
       OR (if isr AND USART_ISR_PE \<noteq> 0 then SD_PARITY_ERROR else 0)
       OR (if isr AND USART_ISR_FE \<noteq> 0 then SD_FRAMING_ERROR else 0)
       OR (if isr AND USART_ISR_NE \<noteq> 0 then SD_NOISE_ERROR else 0)) d"

text \<open>The transmit branch of the handler: \<open>cr1\<close> is the control register as read on entry.\<close>

definition serve_tx :: "u32 \<Rightarrow> SerialDriver \<Rightarrow> SerialDriver" where
  "serve_tx cr1 d =
     (let (b, q) = chOQGetI (oqueue d);
          d = d\<lparr>oqueue := q\<rparr>
      in if b < Q_OK
         then upd_usart (\<lambda>u. u\<lparr>us_CR1 := (cr1 AND NOT USART_CR1_TXEIE) OR USART_CR1_TCIE\<rparr>) (chnAddFlagsI CHN_OUTPUT_EMPTY d)
         else upd_usart (\<lambda>u. u\<lparr>us_TDR := us_TDR u @ [word_of_int b]\<rparr>) d)"

definition serve_tc :: "u32 \<Rightarrow> SerialDriver \<Rightarrow> SerialDriver" where
  "serve_tc cr1 d =
     upd_usart (\<lambda>u. u\<lparr>us_CR1 := cr1 AND NOT USART_CR1_TCIE\<rparr>)
       (if chOQIsEmptyI (oqueue d) then chnAddFlagsI CHN_TRANSMISSION_END d else d)"

definition serve_interrupt :: "SerialDriver \<Rightarrow> SerialDriver" where
  "serve_interrupt d =
     (let cr1 = us_CR1 (usart d);
          isr = us_ISR (usart d);
          d = upd_usart (\<lambda>u. u\<lparr>us_ICR := isr\<rparr>) d;
          d = (if isr AND (USART_ISR_ORE OR USART_ISR_NE OR USART_ISR_FE OR USART_ISR_PE) \<noteq> 0 then set_error isr d else d);
          d = (if isr AND USART_ISR_LBDF \<noteq> 0 then chnAddFlagsI SD_BREAK_DETECTED d else d);
          d = (if isr AND USART_ISR_RXNE \<noteq> 0 then sdIncomingDataI (ucast (us_RDR (usart d))) d else d);
          d = (if cr1 AND USART_CR1_TXEIE \<noteq> 0 \<and> isr AND USART_ISR_TXE \<noteq> 0 then serve_tx cr1 d else d)
      in if isr AND USART_ISR_TC \<noteq> 0 then serve_tc cr1 d else d)"

definition notify_tx :: "SerialDriver \<Rightarrow> SerialDriver" where
  "notify_tx = upd_usart (\<lambda>u. u\<lparr>us_CR1 := us_CR1 u OR USART_CR1_TXEIE\<rparr>)"

section \<open>Driver API\<close>

text \<open>\<open>ib\<close> and \<open>ob\<close> are what the two buffers of the driver object hold.\<close>

definition sdObjectInit :: "u8 list \<Rightarrow> u8 list \<Rightarrow> SerialDriver \<Rightarrow> SerialDriver" where
  "sdObjectInit ib ob d = d\<lparr>sd_flags := [], sd_state := SD_STOP, iqueue := chIQObjectInit ib, oqueue := chOQObjectInit ob\<rparr>"

definition sd_lld_init :: "u8 list \<Rightarrow> u8 list \<Rightarrow> u32 \<Rightarrow> SerialDriver \<Rightarrow> SerialDriver" where
  "sd_lld_init ib ob clk d = (sdObjectInit ib ob d)\<lparr>sd_clock := clk, sd_nvic := True\<rparr>"

definition sdInit :: "u8 list \<Rightarrow> u8 list \<Rightarrow> u32 \<Rightarrow> SerialDriver \<Rightarrow> SerialDriver" where "sdInit = sd_lld_init"

definition sd_lld_start :: "SerialConfig option \<Rightarrow> SerialDriver \<Rightarrow> SerialDriver option" where
  "sd_lld_start config d =
     (let cfg = (case config of None \<Rightarrow> default_config | Some c \<Rightarrow> c)
      in usart_init cfg (if sd_state d = SD_STOP then d\<lparr>sd_clock_enabled := True\<rparr> else d))"

definition sd_lld_stop :: "SerialDriver \<Rightarrow> SerialDriver" where
  "sd_lld_stop d = (if sd_state d = SD_READY then (upd_usart usart_deinit d)\<lparr>sd_clock_enabled := False\<rparr> else d)"

definition sdStart :: "SerialConfig option \<Rightarrow> SerialDriver \<Rightarrow> SerialDriver option" where
  "sdStart config d = do { d \<leftarrow> sd_lld_start config d; Some (d\<lparr>sd_state := SD_READY\<rparr>) }"

definition sdStop :: "SerialDriver \<Rightarrow> SerialDriver" where
  "sdStop d =
     (let d = (sd_lld_stop d)\<lparr>sd_state := SD_STOP\<rparr>
      in d\<lparr>oqueue := chOQResetI (oqueue d), iqueue := chIQResetI (iqueue d)\<rparr>)"

text \<open>The input queue has no notification callback, the output queue has \<open>notify_tx\<close>.\<close>

definition sdPutTimeout :: "nat \<Rightarrow> u8 \<Rightarrow> systime_t \<Rightarrow> SerialDriver script \<Rightarrow> SerialDriver \<Rightarrow>
    (msg_t \<times> SerialDriver script \<times> SerialDriver) option" where
  "sdPutTimeout self b t = chOQPutTimeout oqueue oqueue_update (Some notify_tx) self b t"

definition sdPut :: "nat \<Rightarrow> u8 \<Rightarrow> SerialDriver script \<Rightarrow> SerialDriver \<Rightarrow>
    (msg_t \<times> SerialDriver script \<times> SerialDriver) option" where
  "sdPut self b = sdPutTimeout self b TIME_INFINITE"

definition sdGetTimeout :: "nat \<Rightarrow> systime_t \<Rightarrow> SerialDriver script \<Rightarrow> SerialDriver \<Rightarrow>
    (msg_t \<times> SerialDriver script \<times> SerialDriver) option" where
  "sdGetTimeout self t = chIQGetTimeout iqueue iqueue_update None self t"

definition sdGet :: "nat \<Rightarrow> SerialDriver script \<Rightarrow> SerialDriver \<Rightarrow>
    (msg_t \<times> SerialDriver script \<times> SerialDriver) option" where
  "sdGet self = sdGetTimeout self TIME_INFINITE"

definition sdWriteTimeout :: "(SerialDriver \<Rightarrow> SerialDriver) \<Rightarrow> nat \<Rightarrow> u8 list \<Rightarrow> systime_t \<Rightarrow> SerialDriver script \<Rightarrow>
    SerialDriver \<Rightarrow> (nat \<times> SerialDriver script \<times> SerialDriver) option" where
  "sdWriteTimeout preempt self bs t = chOQWriteTimeout oqueue oqueue_update (Some notify_tx) preempt self bs t"

definition sdReadTimeout :: "(SerialDriver \<Rightarrow> SerialDriver) \<Rightarrow> nat \<Rightarrow> nat \<Rightarrow> systime_t \<Rightarrow> SerialDriver script \<Rightarrow>
    SerialDriver \<Rightarrow> (u8 list \<times> SerialDriver script \<times> SerialDriver) option" where
  "sdReadTimeout preempt self n t = chIQReadTimeout iqueue iqueue_update None preempt self n t"

section \<open>Reading a line\<close>

text \<open>
  \<open>getline_loop i n\<close> is the loop of \<^verbatim>\<open>serial_getline\<close> with \<open>i\<close> bytes read and room for \<open>n\<close> more; it
  stores through \<^verbatim>\<open>buf\<close> and returns the number of bytes read.
\<close>

fun getline_loop :: "nat \<Rightarrow> nat \<Rightarrow> nat \<Rightarrow> u8 list \<Rightarrow> SerialDriver script \<Rightarrow> SerialDriver \<Rightarrow>
    (nat \<times> u8 list \<times> SerialDriver script \<times> SerialDriver) option" where
  "getline_loop self i 0 buf ws d = Some (i, buf, ws, d)"
| "getline_loop self i (Suc n) buf ws d =
     do {
       (m, ws, d) \<leftarrow> sdGet self ws d;
       let b = word_of_int m;
       let buf = buf[i := b];
       if b = 0x0D then Some (i + 1, buf, ws, d) else getline_loop self (i + 1) n buf ws d
     }"

definition serial_getline :: "nat \<Rightarrow> u8 list option \<Rightarrow> nat \<Rightarrow> SerialDriver script \<Rightarrow> SerialDriver \<Rightarrow>
    (nat \<times> u8 list option \<times> SerialDriver script \<times> SerialDriver) option" where
  "serial_getline self buf buf_len ws d =
     (case buf of None \<Rightarrow> Some (0, None, ws, d)
      | Some bf \<Rightarrow>
          if buf_len = 0 then Some (0, buf, ws, d)
          else do {
            (r, bf, ws, d) \<leftarrow> getline_loop self 0 (buf_len - 1) bf ws d;
            Some (r, Some (bf[r := 0]), ws, d)
          })"

section \<open>Transmission\<close>

lemma cr1_bits:
  fixes w :: u32
  shows "w AND USART_CR1_TXEIE \<noteq> 0 \<longleftrightarrow> bit w 7" "bit (w OR USART_CR1_TXEIE) 7" "bit (w AND NOT USART_CR1_TCIE) 7 = bit w 7"
proof -
  have t: "(0x80 :: u32) = push_bit 7 1" "(0x40 :: u32) = push_bit 6 1" by simp_all
  show "w AND 0x80 \<noteq> 0 \<longleftrightarrow> bit w 7" by (simp add: bit_iff_and_push_bit_not_eq_0)
  show "bit (w OR 0x80) 7" unfolding t bit_or_iff bit_push_bit_iff by simp
  show "bit (w AND NOT 0x40) 7 = bit w 7" unfolding t bit_and_iff bit_not_iff bit_push_bit_iff by simp
qed

lemmas cr1_bits' = cr1_bits(1,2) cr1_bits(3) [simplified]

interpretation sd_out: queue_owner oqueue oqueue_update
  by unfold_locales simp

interpretation sd_in: queue_owner iqueue iqueue_update
  by unfold_locales simp

lemma flags_simps [simp]:
  "iqueue (chnAddFlagsI f d) = iqueue d" "oqueue (chnAddFlagsI f d) = oqueue d" "usart (chnAddFlagsI f d) = usart d"
  "iqueue (upd_usart g d) = iqueue d" "oqueue (upd_usart g d) = oqueue d" "usart (upd_usart g d) = g (usart d)"
  "iqueue (set_error i d) = iqueue d" "oqueue (set_error i d) = oqueue d" "usart (set_error i d) = usart d"
  "oqueue (sdIncomingDataI b d) = oqueue d" "usart (sdIncomingDataI b d) = usart d"
  by (simp_all add: chnAddFlagsI_def upd_usart_def set_error_def sdIncomingDataI_def Let_def split: prod.splits)

definition tx_inv :: "u8 list \<Rightarrow> SerialDriver \<Rightarrow> bool" where
  "tx_inv acc d \<longleftrightarrow> oq_inv (oqueue d) \<and> acc = us_TDR (usart d) @ oq_content (oqueue d) \<and>
     (oq_content (oqueue d) \<noteq> [] \<longrightarrow> bit (us_CR1 (usart d)) 7)"

lemma serve_tx_inv:
  assumes "tx_inv acc d" "us_CR1 (usart d) = cr1"
  shows "tx_inv acc (serve_tx cr1 d)"
proof (cases "oq_content (oqueue d) = []")
  case True
  then have "chOQGetI (oqueue d) = (Q_EMPTY, oqueue d)"
    using assms(1) oq_empty by (simp add: tx_inv_def chOQGetI_def)
  then show ?thesis using assms(1) True by (simp add: tx_inv_def serve_tx_def)
next
  case False
  have i: "oq_inv (oqueue d)" using assms(1) by (simp add: tx_inv_def)
  note g = oq_get_head [OF i False]
  obtain q where q: "chOQGetI (oqueue d) = (uint (hd (oq_content (oqueue d))), q)" "snd (chOQGetI (oqueue d)) = q"
    using g(2) by (cases "chOQGetI (oqueue d)") simp
  then have "serve_tx cr1 d = upd_usart (\<lambda>u. u\<lparr>us_TDR := us_TDR u @ [hd (oq_content (oqueue d))]\<rparr>) (d\<lparr>oqueue := q\<rparr>)"
    by (subst serve_tx_def) (simp add: Let_def)
  then show ?thesis using assms(1) False g(1,3) q(2) by (simp add: tx_inv_def)
qed

lemma serve_tx_cr1:
  assumes "tx_inv acc d" "us_CR1 (usart d) = cr1" "oq_content (oqueue (serve_tx cr1 d)) \<noteq> []"
  shows "bit cr1 7"
  using serve_tx_inv [OF assms(1,2)] assms
  by (cases "oq_content (oqueue d) = []") (auto simp: tx_inv_def serve_tx_def chOQGetI_def oq_empty Let_def split: prod.splits if_splits)

lemma serve_interrupt_inv:
  assumes "tx_inv acc d"
  shows "tx_inv acc (serve_interrupt d)"
proof -
  define cr1 isr where "cr1 = us_CR1 (usart d)" and "isr = us_ISR (usart d)"
  define d1 where "d1 = upd_usart (\<lambda>u. u\<lparr>us_ICR := isr\<rparr>) d"
  define d2 where "d2 = (if isr AND (USART_ISR_ORE OR USART_ISR_NE OR USART_ISR_FE OR USART_ISR_PE) \<noteq> 0 then set_error isr d1 else d1)"
  define d3 where "d3 = (if isr AND USART_ISR_LBDF \<noteq> 0 then chnAddFlagsI SD_BREAK_DETECTED d2 else d2)"
  define d4 where "d4 = (if isr AND USART_ISR_RXNE \<noteq> 0 then sdIncomingDataI (ucast (us_RDR (usart d3))) d3 else d3)"
  define d5 where "d5 = (if cr1 AND USART_CR1_TXEIE \<noteq> 0 \<and> isr AND USART_ISR_TXE \<noteq> 0 then serve_tx cr1 d4 else d4)"
  have sv: "serve_interrupt d = (if isr AND USART_ISR_TC \<noteq> 0 then serve_tc cr1 d5 else d5)"
    unfolding serve_interrupt_def Let_def cr1_def [symmetric] isr_def [symmetric] d1_def [symmetric] d2_def [symmetric]
      d3_def [symmetric] d4_def [symmetric] d5_def [symmetric] ..
  have "oqueue d4 = oqueue d" "us_CR1 (usart d4) = cr1" "us_TDR (usart d4) = us_TDR (usart d)"
    by (simp_all add: d4_def d3_def d2_def d1_def cr1_def)
  then have i4: "tx_inv acc d4" "us_CR1 (usart d4) = cr1" using assms by (simp_all add: tx_inv_def cr1_def)
  then have i5: "tx_inv acc d5" "oq_content (oqueue d5) \<noteq> [] \<longrightarrow> bit cr1 7"
    using serve_tx_inv [OF i4] serve_tx_cr1 [OF i4] by (auto simp: d5_def tx_inv_def)
  then have "tx_inv acc (serve_tc cr1 d5)" by (simp add: tx_inv_def serve_tc_def cr1_bits')
  then show ?thesis using sv i5(1) by simp
qed

text \<open>
  What happens to a running driver: threads put and get bytes (a call that has to wait first
  joins the queue of waiting threads), and interrupts are served with whatever status and data
  the peripheral presents.  The list collects the bytes accepted for transmission.
\<close>

inductive sd_run :: "SerialDriver \<Rightarrow> u8 list \<Rightarrow> SerialDriver \<Rightarrow> bool" for d0 where
  start: "sd_run d0 [] d0"
| put: "sd_run d0 acc d \<Longrightarrow> sdPutTimeout t b TIME_IMMEDIATE [] d = Some (Q_OK, ws, d') \<Longrightarrow> sd_run d0 (acc @ [b]) d'"
| put_waits: "sd_run d0 acc d \<Longrightarrow> sd_run d0 acc (d\<lparr>oqueue := enqueue_self t (oqueue d)\<rparr>)"
| get: "sd_run d0 acc d \<Longrightarrow> sdGetTimeout t TIME_IMMEDIATE [] d = Some (m, ws, d') \<Longrightarrow> sd_run d0 acc d'"
| get_waits: "sd_run d0 acc d \<Longrightarrow> sd_run d0 acc (d\<lparr>iqueue := enqueue_self t (iqueue d)\<rparr>)"
| irq: "sd_run d0 acc d \<Longrightarrow> sd_run d0 acc (serve_interrupt (upd_usart (\<lambda>u. u\<lparr>us_ISR := i, us_RDR := r\<rparr>) d))"

lemma put_inv:
  assumes "tx_inv acc d" "sdPutTimeout t b TIME_IMMEDIATE [] d = Some (Q_OK, ws, d')"
  shows "tx_inv (acc @ [b]) d'"
proof -
  have i: "oq_inv (oqueue d)" using assms(1) by (simp add: tx_inv_def)
  have nf: "\<not> chOQIsFullI (oqueue d)" and d': "d' = notify_tx (oqueue_update (oq_store b) d)"
    using assms(2)
    by (auto simp: sdPutTimeout_def chOQPutTimeout_def wait_while.simps Let_def split: if_splits)
  have "length (oq_content (oqueue d)) < chQSizeX (oqueue d)"
    using nf oq_full [OF i] oq.bound [OF i] by linarith
  from oq_store_tail [OF i this, of b] show ?thesis
    using assms(1) by (simp add: d' tx_inv_def notify_tx_def cr1_bits')
qed

lemma sd_run_inv:
  assumes "tx_inv [] d0" "sd_run d0 acc d"
  shows "tx_inv acc d"
  using assms(2)
proof (induction)
  case start
  then show ?case by (rule assms(1))
next
  case (put acc d t b ws d')
  then show ?case using put_inv by blast
next
  case (put_waits acc d t)
  then show ?case by (simp add: tx_inv_def)
next
  case (get acc d t m ws d')
  then have "oqueue d' = oqueue d" "usart d' = usart d"
    by (auto simp: sdGetTimeout_def chIQGetTimeout_def wait_while.simps Let_def split: if_splits)
  then show ?case using get.IH by (simp add: tx_inv_def)
next
  case (get_waits acc d t)
  then show ?case by (simp add: tx_inv_def)
next
  case irq
  then show ?case by (intro serve_interrupt_inv) (simp add: tx_inv_def)
qed

lemma sdStart_effect:
  assumes "sdStart config d = Some d'"
  shows "oqueue d' = oqueue d" "iqueue d' = iqueue d" "us_TDR (usart d') = us_TDR (usart d)" "sd_state d' = SD_READY"
    "us_BRR (usart d') = sd_clock d div (case config of None \<Rightarrow> 38400 | Some c \<Rightarrow> sc_speed c)"
  using assms
  by (auto simp: sdStart_def sd_lld_start_def usart_init_def upd_usart_def Let_def bind_eq_Some_conv default_config_def
      split: if_splits option.splits)

text \<open>
  C17: the transmit side of the serial driver.  From the start of a driver with an empty output
  queue, whatever threads and interrupts do in whatever order, the bytes written to the
  transmit register followed by those still queued are exactly the bytes accepted, in order;
  and as long as a byte is queued the transmit interrupt is enabled, so none is forgotten.
\<close>

theorem serial_transmits_in_order:
  assumes "sdStart config d = Some d0" "oq_inv (oqueue d)" "oq_content (oqueue d) = []" "us_TDR (usart d) = []" "sd_run d0 acc d'"
  shows "acc = us_TDR (usart d') @ oq_content (oqueue d') \<and> (oq_content (oqueue d') \<noteq> [] \<longrightarrow> bit (us_CR1 (usart d')) 7)"
proof -
  have "tx_inv [] d0" using sdStart_effect [OF assms(1)] assms(2-4) by (simp add: tx_inv_def)
  from sd_run_inv [OF this assms(5)] show ?thesis by (simp add: tx_inv_def)
qed

definition sample_sd :: SerialDriver where
  "sample_sd = sdInit (replicate 16 0) (replicate 16 0) 48000000 \<lparr>sd_state = SD_UNINIT, iqueue = chIQObjectInit [],
     oqueue = chOQObjectInit [], usart = \<lparr>us_CR1 = 0, us_CR2 = 0, us_CR3 = 0, us_BRR = 0, us_ISR = 0, us_ICR = 0,
     us_RDR = 0, us_TDR = []\<rparr>, sd_clock = 0, sd_clock_enabled = False, sd_nvic = False, sd_flags = []\<rparr>"

lemma sample_sd_queues:
  "oq_inv (oqueue sample_sd)" "oq_content (oqueue sample_sd) = []" "us_TDR (usart sample_sd) = []"
  "iq_inv (iqueue sample_sd)" "iq_content (iqueue sample_sd) = []"
  by (simp_all add: sample_sd_def sdInit_def sd_lld_init_def sdObjectInit_def chIQObjectInit_def chOQObjectInit_def
      oq_inv_def oq_content_def iq_inv_def iq_content_def q_defs)

text \<open>Two bytes put, one transmit interrupt served.\<close>

theorem serial_transmits_in_order_witness:
  "\<exists>d0 d1. sdStart None sample_sd = Some d0 \<and> sd_run d0 [0x41, 0x42] d1 \<and>
     us_TDR (usart d1) @ oq_content (oqueue d1) = [0x41, 0x42] \<and> us_TDR (usart d1) = [0x41]"
proof -
  obtain d0 where d0: "sdStart None sample_sd = Some d0"
    by (simp add: sdStart_def sd_lld_start_def usart_init_def default_config_def Let_def)
  define d1 where "d1 = notify_tx (oqueue_update (oq_store 0x41) d0)"
  define d2 where "d2 = notify_tx (oqueue_update (oq_store 0x42) d1)"
  define d3 where "d3 = serve_interrupt (upd_usart (\<lambda>u. u\<lparr>us_ISR := 0x80, us_RDR := 0\<rparr>) d2)"
  have q0: "oqueue d0 = chOQObjectInit (replicate 16 0)"
    using sdStart_effect(1) [OF d0] by (simp add: sample_sd_def sdInit_def sd_lld_init_def sdObjectInit_def)
  have f: "\<not> chOQIsFullI (oqueue d0)" "\<not> chOQIsFullI (oqueue d1)"
    by (simp_all add: d1_def notify_tx_def oq_store_def q0 chOQObjectInit_def q_defs)
  have p1: "sdPutTimeout 1 0x41 TIME_IMMEDIATE [] d0 = Some (Q_OK, [], d1)"
    using f(1) by (simp add: sdPutTimeout_def chOQPutTimeout_def wait_while.simps d1_def)
  have p2: "sdPutTimeout 1 0x42 TIME_IMMEDIATE [] d1 = Some (Q_OK, [], d2)"
    using f(2) by (simp add: sdPutTimeout_def chOQPutTimeout_def wait_while.simps d2_def)
  have run: "sd_run d0 [0x41, 0x42] d3"
    using sd_run.irq [OF sd_run.put [OF sd_run.put [OF sd_run.start p1] p2]] by (simp add: d3_def)
  have "us_TDR (usart d3) = [0x41]"
    using sdStart_effect(3) [OF d0] sample_sd_queues(3)
    by (simp add: d3_def serve_interrupt_def serve_tx_def d2_def d1_def notify_tx_def chOQGetI_def oq_store_def q0
        chOQObjectInit_def chOQIsEmptyI_def ptr_next_def q_defs Let_def cr1_bits')
  then show ?thesis
    using serial_transmits_in_order [OF d0 sample_sd_queues(1-3) run] d0 run by auto
qed

section \<open>Reception\<close>

definition only_feeds :: "(SerialDriver \<Rightarrow> SerialDriver) \<Rightarrow> bool" where
  "only_feeds e \<longleftrightarrow> (\<forall>d. iq_inv (iqueue d) \<longrightarrow>
     iq_inv (iqueue (e d)) \<and> (\<exists>xs. iq_content (iqueue (e d)) = iq_content (iqueue d) @ xs))"

lemma only_feeds_fed: "only_feeds e \<longleftrightarrow> (\<forall>d. sd_in.fed d (e d))"
  by (simp add: only_feeds_def sd_in.fed_def)

text \<open>The interrupt handler appends the received byte, or drops it and flags an overrun when the queue is full.\<close>

lemma incoming_data:
  assumes "iq_inv (iqueue d)"
  shows "iq_inv (iqueue (sdIncomingDataI b d))"
    "iq_content (iqueue (sdIncomingDataI b d)) =
      (if length (iq_content (iqueue d)) < chQSizeX (iqueue d) then iq_content (iqueue d) @ [b] else iq_content (iqueue d))"
    "length (iq_content (iqueue d)) = chQSizeX (iqueue d) \<Longrightarrow> last (sd_flags (sdIncomingDataI b d)) = SD_OVERRUN_ERROR"
proof -
  let ?d = "if chIQIsEmptyI (iqueue d) then chnAddFlagsI CHN_INPUT_AVAILABLE d else d"
  have q: "iqueue ?d = iqueue d" by simp
  have i: "iqueue (sdIncomingDataI b d) = snd (chIQPutI b (iqueue d))"
    by (simp add: sdIncomingDataI_def Let_def q split: prod.splits)
  show "iq_inv (iqueue (sdIncomingDataI b d))"
    "iq_content (iqueue (sdIncomingDataI b d)) =
      (if length (iq_content (iqueue d)) < chQSizeX (iqueue d) then iq_content (iqueue d) @ [b] else iq_content (iqueue d))"
    using iq_put_store [OF assms, of b] iq_put_full [OF assms, of b] iq.bound [OF assms] assms unfolding i
    by (cases "length (iq_content (iqueue d)) < chQSizeX (iqueue d)"; simp)+
  show "last (sd_flags (sdIncomingDataI b d)) = SD_OVERRUN_ERROR" if "length (iq_content (iqueue d)) = chQSizeX (iqueue d)"
    using iq_put_full [OF assms that, of b] by (simp add: sdIncomingDataI_def Let_def q chnAddFlagsI_def)
qed

lemma serve_tx_iqueue [simp]: "iqueue (serve_tx cr1 d) = iqueue d" "iqueue (serve_tc cr1 d) = iqueue d"
  by (simp_all add: serve_tx_def serve_tc_def Let_def split: prod.splits)

lemma serve_interrupt_iqueue:
  "iqueue (serve_interrupt d) = (if us_ISR (usart d) AND USART_ISR_RXNE \<noteq> 0
     then snd (chIQPutI (ucast (us_RDR (usart d))) (iqueue d)) else iqueue d)"
proof -
  have k: "iqueue (if P then serve_tc c d else d) = iqueue d" "iqueue (if P then serve_tx c d else d) = iqueue d"
    "iqueue (if P then chnAddFlagsI f d else d) = iqueue d" "iqueue (if P then set_error i d else d) = iqueue d"
    "usart (if P then chnAddFlagsI f d else d) = usart d" "usart (if P then set_error i d else d) = usart d"
    "iqueue (if P then sdIncomingDataI b d else d) = (if P then snd (chIQPutI b (iqueue d)) else iqueue d)" for P c d f i b
    by (simp_all add: sdIncomingDataI_def Let_def split: prod.splits)
  show ?thesis unfolding serve_interrupt_def Let_def k flags_simps by simp
qed

lemma serve_interrupt_feeds: "only_feeds serve_interrupt"
  unfolding only_feeds_def
proof (intro allI impI)
  fix d :: SerialDriver
  let ?b = "ucast (us_RDR (usart d)) :: u8"
  assume i: "iq_inv (iqueue d)"
  have "iq_inv (snd (chIQPutI ?b (iqueue d))) \<and> (\<exists>xs. iq_content (snd (chIQPutI ?b (iqueue d))) = iq_content (iqueue d) @ xs)"
    using iq_put_store [OF i, of ?b] iq_put_full [OF i, of ?b] iq.bound [OF i] i
    by (cases "length (iq_content (iqueue d)) < chQSizeX (iqueue d)") auto
  then show "iq_inv (iqueue (serve_interrupt d)) \<and> (\<exists>xs. iq_content (iqueue (serve_interrupt d)) = iq_content (iqueue d) @ xs)"
    using i by (simp add: serve_interrupt_iqueue)
qed


text \<open>A byte wanted, none there: the thread waits for a receive interrupt.\<close>

definition rx_irq :: "u16 \<Rightarrow> SerialDriver \<Rightarrow> SerialDriver" where
  "rx_irq b d = serve_interrupt (upd_usart (\<lambda>u. u\<lparr>us_ISR := 0x20, us_RDR := b\<rparr>) d)"

lemma rx_irq_feeds: "only_feeds (rx_irq b)"
  using serve_interrupt_feeds unfolding only_feeds_def rx_irq_def by (metis flags_simps(4))

lemma only_feeds_id: "only_feeds (\<lambda>d. d)"
  by (simp add: only_feeds_def)


section \<open>Lines\<close>

text \<open>The first line of a text, with its carriage return, cut to \<open>n\<close> bytes.\<close>

definition line_of :: "nat \<Rightarrow> u8 list \<Rightarrow> u8 list" where
  "line_of n bs = take n (takeWhile (\<lambda>b. b \<noteq> 0x0D) bs @ (if 0x0D \<in> set bs then [0x0D] else []))"

lemma line_of_simps [simp]:
  "line_of 0 bs = []" "line_of (Suc n) (b # bs) = (if b = 0x0D then [b] else b # line_of n bs)"
  by (auto simp: line_of_def)

lemma sdGet_available:
  assumes "iq_content (iqueue d) \<noteq> []"
  shows "sdGet t ws d = Some (uint (fst (iq_take (iqueue d))), ws, iqueue_update (\<lambda>q. snd (iq_take q)) d)"
  using assms by (simp add: sdGet_def sdGetTimeout_def chIQGetTimeout_def wait_while.simps iq_empty)

lemma getline_loop_line:
  assumes "iq_inv (iqueue d)" "0x0D \<in> set (iq_content (iqueue d)) \<or> n \<le> length (iq_content (iqueue d))"
    "i + n < length buf"
  defines "l \<equiv> line_of n (iq_content (iqueue d))"
  shows "\<exists>d'. getline_loop t i n buf ws d = Some (i + length l, take i buf @ l @ drop (i + length l) buf, ws, d') \<and>
    iq_inv (iqueue d') \<and> iq_content (iqueue d') = drop (length l) (iq_content (iqueue d)) \<and> oqueue d' = oqueue d"
  using assms(1-3) unfolding l_def
proof (induction n arbitrary: i buf d)
  case 0
  then show ?case by simp
next
  case (Suc n)
  let ?c = "iq_content (iqueue d)" and ?b = "fst (iq_take (iqueue d))" and ?d = "iqueue_update (\<lambda>q. snd (iq_take q)) d"
  have ne: "?c \<noteq> []" using Suc.prems(2) by auto
  note h = iq_take_head [OF Suc.prems(1) ne]
  have g: "sdGet t ws d = Some (uint ?b, ws, ?d)" by (rule sdGet_available [OF ne])
  have b: "take i buf @ ?b # drop (Suc i) buf = buf[i := ?b]" using Suc.prems(3) by (simp add: upd_conv_take_nth_drop)
  show ?case
  proof (cases "?b = 0x0D")
    case True
    then have "line_of (Suc n) ?c = [?b]" by (subst h(2)) simp
    moreover have "drop (Suc 0) ?c = iq_content (iqueue ?d)" by (subst h(2)) simp
    ultimately show ?thesis using g True h(1) b by simp
  next
    case False
    have l: "line_of (Suc n) ?c = ?b # line_of n (iq_content (iqueue ?d))" using False by (subst h(2)) simp
    have "0x0D \<in> set ?c \<longleftrightarrow> 0x0D \<in> set (iq_content (iqueue ?d))" "length ?c = Suc (length (iq_content (iqueue ?d)))"
      using False by (subst h(2), simp)+
    then have "0x0D \<in> set (iq_content (iqueue ?d)) \<or> n \<le> length (iq_content (iqueue ?d))" using Suc.prems(2) by simp
    then obtain d' where d': "getline_loop t (Suc i) n (buf[i := ?b]) ws ?d =
        Some (Suc i + length (line_of n (iq_content (iqueue ?d))),
          take (Suc i) (buf[i := ?b]) @ line_of n (iq_content (iqueue ?d)) @ drop (Suc i + length (line_of n (iq_content (iqueue ?d)))) (buf[i := ?b]), ws, d')"
      "iq_inv (iqueue d')" "iq_content (iqueue d') = drop (length (line_of n (iq_content (iqueue ?d)))) (iq_content (iqueue ?d))" "oqueue d' = oqueue d"
      using Suc.IH [of ?d "Suc i" "buf[i := ?b]"] h(1) Suc.prems(3) by auto
    have t: "take (Suc i) (buf[i := ?b]) = take i buf @ [?b]" using Suc.prems(3) by (simp add: take_Suc_conv_app_nth)
    have "drop (length (line_of (Suc n) ?c)) ?c = iq_content (iqueue d')" unfolding l d'(3) by (subst h(2)) simp
    then show ?thesis using g d'(1,2,4) False t by (simp add: l)
  qed
qed

text \<open>
  Reading a line.  When the input queue holds a carriage return or enough bytes to fill the
  buffer, \<open>serial_getline\<close> returns without waiting: it stores the first line including its
  carriage return, cut to the buffer size less one, followed by a NUL, touches nothing beyond,
  returns the length of what it stored and leaves the rest of the input queued.
\<close>

lemma serial_getline_reads_line:
  fixes d :: SerialDriver
  assumes "iq_inv (iqueue d)" "0 < buf_len" "buf_len \<le> length buf"
    "0x0D \<in> set (iq_content (iqueue d)) \<or> buf_len - 1 \<le> length (iq_content (iqueue d))"
  defines "l \<equiv> line_of (buf_len - 1) (iq_content (iqueue d))"
  shows "\<exists>d'. serial_getline t (Some buf) buf_len ws d = Some (length l, Some (l @ [0] @ drop (length l + 1) buf), ws, d') \<and>
    length l < buf_len \<and> iq_content (iqueue d') = drop (length l) (iq_content (iqueue d))"
proof -
  have len: "length l < buf_len" using assms(2) by (simp add: l_def line_of_def)
  obtain d' where d': "getline_loop t 0 (buf_len - 1) buf ws d = Some (length l, l @ drop (length l) buf, ws, d')"
    "iq_content (iqueue d') = drop (length l) (iq_content (iqueue d))"
    using getline_loop_line [OF assms(1,4), of 0 buf t ws] assms(2,3) less_le_trans [of "buf_len - 1" buf_len "length buf"] by (auto simp: l_def)
  have "(l @ drop (length l) buf)[length l := 0] = l @ [0] @ drop (length l + 1) buf"
    using len assms(3) by (simp add: list_update_append Cons_nth_drop_Suc [symmetric])
  then show ?thesis using d' len assms(2) by (simp add: serial_getline_def)
qed

text \<open>
  Starting a serial driver that already runs rewrites its control register without the
  transmit interrupt: bytes queued at that moment stay queued, and no interrupt asks for them,
  until another byte is put.
\<close>

lemma restart_forgets_pending_output:
  assumes "sdStart (Some c) d = Some d'" "\<not> bit (sc_cr1 c) 7"
  shows "oq_content (oqueue d') = oq_content (oqueue d) \<and> \<not> bit (us_CR1 (usart d')) 7 \<and>
    us_TDR (usart (serve_interrupt (upd_usart (\<lambda>u. u\<lparr>us_ISR := i, us_RDR := r\<rparr>) d'))) = us_TDR (usart d')"
proof -
  have c: "us_CR1 (usart d') = sc_cr1 c OR USART_CR1_UE OR USART_CR1_PEIE OR USART_CR1_RXNEIE OR USART_CR1_TE OR USART_CR1_RE"
    using assms(1) by (auto simp: sdStart_def sd_lld_start_def usart_init_def upd_usart_def Let_def bind_eq_Some_conv split: if_splits)
  have n: "\<not> bit (us_CR1 (usart d')) 7"
    using assms(2) unfolding c by (simp add: bit_or_iff bit_numeral_simps bit_1_iff)
  have k: "us_TDR (usart (if P then serve_tc a d else d)) = us_TDR (usart d)" "us_TDR (usart (if P then chnAddFlagsI f d else d)) = us_TDR (usart d)"
    "us_TDR (usart (if P then set_error j d else d)) = us_TDR (usart d)" "us_TDR (usart (if P then sdIncomingDataI b d else d)) = us_TDR (usart d)"
    for P a d f j b
    by (simp_all add: serve_tc_def)
  have z: "us_CR1 (usart d') AND USART_CR1_TXEIE = 0" using n cr1_bits(1) by blast
  have "us_TDR (usart (serve_interrupt (upd_usart (\<lambda>u. u\<lparr>us_ISR := i, us_RDR := r\<rparr>) d'))) = us_TDR (usart d')"
    unfolding serve_interrupt_def Let_def k flags_simps by (simp add: z k)
  then show ?thesis using n sdStart_effect(1) [OF assms(1)] by simp
qed

end
