(* ===== verification/App_State.thy ===== *)
theory App_State
  imports Chprintf Can Pal Adc Wdg Serial
begin

text \<open>
  The state the application modules share: their static variables, the peripherals they drive,
  the text put to the console port SD2 and the environment a thread meets while it runs.
  \<open>clock\<close> is the sequence of values successive readings of the system time return.  \<open>wakes\<close> is
  the script of wakeups for threads blocked on a transmit mailbox, \<open>arrivals\<close> what the CAN
  peripheral does between two attempts to receive.  \<open>tx_log\<close> records the frames the driver
  accepted, in order.
\<close>

record app =
  logging_level :: nat
  sd2_out :: string
  clock :: "nat \<Rightarrow> systime_t"
  clock_reads :: nat
  CAND1 :: CANDriver
  wakes :: "wake list"
  arrivals :: "(CANDriver \<Rightarrow> CANDriver) list"
  tx_log :: "CANTxFrame list"
  ADCD1 :: ADCDriver
  internal_samples :: "u16 list"
  raw_samples :: "u16 list"
  g_provisioned :: bool
  update_rate_hz :: u8
  g_can_base_address :: u32
  g_selected_can_config :: "CANConfig option"
  system_initialized :: bool
  gpio :: ports
  APB2ENR :: u32
  CFGR1 :: u32
  SD2 :: SerialDriver
  WDGD1 :: WDGDriver
  resets :: nat

text \<open>
  What the code runs on: the peripherals, what the other threads and interrupt handlers did
  to the state while a call was blocked, and the contents of uninitialised local frames.
\<close>

record 's env =
  env_can :: bxcan
  env_adc :: adc_hw
  env_wdg :: "IWDG_TypeDef \<Rightarrow> IWDG_TypeDef"
  interference :: "'s \<Rightarrow> 's"
  uninit_tx :: CANTxFrame
  uninit_rx :: CANRxFrame

type_synonym app_env = "app env"

text \<open>Settings and API numbers (\<^verbatim>\<open>settings.h\<close>, \<^verbatim>\<open>analogx_api.h\<close>).\<close>

abbreviation (input) MAJOR_VER :: u8 where "MAJOR_VER \<equiv> 1"
abbreviation (input) MINOR_VER :: u8 where "MINOR_VER \<equiv> 0"
abbreviation (input) PATCH_VER :: u8 where "PATCH_VER \<equiv> 1"
abbreviation (input) SETTINGS_CHANNEL_COUNT :: u8 where "SETTINGS_CHANNEL_COUNT \<equiv> 9"
abbreviation (input) SYSTEM_RESET_DELAY :: u32 where "SYSTEM_RESET_DELAY \<equiv> 10"
abbreviation (input) CAN_TRANSMIT_TIMEOUT :: u32 where "CAN_TRANSMIT_TIMEOUT \<equiv> 100"
abbreviation (input) DEFAULT_SAMPLE_RATE :: u8 where "DEFAULT_SAMPLE_RATE \<equiv> 50"
abbreviation (input) ANALOGX_CAN_BASE_ID :: u32 where "ANALOGX_CAN_BASE_ID \<equiv> 0xE4600"
abbreviation (input) ANALOGX_CAN_API_RANGE :: u32 where "ANALOGX_CAN_API_RANGE \<equiv> 256"
abbreviation (input) API_ANNOUNCEMENT :: u32 where "API_ANNOUNCEMENT \<equiv> 0"
abbreviation (input) API_STATS :: u32 where "API_STATS \<equiv> 2"
abbreviation (input) API_SET_CONFIG_GROUP_1 :: u32 where "API_SET_CONFIG_GROUP_1 \<equiv> 3"
abbreviation (input) API_BROADCAST_SENSORS :: u32 where "API_BROADCAST_SENSORS \<equiv> 20"

section \<open>Time\<close>

text \<open>The conversion macros of \<^verbatim>\<open>chvt.h\<close> in 32 bit arithmetic, at 10000 ticks per second.\<close>

definition MS2ST :: "u32 \<Rightarrow> systime_t" where "MS2ST msec = (msec * 10000 + 999) div 1000"
definition ST2MS :: "systime_t \<Rightarrow> u32" where "ST2MS n = (n * 1000 + 10000 - 1) div 10000"

definition chVTGetSystemTimeX :: "app \<Rightarrow> systime_t \<times> app" where
  "chVTGetSystemTimeX s = (clock s (clock_reads s), s\<lparr>clock_reads := clock_reads s + 1\<rparr>)"

lemma MS2ST_exact:
  assumes "unat ms * 10000 + 999 < 2 ^ 32"
  shows "unat (MS2ST ms) = unat ms * 10"
proof -
  have "unat (ms * 10000 + 999) = unat ms * 10000 + 999"
  proof -
    have "unat (ms * 10000) = unat ms * 10000"
      using assms by (subst unat_mult_lem [THEN iffD1]) auto
    then show ?thesis using assms by (subst unat_add_small) auto
  qed
  then show ?thesis by (simp add: MS2ST_def)
qed

section \<open>Handing a frame to the driver\<close>

definition send_frame :: "app_env \<Rightarrow> nat \<Rightarrow> CANTxFrame \<Rightarrow> app \<Rightarrow> app option" where
  "send_frame env self f s =
     do {
       (m, ws, d) \<leftarrow> canTransmit (env_can env) self CAN_ANY_MAILBOX f (MS2ST CAN_TRANSMIT_TIMEOUT) (wakes s) (CAND1 s);
       let s' = s\<lparr>CAND1 := d, wakes := ws, tx_log := (if m = MSG_OK then tx_log s @ [f] else tx_log s)\<rparr>;
       Some (if ws = wakes s then s' else interference env s')
     }"

section \<open>A state to evaluate the application on\<close>

definition sample_port :: stm32_gpio_t where
  "sample_port = \<lparr>MODER = 0, OTYPER = 0, OSPEEDR = 0, PUPDR = 0, IDR = 0, ODR = 0, BSRR_set = 0,
     BSRR_clear = 0, LCKR = 0, AFRL = 0, AFRH = 0\<rparr>"

definition sample_wdg :: WDGDriver where
  "sample_wdg = \<lparr>wd_state = WDG_STOP, wd_config = None, wdg = \<lparr>KR = [], PR = 0, RLR = 0xFFF, SR = 0, WINR = 0xFFF\<rparr>\<rparr>"

definition sample_app :: app where
  "sample_app = \<lparr>logging_level = 1, sd2_out = [], clock = (\<lambda>_. 0), clock_reads = 0, CAND1 = sample_driver,
     wakes = [], arrivals = [], tx_log = [], ADCD1 = sample_adcd, internal_samples = [0, 0, 0, 0],
     raw_samples = [0, 0, 0, 0], g_provisioned = False, update_rate_hz = DEFAULT_SAMPLE_RATE,
     g_can_base_address = ANALOGX_CAN_BASE_ID, g_selected_can_config = None, system_initialized = False,
     gpio = (\<lambda>_. sample_port), APB2ENR = 0, CFGR1 = 0, SD2 = sample_sd, WDGD1 = sample_wdg, resets = 0\<rparr>"

definition sample_env :: app_env where
  "sample_env = \<lparr>env_can = sample_can, env_adc = sample_adc, env_wdg = (\<lambda>w. w\<lparr>SR := 0\<rparr>),
     interference = (\<lambda>s. s),
     uninit_tx = sample_frame, uninit_rx = sample_rx\<rparr>"

end
