(* ===== verification/Logging.thy ===== *)
theory Logging
  imports App_State
begin

text \<open>
  \<^verbatim>\<open>logging.[ch]\<close>: the level-guarded log macros, which print a millisecond time stamp and then
  the message on the console port, and the frame loggers.  \<open>None\<close> is a call outside what C
  defines: a format without its argument, or a read beyond the eight data bytes of a frame.
\<close>

abbreviation (input) logging_level_none :: nat where "logging_level_none \<equiv> 0"
abbreviation (input) logging_level_info :: nat where "logging_level_info \<equiv> 1"
abbreviation (input) logging_level_debug :: nat where "logging_level_debug \<equiv> 2"

text \<open>The line end every message carries.\<close>

definition crlf :: string where "crlf = [CHR 0x0D, CHR 0x0A]"

definition set_logging_level :: "nat \<Rightarrow> app \<Rightarrow> app" where
  "set_logging_level level s = (if level > logging_level_debug then s else s\<lparr>logging_level := level\<rparr>)"

definition get_logging_level :: "app \<Rightarrow> nat" where "get_logging_level s = logging_level s"

definition sd2_put :: "char \<Rightarrow> app \<Rightarrow> app" where "sd2_put c s = s\<lparr>sd2_out := sd2_out s @ [c]\<rparr>"

definition sd2_printf :: "string \<Rightarrow> va list \<Rightarrow> app \<Rightarrow> app option" where
  "sd2_printf fmt args s = map_option fst (chprintf sd2_put s fmt args)"

definition log_at :: "nat \<Rightarrow> string \<Rightarrow> va list \<Rightarrow> app \<Rightarrow> app option" where
  "log_at level fmt args s =
     (if get_logging_level s \<ge> level
      then do {
        let (t, s) = chVTGetSystemTimeX s;
        s \<leftarrow> sd2_printf ''%i '' [VInt (ST2MS t)] s;
        sd2_printf fmt args s
      }
      else Some s)"

definition log_info :: "string \<Rightarrow> va list \<Rightarrow> app \<Rightarrow> app option" where
  "log_info = log_at logging_level_info"

definition log_debug :: "string \<Rightarrow> va list \<Rightarrow> app \<Rightarrow> app option" where
  "log_debug = log_at logging_level_debug"

definition log_info_b :: "string \<Rightarrow> va list \<Rightarrow> app \<Rightarrow> app option" where
  "log_info_b fmt args s =
     (if get_logging_level s \<ge> logging_level_info then sd2_printf fmt args s else Some s)"

definition log_debug_b :: "string \<Rightarrow> va list \<Rightarrow> app \<Rightarrow> app option" where
  "log_debug_b fmt args s =
     (if get_logging_level s \<ge> logging_level_debug then sd2_printf fmt args s else Some s)"

fun log_bytes :: "nat \<Rightarrow> nat \<Rightarrow> u8 list \<Rightarrow> app \<Rightarrow> app option" where
  "log_bytes i 0 data s = Some s"
| "log_bytes i (Suc n) data s =
     (if i < length data
      then do { s \<leftarrow> log_debug_b ''%02X '' [VInt (ucast (data ! i))] s; log_bytes (Suc i) n data s }
      else None)"

definition log_debug_can_frame :: "4 word \<Rightarrow> 1 word \<Rightarrow> u32 \<Rightarrow> u32 \<Rightarrow> u8 list \<Rightarrow> app \<Rightarrow> app option" where
  "log_debug_can_frame dlc ide sid eid data s =
     do {
       let can_id = (if ide = CAN_IDE_EXT then eid else sid);
       s \<leftarrow> log_debug_b '' ID(%i) '' [VInt can_id] s;
       log_bytes 0 (unat dlc) data s
     }"

definition log_CAN_rx_message :: "string \<Rightarrow> CANRxFrame \<Rightarrow> app \<Rightarrow> app option" where
  "log_CAN_rx_message log_pfx f s =
     (if get_logging_level s < logging_level_debug then Some s
      else do {
        s \<leftarrow> log_debug log_pfx [] s;
        s \<leftarrow> log_debug_b ''CAN Rx'' [] s;
        log_debug_can_frame (rx_DLC f) (rx_IDE f) (get_SID (rx_id f)) (get_EID (rx_id f)) (rx_data8 f) s
      })"

definition log_CAN_tx_message :: "string \<Rightarrow> CANTxFrame \<Rightarrow> app \<Rightarrow> app option" where
  "log_CAN_tx_message log_pfx f s =
     (if get_logging_level s < logging_level_info then Some s
      else do {
        s \<leftarrow> log_info log_pfx [] s;
        s \<leftarrow> log_info_b ''CAN Tx'' [] s;
        s \<leftarrow> (if get_logging_level s \<ge> logging_level_debug
             then log_debug_can_frame (tx_DLC f) (tx_IDE f) (get_SID (tx_id f)) (get_EID (tx_id f)) (tx_data8 f) s
             else Some s);
        log_info_b crlf [] s
      })"

section \<open>What a log call does\<close>

definition plain :: "string \<Rightarrow> bool" where "plain t \<longleftrightarrow> (\<forall>c \<in> set t. c \<noteq> CHR ''%'' \<and> c \<noteq> NUL)"

lemma plain_simps [simp]:
  "plain []" "plain (c # t) \<longleftrightarrow> c \<noteq> CHR ''%'' \<and> c \<noteq> NUL \<and> plain t" "plain (t @ u) \<longleftrightarrow> plain t \<and> plain u"
  by (auto simp: plain_def)

lemma plain_crlf [simp]: "plain crlf"
  by (simp add: crlf_def)

lemma fmt_text_plain: "plain t \<Longrightarrow> fmt_text (t @ u) ap = map_option ((@) t) (fmt_text u ap)"
  by (cases "fmt_text u ap"; induction t) auto

lemma rendered_plain_prefix: "plain t \<Longrightarrow> rendered (t @ u) ap = map_option ((@) t) (rendered u ap)"
  by (simp add: rendered_def cstring_def fmt_text_plain)

lemma rendered_Nil [simp]: "rendered [] ap = Some []"
  by (simp add: rendered_def cstring_def)

lemma rendered_plain: "plain t \<Longrightarrow> rendered t ap = Some t"
  using rendered_plain_prefix [of t "[]" ap] by simp

lemmas fmt_defs = rendered_def cstring_def format_spec_def spec_flags_def parse_precision_def long_modifier_def
  conversion_def field_text_def is_dec_def Let_def

lemma fmt_i: "fmt_text (CHR ''%'' # CHR ''i'' # u) (VInt v # ap) = map_option ((@) (signed_text v)) (fmt_text u ap)"
  by (simp add: fmt_defs)

lemma fmt_d: "fmt_text (CHR ''%'' # CHR ''d'' # u) (VInt v # ap) = map_option ((@) (signed_text v)) (fmt_text u ap)"
  by (simp add: fmt_defs)

lemma fmt_u: "fmt_text (CHR ''%'' # CHR ''u'' # u) (VInt v # ap) = map_option ((@) (ch_ltoa v 10)) (fmt_text u ap)"
  by (simp add: fmt_defs)

lemma fmt_02X: "fmt_text (CHR ''%'' # CHR ''0'' # CHR ''2'' # CHR ''X'' # u) (VInt v # ap) =
    map_option ((@) (field_text False (CHR ''0'') 2 (ch_ltoa v 16))) (fmt_text u ap)"
  by (simp add: fmt_defs numeral_2_eq_2)

lemmas fmt_conversions = fmt_i fmt_d fmt_u fmt_02X

text \<open>A log call changes the console text and the count of clock readings, nothing else.\<close>

definition logged :: "string \<Rightarrow> app \<Rightarrow> app \<Rightarrow> bool" where
  "logged t s s' \<longleftrightarrow> (\<exists>k. s' = s\<lparr>sd2_out := sd2_out s @ t, clock_reads := k\<rparr>)"

lemma logged_intros:
  "logged [] s s" "logged t s (s\<lparr>sd2_out := sd2_out s @ t\<rparr>)"
  "logged t s (s\<lparr>sd2_out := sd2_out s @ t, clock_reads := k\<rparr>)"
  by (auto simp: logged_def intro: exI [of _ "clock_reads s"])

lemma logged_trans: "logged t s s' \<Longrightarrow> logged u s' s'' \<Longrightarrow> logged (t @ u) s s''"
  by (auto simp: logged_def)

lemma loggedD:
  assumes "logged t s s'"
  shows "logging_level s' = logging_level s" "CAND1 s' = CAND1 s" "wakes s' = wakes s" "arrivals s' = arrivals s"
    "tx_log s' = tx_log s" "ADCD1 s' = ADCD1 s" "internal_samples s' = internal_samples s"
    "raw_samples s' = raw_samples s" "g_provisioned s' = g_provisioned s" "update_rate_hz s' = update_rate_hz s"
    "g_can_base_address s' = g_can_base_address s" "g_selected_can_config s' = g_selected_can_config s"
    "gpio s' = gpio s" "clock s' = clock s" "sd2_out s' = sd2_out s @ t"
  using assms by (auto simp: logged_def)

lemma fold_sd2_put: "fold sd2_put t s = s\<lparr>sd2_out := sd2_out s @ t\<rparr>"
  by (induction t arbitrary: s) (simp_all add: sd2_put_def)

lemma sd2_printf_rendered: "sd2_printf fmt args s = map_option (\<lambda>t. s\<lparr>sd2_out := sd2_out s @ t\<rparr>) (rendered fmt args)"
  by (simp add: sd2_printf_def chprintf_rendered option.map_comp comp_def fold_sd2_put)

lemma log_at_rendered:
  assumes "rendered fmt args = Some t"
  shows "log_at level fmt args s = Some (if logging_level s \<ge> level
    then s\<lparr>sd2_out := sd2_out s @ signed_text (ST2MS (clock s (clock_reads s))) @ '' '' @ t, clock_reads := clock_reads s + 1\<rparr>
    else s)"
proof -
  have "rendered ''%i '' [VInt v] = Some (signed_text v @ '' '')" for v
    using fmt_i [of "'' '' @ [NUL]" v "[]"] by (simp add: rendered_def cstring_def)
  then show ?thesis
    using assms by (simp add: log_at_def sd2_printf_rendered chVTGetSystemTimeX_def get_logging_level_def)
qed

lemma log_at_logged:
  assumes "rendered fmt args \<noteq> None"
  shows "\<exists>s' t. log_at level fmt args s = Some s' \<and> logged t s s'"
proof -
  obtain t where "rendered fmt args = Some t" using assms by auto
  then show ?thesis
    unfolding log_at_rendered [OF \<open>rendered fmt args = Some t\<close>]
    using logged_intros(1,3) [where s = s] by (cases "level \<le> logging_level s") auto
qed

lemma log_b_logged:
  assumes "rendered fmt args \<noteq> None"
  shows "\<exists>s' t. log_debug_b fmt args s = Some s' \<and> logged t s s'" "\<exists>s' t. log_info_b fmt args s = Some s' \<and> logged t s s'"
  using assms logged_intros(1,2) [where s = s]
  by (auto simp: log_debug_b_def log_info_b_def sd2_printf_rendered)

lemma log_atD:
  assumes "log_at level fmt args s = Some s'"
  shows "\<exists>t. logged t s s'"
proof (cases "rendered fmt args")
  case None
  then show ?thesis
    using assms logged_intros(1) [where s = s]
    by (auto simp: log_at_def sd2_printf_rendered bind_eq_Some_conv split: if_splits prod.splits)
next
  case (Some t)
  then show ?thesis using log_at_logged [of fmt args level s] assms by auto
qed

lemma log_bD:
  assumes "log_debug_b fmt args s = Some s' \<or> log_info_b fmt args s = Some s'"
  shows "\<exists>t. logged t s s'"
  using assms logged_intros(1,2) [where s = s]
  by (auto simp: log_debug_b_def log_info_b_def sd2_printf_rendered split: if_splits)

section \<open>Frame logging\<close>

lemma rendered_02X: "rendered ''%02X '' [VInt v] \<noteq> None"
  by (simp add: fmt_defs)

lemma log_bytes_logged: "i + n \<le> length data \<Longrightarrow> \<exists>s' t. log_bytes i n data s = Some s' \<and> logged t s s'"
proof (induction n arbitrary: i s)
  case 0
  then show ?case using logged_intros(1) by auto
next
  case (Suc n)
  obtain s1 t1 where 1: "log_debug_b ''%02X '' [VInt (ucast (data ! i))] s = Some s1" "logged t1 s s1"
    using log_b_logged(1) [OF rendered_02X] by blast
  obtain s2 t2 where 2: "log_bytes (Suc i) n data s1 = Some s2" "logged t2 s1 s2"
    using Suc.IH [of "Suc i" s1] Suc.prems by auto
  show ?case using 1(1) 2(1) Suc.prems logged_trans [OF 1(2) 2(2)] by auto
qed

lemma log_bytes_short: "length data < i + n \<Longrightarrow> i \<le> length data \<Longrightarrow> log_bytes i n data s = None"
proof (induction n arbitrary: i s)
  case (Suc n)
  then show ?case by (cases "i < length data") (auto simp: bind_eq_None_conv)
qed simp

lemma rendered_ID: "rendered '' ID(%i) '' [VInt v] \<noteq> None"
  by (simp add: fmt_defs)

lemma log_debug_can_frame_logged:
  assumes "unat dlc \<le> length data"
  shows "\<exists>s' t. log_debug_can_frame dlc ide sid eid data s = Some s' \<and> logged t s s'"
proof -
  obtain s1 t1 where 1: "log_debug_b '' ID(%i) '' [VInt (if ide = 1 then eid else sid)] s = Some s1" "logged t1 s s1"
    using log_b_logged(1) [OF rendered_ID] by blast
  obtain s2 t2 where 2: "log_bytes 0 (unat dlc) data s1 = Some s2" "logged t2 s1 s2"
    using log_bytes_logged [of 0 "unat dlc" data s1] assms by auto
  show ?thesis using 1(1) 2(1) logged_trans [OF 1(2) 2(2)] by (auto simp: log_debug_can_frame_def)
qed

lemma log_rx_logged:
  assumes "unat (rx_DLC f) \<le> length (rx_data8 f) \<or> logging_level s < logging_level_debug" "plain pfx"
  shows "\<exists>s' t. log_CAN_rx_message pfx f s = Some s' \<and> logged t s s'"
proof (cases "logging_level s < logging_level_debug")
  case True
  then show ?thesis using logged_intros(1) by (auto simp: log_CAN_rx_message_def get_logging_level_def)
next
  case False
  obtain s1 t1 where 1: "log_debug pfx [] s = Some s1" "logged t1 s s1"
    using log_at_logged [of pfx "[]" 2 s] rendered_plain [OF assms(2), of "[]"] unfolding log_debug_def by auto
  obtain s2 t2 where 2: "log_debug_b ''CAN Rx'' [] s1 = Some s2" "logged t2 s1 s2"
    using log_b_logged(1) [of "''CAN Rx''" "[]" s1] rendered_plain [of "''CAN Rx''"] by auto
  obtain s3 t3 where 3: "log_debug_can_frame (rx_DLC f) (rx_IDE f) (get_SID (rx_id f)) (get_EID (rx_id f)) (rx_data8 f) s2 = Some s3"
      "logged t3 s2 s3"
    using log_debug_can_frame_logged assms(1) False by meson
  show ?thesis
    using False 1(1) 2(1) 3(1) logged_trans [OF logged_trans [OF 1(2) 2(2)] 3(2)]
    by (auto simp: log_CAN_rx_message_def get_logging_level_def)
qed

text \<open>
  C11: logging a received frame.  Below debug level nothing happens.  At debug level the call
  prints and returns when the frame's length code is at most 8; a length code of 9 to 15, which
  the 4 bit field of a received frame can hold, makes it read past the eight data bytes.
\<close>

theorem log_CAN_rx_message_bounds:
  assumes "length (rx_data8 f) = 8" "plain pfx"
  shows "(if get_logging_level s < logging_level_debug then log_CAN_rx_message pfx f s = Some s
    else if unat (rx_DLC f) \<le> 8 then \<exists>s' t. log_CAN_rx_message pfx f s = Some s' \<and> logged t s s'
    else log_CAN_rx_message pfx f s = None)"
proof -
  have n: "log_CAN_rx_message pfx f s = None" if "8 < unat (rx_DLC f)" "\<not> get_logging_level s < 2"
    using that assms(1)
    by (auto simp: log_CAN_rx_message_def log_debug_can_frame_def log_bytes_short bind_eq_None_conv)
  then show ?thesis
    using log_rx_logged [of f s pfx] assms by (auto simp: log_CAN_rx_message_def)
qed

theorem log_CAN_rx_message_bounds_witness:
  "log_CAN_rx_message ''SYS_CAN:     '' (sample_rx\<lparr>rx_DLC := 15\<rparr>) (set_logging_level 2 sample_app) = None"
  using log_CAN_rx_message_bounds [of "sample_rx\<lparr>rx_DLC := 15\<rparr>" "''SYS_CAN:     ''" "set_logging_level 2 sample_app"]
  by (simp add: sample_rx_def set_logging_level_def get_logging_level_def)

end
