(* ===== verification/Analogx_api.thy ===== *)
theory Analogx_api
  imports Logging
begin

text \<open>
  \<^verbatim>\<open>analogx_api.[ch]\<close>: the device configuration, the provisioned flag and the announcement; and
  the two helpers of \<^verbatim>\<open>system_CAN.c\<close> it uses, \<open>get_can_base_id\<close> and \<open>prepare_can_tx_message\<close>.
\<close>

section \<open>Preparing frames\<close>

definition get_can_base_id :: "app \<Rightarrow> u32" where "get_can_base_id s = g_can_base_address s"

definition prepare_can_tx_message :: "u8 \<Rightarrow> u32 \<Rightarrow> CANTxFrame \<Rightarrow> CANTxFrame" where
  "prepare_can_tx_message can_id_type can_id f =
     (let f = f\<lparr>tx_IDE := ucast can_id_type\<rparr>;
          f = (if can_id_type = 1 then f\<lparr>tx_id := set_EID can_id (tx_id f)\<rparr>
               else f\<lparr>tx_id := set_SID can_id (tx_id f)\<rparr>)
      in f\<lparr>tx_RTR := 0, tx_DLC := 8,
           tx_data8 := [0x55, 0x55, 0x55, 0x55, 0x55, 0x55, 0x55, 0x55]\<rparr>)"

text \<open>The messages of the module.\<close>

definition msg_invalid_params :: string where
  "msg_invalid_params = ''API:         Invalid params for set config group 1'' @ crlf"

definition msg_announcement :: string where
  "msg_announcement = ''API:         Broadcast announcement'' @ crlf"

section \<open>Configuration\<close>

definition api_is_provisoned :: "app \<Rightarrow> bool" where "api_is_provisoned s = g_provisioned s"

definition set_api_is_provisioned :: "bool \<Rightarrow> app \<Rightarrow> app" where
  "set_api_is_provisioned provisioned s = s\<lparr>g_provisioned := provisioned\<rparr>"

definition api_initialize :: "app \<Rightarrow> app" where "api_initialize s = s"

definition get_sample_rate :: "app \<Rightarrow> u8" where "get_sample_rate s = update_rate_hz s"

definition set_sample_rate :: "u8 \<Rightarrow> app \<Rightarrow> app" where
  "set_sample_rate sample_rate s = s\<lparr>update_rate_hz := sample_rate\<rparr>"

definition api_set_config_group_1 :: "CANRxFrame \<Rightarrow> app \<Rightarrow> app option" where
  "api_set_config_group_1 rx_msg s =
     (if rx_DLC rx_msg < 1
      then log_info msg_invalid_params [] s
      else Some (set_sample_rate (rx_data8 rx_msg ! 0) s))"

section \<open>Announcement\<close>

definition announcement :: "CANTxFrame \<Rightarrow> u32 \<Rightarrow> CANTxFrame" where
  "announcement f base =
     (let f = prepare_can_tx_message 1 base f
      in f\<lparr>tx_data8 := (tx_data8 f)[0 := SETTINGS_CHANNEL_COUNT, 1 := 0x55, 2 := 0x55, 3 := 0x55, 4 := 0x55,
             5 := MAJOR_VER, 6 := MINOR_VER, 7 := PATCH_VER], tx_DLC := 8\<rparr>)"

definition api_send_announcement :: "app_env \<Rightarrow> nat \<Rightarrow> app \<Rightarrow> app option" where
  "api_send_announcement env self s =
     do {
       s \<leftarrow> send_frame env self (announcement (uninit_tx env) (get_can_base_id s)) s;
       log_info msg_announcement [] s
     }"

section \<open>Frames of the API\<close>

text \<open>
  The shape every frame the firmware sends has: extended data frame, eight bytes, identifier
  at an offset from the base address.
\<close>

definition api_frame :: "u32 \<Rightarrow> u32 \<Rightarrow> u8 list \<Rightarrow> CANTxFrame \<Rightarrow> bool" where
  "api_frame base offset data f \<longleftrightarrow> tx_IDE f = 1 \<and> tx_RTR f = 0 \<and> tx_DLC f = 8 \<and>
     get_EID (tx_id f) = (base + offset) AND 0x1FFFFFFF \<and> tx_data8 f = data \<and> length data = 8"

lemma prepare_api_frame:
  "api_frame base offset (replicate 8 0x55) (prepare_can_tx_message 1 (base + offset) f)"
  by (simp add: api_frame_def prepare_can_tx_message_def Let_def eval_nat_numeral)

lemma announcement_frame:
  "api_frame base API_ANNOUNCEMENT [SETTINGS_CHANNEL_COUNT, 0x55, 0x55, 0x55, 0x55, MAJOR_VER, MINOR_VER, PATCH_VER]
     (announcement f base)"
  by (simp add: api_frame_def announcement_def prepare_can_tx_message_def Let_def)

text \<open>
  The announcement is complete and well-formed whatever the uninitialised local frame held:
  extended data frame at the base address, eight bytes, channel count in byte 0, version in
  bytes 5 to 7.
\<close>

lemma announcement_payload:
  "tx_IDE (announcement f base) = 1 \<and> tx_RTR (announcement f base) = 0 \<and> tx_DLC (announcement f base) = 8 \<and>
   get_EID (tx_id (announcement f base)) = base AND 0x1FFFFFFF \<and>
   tx_data8 (announcement f base) = [9, 0x55, 0x55, 0x55, 0x55, 1, 0, 1]"
  using announcement_frame [of base f] by (simp add: api_frame_def)

section \<open>Sending\<close>

lemma MS2ST_timeout: "MS2ST CAN_TRANSMIT_TIMEOUT \<noteq> 0"
  by (simp add: MS2ST_def)

text \<open>
  A frame handed over by a thread: when a mailbox is free it is taken at once, the frame is
  recorded and only driver registers change.
\<close>

lemma send_frame_free:
  assumes "\<not> tx_blocked CAN_ANY_MAILBOX (CAND1 s)"
  shows "send_frame env self f s =
    Some (s\<lparr>CAND1 := upd_can (can_lld_transmit (env_can env) CAN_ANY_MAILBOX f) (CAND1 s), tx_log := tx_log s @ [f]\<rparr>)"
  using assms by (simp add: send_frame_def canTransmit_unblocked)

text \<open>Either the frame is appended to the log of accepted frames or it is not.\<close>

lemma send_frame_cases:
  assumes "send_frame env self f s = Some s'"
  obtains d ws l where "l = tx_log s \<or> l = tx_log s @ [f]"
    "s' = s\<lparr>CAND1 := d, wakes := ws, tx_log := l\<rparr> \<or> s' = interference env (s\<lparr>CAND1 := d, wakes := ws, tx_log := l\<rparr>)"
proof -
  obtain m ws d where "s' = (let s' = s\<lparr>CAND1 := d, wakes := ws, tx_log := (if m = MSG_OK then tx_log s @ [f] else tx_log s)\<rparr>
      in if ws = wakes s then s' else interference env s')"
    using assms by (auto simp: send_frame_def bind_eq_Some_conv Let_def)
  then show ?thesis
    using that [of "if m = MSG_OK then tx_log s @ [f] else tx_log s" ws d]
    by (cases "ws = wakes s"; cases "m = MSG_OK") (simp_all only: Let_def if_True if_False simp_thms)
qed

lemma announcement_logged: "rendered msg_announcement [] \<noteq> None"
  unfolding msg_announcement_def by (subst rendered_plain) simp_all

lemma invalid_params_logged: "rendered msg_invalid_params [] \<noteq> None"
  unfolding msg_invalid_params_def by (subst rendered_plain) simp_all

lemma api_send_announcement_free:
  assumes "\<not> tx_blocked CAN_ANY_MAILBOX (CAND1 s)"
  shows "\<exists>s' t. api_send_announcement env self s = Some s' \<and>
    logged t (s\<lparr>CAND1 := upd_can (can_lld_transmit (env_can env) CAN_ANY_MAILBOX
        (announcement (uninit_tx env) (g_can_base_address s))) (CAND1 s),
      tx_log := tx_log s @ [announcement (uninit_tx env) (g_can_base_address s)]\<rparr>) s'"
  using log_at_logged [OF announcement_logged, of 1] assms
  by (simp add: api_send_announcement_def send_frame_free get_can_base_id_def log_info_def)

end
