(* ===== verification/System_CAN.thy ===== *)
theory System_CAN
  imports Analogx_api
begin

text \<open>
  \<^verbatim>\<open>system_CAN.c\<close>: reading the address and baud rate jumpers, bringing up the CAN peripheral,
  dispatching received frames and the receiver thread.  The thread is split at its blocking
  points: start-up after the initial sleep, and one loop iteration for each result of
  \<^verbatim>\<open>chEvtWaitAnyTimeout\<close>.
\<close>

section \<open>Initialisation\<close>

definition cancfg_500K :: CANConfig where
  "cancfg_500K = \<lparr>cfg_mcr = CAN_MCR_ABOM OR CAN_MCR_AWUM OR CAN_MCR_TXFP OR CAN_MCR_NART,
     cfg_btr = push_bit 24 1 OR push_bit 16 11 OR push_bit 20 2 OR 5\<rparr>"

definition cancfg_1MB :: CANConfig where
  "cancfg_1MB = \<lparr>cfg_mcr = CAN_MCR_ABOM OR CAN_MCR_AWUM OR CAN_MCR_TXFP OR CAN_MCR_NART,
     cfg_btr = push_bit 24 1 OR push_bit 16 11 OR push_bit 20 2 OR 2\<rparr>"

definition select_can_configuration :: "app \<Rightarrow> CANConfig \<times> app" where
  "select_can_configuration s =
     (let s = s\<lparr>gpio := palSetPadMode GPIOA 2 (PAL_STM32_MODE_INPUT OR PAL_STM32_PUPDR_PULLUP) (gpio s)\<rparr>
      in (if palReadPad GPIOA 2 (gpio s) = PAL_HIGH then cancfg_1MB else cancfg_500K, s))"

definition init_can_gpio :: "app_env \<Rightarrow> app \<Rightarrow> app option" where
  "init_can_gpio env s =
     do {
       let ps = gpio s;
       let ps = palSetPadMode GPIOA 1 PAL_STM32_MODE_OUTPUT ps;
       let ps = palClearPad GPIOA 1 ps;
       let ps = palSetPadMode GPIOA 11 (PAL_STM32_MODE_ALTERNATE OR PAL_STM32_ALTERNATE 4) ps;
       let ps = palSetPadMode GPIOA 12 (PAL_STM32_MODE_ALTERNATE OR PAL_STM32_ALTERNATE 4) ps;
       cfg \<leftarrow> g_selected_can_config s;
       d \<leftarrow> canStart (env_can env) cfg (CAND1 s);
       Some (s\<lparr>APB2ENR := APB2ENR s OR 1, CFGR1 := CFGR1 s OR 0x10, gpio := ps, CAND1 := d\<rparr>)
     }"

definition init_can_operating_parameters :: "app \<Rightarrow> app" where
  "init_can_operating_parameters s =
     (let ps = palSetPadMode GPIOA 0 (PAL_STM32_MODE_INPUT OR PAL_STM32_PUPDR_PULLUP) (gpio s);
          ps = palSetPadMode GPIOA 4 (PAL_STM32_MODE_INPUT OR PAL_STM32_PUPDR_PULLUP) ps;
          offset = (if palReadPad GPIOA 0 ps = PAL_HIGH then 0x01 else 0x00)
                OR (if palReadPad GPIOA 4 ps = PAL_HIGH then 0x02 else 0x00);
          s = s\<lparr>gpio := ps, g_can_base_address := g_can_base_address s + ANALOGX_CAN_API_RANGE * offset\<rparr>;
          (cfg, s) = select_can_configuration s
      in s\<lparr>g_selected_can_config := Some cfg\<rparr>)"

definition system_can_init :: "app_env \<Rightarrow> app \<Rightarrow> app option" where
  "system_can_init env s = init_can_gpio env (init_can_operating_parameters s)"

section \<open>Dispatch\<close>

definition rx_can_id :: "CANRxFrame \<Rightarrow> u32" where
  "rx_can_id f = (if rx_IDE f = CAN_IDE_EXT then get_EID (rx_id f) else get_SID (rx_id f))"

definition dispatch_can_rx :: "CANRxFrame \<Rightarrow> app \<Rightarrow> (bool \<times> app) option" where
  "dispatch_can_rx rx_msg s =
     (if rx_can_id rx_msg - g_can_base_address s = API_SET_CONFIG_GROUP_1
      then do {
        s \<leftarrow> api_set_config_group_1 rx_msg s;
        Some (True, set_api_is_provisioned True s)
      }
      else Some (False, s))"

section \<open>The receiver thread\<close>

definition next_arrival :: "app \<Rightarrow> app" where
  "next_arrival s = (case arrivals s of [] \<Rightarrow> s
     | a # as \<Rightarrow> s\<lparr>CAND1 := a (CAND1 s), arrivals := as\<rparr>)"

partial_function (option) can_rx_loop :: "app_env \<Rightarrow> nat \<Rightarrow> CANRxFrame \<Rightarrow> app \<Rightarrow> app option" where
  "can_rx_loop env self rx_msg s0 =
     (let s = next_arrival s0
      in case canReceive (env_can env) self CAN_ANY_MAILBOX rx_msg TIME_IMMEDIATE [] (CAND1 s) of
           None \<Rightarrow> None
         | Some (m, rx, ws, d) \<Rightarrow>
             if m = MSG_OK
             then do {
               s1 \<leftarrow> log_CAN_rx_message ''SYS_CAN:     '' rx (s\<lparr>CAND1 := d\<rparr>);
               (b, s2) \<leftarrow> dispatch_can_rx rx s1;
               can_rx_loop env self rx s2
             }
             else Some (s\<lparr>CAND1 := d\<rparr>))"

definition msg_base_address :: string where "msg_base_address = ''SYS_CAN:     CAN base address: %u'' @ crlf"
definition msg_baud_500K :: string where "msg_baud_500K = ''SYS_CAN:     CAN baud: 500K'' @ crlf"
definition msg_baud_1MB :: string where "msg_baud_1MB = ''SYS_CAN:     CAN baud: 1MB'' @ crlf"
definition msg_baud_unknown :: string where "msg_baud_unknown = ''SYS_CAN:     CAN baud: unknown / invalid'' @ crlf"

definition can_worker_start :: "app_env \<Rightarrow> nat \<Rightarrow> app \<Rightarrow> app option" where
  "can_worker_start env self s =
     do {
       let s = interference env s;
       s \<leftarrow> log_info msg_base_address [VInt (g_can_base_address s)] s;
       s \<leftarrow> (if g_selected_can_config s = Some cancfg_500K then log_info msg_baud_500K [] s
            else if g_selected_can_config s = Some cancfg_1MB then log_info msg_baud_1MB [] s
            else log_info msg_baud_unknown [] s);
       api_send_announcement env self s
     }"

text \<open>One iteration: \<open>evt\<close> is the event mask the wait returned, 0 on its one second timeout.\<close>

definition can_worker_iter :: "app_env \<Rightarrow> nat \<Rightarrow> u32 \<Rightarrow> app \<Rightarrow> app option" where
  "can_worker_iter env self evt s =
     (let s = interference env s
      in if evt = 0
         then if \<not> api_is_provisoned s then api_send_announcement env self s else Some s
         else can_rx_loop env self (uninit_rx env) s)"

section \<open>Jumpers\<close>

lemma set_pad_IDR: "IDR (set_pad mode altr ot os pu mo bt gp) = IDR gp"
  by (simp add: set_pad_def set_afr_def Let_def)

lemma setgroupmode_loop_IDR: "IDR (setgroupmode_loop mode altr msk ot os pu mo bt gp) = IDR gp"
proof (induction mode altr msk ot os pu mo bt gp rule: setgroupmode_loop.induct)
  case (1 mode altr msk ot os pu mo bt gp)
  show ?case
  proof (cases "drop_bit 1 msk = 0")
    case True
    then show ?thesis by (subst setgroupmode_loop.simps) (simp add: Let_def set_pad_IDR)
  next
    case False
    show ?thesis
      by (subst setgroupmode_loop.simps) (simp only: Let_def False if_False 1 [OF refl refl False] set_pad_IDR if_distrib [of IDR] if_cancel)
  qed
qed

lemma palReadPad_frame [simp]:
  "palReadPad port pad (palSetPadMode p q m ps) = palReadPad port pad ps"
  by (simp add: palReadPad_def palSetPadMode_def palSetGroupMode_def pal_lld_setgroupmode_def setgroupmode_loop_IDR)

definition jumper :: "nat \<Rightarrow> app \<Rightarrow> bool" where
  "jumper pad s = (palReadPad GPIOA pad (gpio s) = PAL_HIGH)"

lemma operating_parameters:
  "g_can_base_address (init_can_operating_parameters s) = g_can_base_address s +
     256 * ((if jumper 0 s then 1 else 0) + (if jumper 4 s then 2 else 0))"
  "g_selected_can_config (init_can_operating_parameters s) = Some (if jumper 2 s then cancfg_1MB else cancfg_500K)"
  "CAND1 (init_can_operating_parameters s) = CAND1 s"
  by (simp_all add: init_can_operating_parameters_def select_can_configuration_def jumper_def Let_def)

lemma canStart_btr:
  assumes "bxcan_ctl_ok hw" "canStart hw cfg d = Some d'"
  shows "BTR (can d') = cfg_btr cfg" "MCR (can d') = cfg_mcr cfg"
proof -
  obtain r where r: "can d' = (hw_MCR hw (cfg_mcr cfg) (r\<lparr>BTR := cfg_btr cfg\<rparr>))\<lparr>IER := IER (can d')\<rparr>"
    using assms(2) by (auto simp: canStart_def can_lld_start_def Let_def bind_eq_Some_conv)
  obtain t where "hw_MCR hw (cfg_mcr cfg) (r\<lparr>BTR := cfg_btr cfg\<rparr>) = r\<lparr>BTR := cfg_btr cfg, MCR := cfg_mcr cfg, MSR := t\<rparr>"
    using assms(1) unfolding bxcan_ctl_ok_def by force
  then have "can d' = r\<lparr>BTR := cfg_btr cfg, MCR := cfg_mcr cfg, MSR := t, IER := IER (can d')\<rparr>" using r by simp
  then obtain i where "can d' = r\<lparr>BTR := cfg_btr cfg, MCR := cfg_mcr cfg, MSR := t, IER := i\<rparr>" by blast
  then show "BTR (can d') = cfg_btr cfg" "MCR (can d') = cfg_mcr cfg" by simp_all
qed

text \<open>
  C5: start-up follows the jumpers.  When \<open>system_can_init\<close> returns, the base address is the
  default plus 256 for each step the two address jumpers encode, the configuration is the 1 Mbit
  one exactly when the baud rate jumper reads high, the peripheral runs with that bit timing,
  and the driver is ready with its receive interrupts enabled.
\<close>

theorem system_can_init_follows_jumpers:
  assumes "bxcan_ctl_ok (env_can env)" "g_can_base_address s = ANALOGX_CAN_BASE_ID" "system_can_init env s = Some s'"
  shows "g_can_base_address s' = 0xE4600 + 256 * ((if jumper 0 s then 1 else 0) + (if jumper 4 s then 2 else 0)) \<and>
    g_selected_can_config s' = Some (if jumper 2 s then cancfg_1MB else cancfg_500K) \<and>
    BTR (can (CAND1 s')) = (if jumper 2 s then 0x12B0002 else 0x12B0005) \<and>
    can_state (CAND1 s') = CAN_READY \<and> bit (IER (can (CAND1 s'))) 1 \<and> bit (IER (can (CAND1 s'))) 4"
proof -
  let ?p = "init_can_operating_parameters s" and ?cfg = "if jumper 2 s then cancfg_1MB else cancfg_500K"
  obtain d where d: "canStart (env_can env) ?cfg (CAND1 s) = Some d"
      "CAND1 s' = d" "g_can_base_address s' = g_can_base_address ?p" "g_selected_can_config s' = g_selected_can_config ?p"
    using assms(3)
    by (auto simp: system_can_init_def init_can_gpio_def operating_parameters Let_def bind_eq_Some_conv)
  have "cfg_btr ?cfg = (if jumper 2 s then 0x12B0002 else 0x12B0005)"
    by (simp add: cancfg_1MB_def cancfg_500K_def)
  then show ?thesis
    using d canStart_btr [OF assms(1) d(1)] canStart_result [OF d(1)] assms(2)
    by (simp add: operating_parameters)
qed

theorem system_can_init_follows_jumpers_witness:
  "\<exists>s'. system_can_init sample_env (sample_app\<lparr>gpio := (\<lambda>_. sample_port\<lparr>IDR := 0x10\<rparr>)\<rparr>) = Some s' \<and>
     g_can_base_address s' = 0xE4800 \<and> BTR (can (CAND1 s')) = 0x12B0005"
proof -
  let ?s = "sample_app\<lparr>gpio := (\<lambda>_. sample_port\<lparr>IDR := 0x10\<rparr>)\<rparr>"
  have j: "\<not> jumper 0 ?s" "\<not> jumper 2 ?s" "jumper 4 ?s" by (simp_all add: jumper_def palReadPad_def sample_port_def)
  have "\<exists>d. canStart sample_can cancfg_500K sample_driver = Some d"
    by (simp add: canStart_def can_lld_start_def wait_inak.simps sample_can_def sample_driver_def sample_regs_def Let_def)
  then obtain s' where s': "system_can_init sample_env ?s = Some s'"
    using j by (auto simp: system_can_init_def init_can_gpio_def operating_parameters Let_def sample_env_def sample_app_def)
  show ?thesis
    using system_can_init_follows_jumpers [OF _ _ s'] j s' sample_can_ctl_ok
    by (simp add: sample_env_def sample_app_def)
qed

section \<open>Dispatch\<close>

text \<open>The device configuration the API exposes, and what a received frame does to it.\<close>

type_synonym api_config = "bool \<times> u8"

definition api_config_of :: "app \<Rightarrow> api_config" where
  "api_config_of s = (g_provisioned s, update_rate_hz s)"

definition handle_message :: "u32 \<Rightarrow> CANRxFrame \<Rightarrow> api_config \<Rightarrow> api_config" where
  "handle_message base f c =
     (if rx_can_id f = base + 3 then (True, if rx_DLC f = 0 then snd c else rx_data8 f ! 0) else c)"

lemma dispatch_effect:
  obtains b s' where "dispatch_can_rx f s = Some (b, s')" "api_config_of s' = handle_message (g_can_base_address s) f (api_config_of s)"
    "b = (rx_can_id f = g_can_base_address s + 3)" "g_can_base_address s' = g_can_base_address s"
    "CAND1 s' = CAND1 s" "arrivals s' = arrivals s" "logging_level s' = logging_level s" "tx_log s' = tx_log s"
    "wakes s' = wakes s" "g_provisioned s \<longrightarrow> g_provisioned s'"
proof -
  obtain s1 t where l: "log_info msg_invalid_params [] s = Some s1" "logged t s s1"
    using log_at_logged [OF invalid_params_logged, of 1 s] unfolding log_info_def by blast
  have id: "(rx_can_id f - g_can_base_address s = 3) = (rx_can_id f = g_can_base_address s + 3)"
    by (auto simp: algebra_simps)
  have z: "rx_DLC f < 1 \<longleftrightarrow> rx_DLC f = 0" by (simp add: word_less_1 unat_eq_0)
  show ?thesis
    by (rule that [of "rx_can_id f = g_can_base_address s + 3"
          "if rx_can_id f = g_can_base_address s + 3
           then set_api_is_provisioned True (if rx_DLC f = 0 then s1 else set_sample_rate (rx_data8 f ! 0) s) else s"])
      (simp_all add: dispatch_can_rx_def id api_set_config_group_1_def z l(1) loggedD [OF l(2)] api_config_of_def
        handle_message_def set_api_is_provisioned_def set_sample_rate_def)
qed

text \<open>
  C4: \<open>dispatch_can_rx\<close> implements the configuration protocol.  It always returns; a frame is
  handled exactly when its identifier (29 or 11 bit, as the frame says) is the base address plus
  3; then the device becomes provisioned and takes the first data byte as its sample rate, or
  keeps its rate when the frame is empty; any other frame changes nothing.
\<close>

theorem dispatch_refines_protocol:
  "\<exists>b s'. dispatch_can_rx f s = Some (b, s') \<and>
     api_config_of s' = handle_message (g_can_base_address s) f (api_config_of s) \<and>
     b = (rx_can_id f = g_can_base_address s + 3) \<and>
     g_can_base_address s' = g_can_base_address s \<and> CAND1 s' = CAND1 s \<and> tx_log s' = tx_log s"
  by (rule dispatch_effect [of f s]) blast

section \<open>Draining the receive FIFOs\<close>

text \<open>What the peripheral and the interrupt handler do between two receive attempts.\<close>

definition arrival_ok :: "(CANDriver \<Rightarrow> CANDriver) \<Rightarrow> bool" where
  "arrival_ok a \<longleftrightarrow> (\<forall>d. rx_inv (can d) \<longrightarrow> rx_inv (can (a d)) \<and> can_state (a d) = can_state d)"

lemma fmp_le_3: "fmp0 r \<le> 3" "fmp1 r \<le> 3"
proof -
  have "unat (w AND 3) \<le> 3" for w :: u32
  proof -
    have "w AND 3 \<le> 3" by (rule word_and_le1)
    then show ?thesis by (simp add: word_le_nat_alt)
  qed
  then show "fmp0 r \<le> 3" "fmp1 r \<le> 3" by (simp_all add: fmp0_def fmp1_def)
qed

definition rx_pending :: "app \<Rightarrow> nat" where
  "rx_pending s = 7 * length (arrivals s) + fmp0 (can (CAND1 s)) + fmp1 (can (CAND1 s))"

lemma next_arrival_effect:
  assumes "\<forall>a \<in> set (arrivals s). arrival_ok a" "rx_inv (can (CAND1 s))" "can_state (CAND1 s) = CAN_READY"
  shows "rx_inv (can (CAND1 (next_arrival s)))" "can_state (CAND1 (next_arrival s)) = CAN_READY"
    "\<forall>a \<in> set (arrivals (next_arrival s)). arrival_ok a" "rx_pending (next_arrival s) \<le> rx_pending s"
    "logging_level (next_arrival s) = logging_level s" "g_can_base_address (next_arrival s) = g_can_base_address s"
    "tx_log (next_arrival s) = tx_log s" "g_provisioned (next_arrival s) = g_provisioned s"
  using assms fmp_le_3 [of "can (hd (arrivals s) (CAND1 s))"]
  by (auto simp: next_arrival_def arrival_ok_def rx_pending_def split: list.splits)

lemma receive_immediate:
  assumes "bxcan_rx_ok hw" "rx_inv (can d)" "can_state d = CAN_READY" "0 < fmp0 (can d) + fmp1 (can d)"
  obtains rx r where "canReceive hw self 0 rx0 0 [] d = Some (0, rx, [], d\<lparr>can := r\<rparr>)" "rx_inv r"
    "fmp0 r + fmp1 r < fmp0 (can d) + fmp1 (can d)"
proof (cases "0 < fmp0 (can d)")
  case True
  note e = rx_inv_release0 [OF assms(1,2) True]
  show ?thesis
    by (rule that [of "decode_rx (sFIFOMailBox (can d) ! 0) rx0" "release0 hw (can d)"])
      (use True assms(3) e in \<open>simp_all add: canReceive.simps can_lld_is_rx_nonempty_def can_lld_receive_def fmp_pos\<close>)
next
  case False
  then have p: "0 < fmp1 (can d)" using assms(4) by simp
  note e = rx_inv_release1 [OF assms(1,2) p]
  show ?thesis
    by (rule that [of "decode_rx (sFIFOMailBox (can d) ! 1) rx0" "release1 hw (can d)"])
      (use False p assms(3) e in \<open>simp_all add: canReceive.simps can_lld_is_rx_nonempty_def can_lld_receive_def fmp_pos\<close>)
qed

lemma receive_empty:
  "can_state d = CAN_READY \<Longrightarrow> fmp0 (can d) + fmp1 (can d) = 0 \<Longrightarrow>
   canReceive hw self 0 rx0 0 [] d = Some (- 1, rx0, [], d)"
  by (simp add: canReceive.simps can_lld_is_rx_nonempty_def fmp_pos)

lemma can_rx_loop_returns:
  assumes "bxcan_rx_ok (env_can env)" "\<forall>a \<in> set (arrivals s). arrival_ok a" "rx_inv (can (CAND1 s))"
    "can_state (CAND1 s) = CAN_READY" "logging_level s < logging_level_debug"
  shows "\<exists>s'. can_rx_loop env self rx s = Some s' \<and> fmp0 (can (CAND1 s')) + fmp1 (can (CAND1 s')) = 0 \<and>
    rx_inv (can (CAND1 s')) \<and> can_state (CAND1 s') = CAN_READY \<and> g_can_base_address s' = g_can_base_address s \<and>
    tx_log s' = tx_log s \<and> (g_provisioned s \<longrightarrow> g_provisioned s')"
  using assms(2-)
proof (induction "rx_pending s" arbitrary: s rx rule: less_induct)
  case less
  let ?s = "next_arrival s"
  note n = next_arrival_effect [OF less.prems(1-3)]
  show ?case
  proof (cases "fmp0 (can (CAND1 ?s)) + fmp1 (can (CAND1 ?s)) = 0")
    case True
    then have "can_rx_loop env self rx s = Some ?s"
      using receive_empty [OF n(2) True] by (subst can_rx_loop.simps) (simp add: Let_def)
    then show ?thesis using True n by auto
  next
    case False
    then obtain rx1 r where rc: "canReceive (env_can env) self 0 rx 0 [] (CAND1 ?s) = Some (0, rx1, [], (CAND1 ?s)\<lparr>can := r\<rparr>)"
        "rx_inv r" "fmp0 r + fmp1 r < fmp0 (can (CAND1 ?s)) + fmp1 (can (CAND1 ?s))"
      using receive_immediate [OF assms(1) n(1,2)] by (metis neq0_conv)
    define s1 where "s1 = ?s\<lparr>CAND1 := (CAND1 ?s)\<lparr>can := r\<rparr>\<rparr>"
    have lg: "log_CAN_rx_message ''SYS_CAN:     '' rx1 s1 = Some s1"
      using n(5) less.prems(4) by (simp add: log_CAN_rx_message_def get_logging_level_def s1_def)
    obtain b s2 where d: "dispatch_can_rx rx1 s1 = Some (b, s2)" "g_can_base_address s2 = g_can_base_address s1"
      "CAND1 s2 = CAND1 s1" "arrivals s2 = arrivals s1" "logging_level s2 = logging_level s1" "tx_log s2 = tx_log s1"
      "g_provisioned s1 \<longrightarrow> g_provisioned s2"
      by (rule dispatch_effect [of rx1 s1])
    have step: "can_rx_loop env self rx s = can_rx_loop env self rx1 s2"
      by (subst can_rx_loop.simps) (simp add: Let_def rc(1) s1_def [symmetric] lg d(1))
    have "rx_pending s2 < rx_pending s"
      using rc(3) n(4) d(3,4) by (simp add: rx_pending_def s1_def)
    then obtain s3 where "can_rx_loop env self rx1 s2 = Some s3" "fmp0 (can (CAND1 s3)) + fmp1 (can (CAND1 s3)) = 0"
        "rx_inv (can (CAND1 s3))" "can_state (CAND1 s3) = CAN_READY" "g_can_base_address s3 = g_can_base_address s2"
        "tx_log s3 = tx_log s2" "g_provisioned s2 \<longrightarrow> g_provisioned s3"
      using less.hyps [of s2 rx1] rc(2) n(2,3,5) d(3-5) less.prems(4) by (auto simp: s1_def)
    then show ?thesis using step d n(6-8) by (auto simp: s1_def)
  qed
qed

text \<open>
  C2: the receive loop of the CAN thread ends, and ends with everything received.  Whatever
  finite burst of frames arrives while it runs, the loop returns with both FIFOs empty and both
  receive interrupts armed again, so the next frame raises an event; it never unprovisions the
  device, never changes its address and sends nothing.
\<close>

theorem can_rx_loop_drains:
  assumes "bxcan_rx_ok (env_can env)" "\<forall>a \<in> set (arrivals s). arrival_ok a" "rx_inv (can (CAND1 s))"
    "can_state (CAND1 s) = CAN_READY" "get_logging_level s < logging_level_debug"
  shows "\<exists>s'. can_rx_loop env self rx s = Some s' \<and> fmp0 (can (CAND1 s')) = 0 \<and> fmp1 (can (CAND1 s')) = 0 \<and>
    bit (IER (can (CAND1 s'))) 1 \<and> bit (IER (can (CAND1 s'))) 4 \<and>
    g_can_base_address s' = g_can_base_address s \<and> tx_log s' = tx_log s \<and> (g_provisioned s \<longrightarrow> g_provisioned s')"
proof -
  obtain s' where "can_rx_loop env self rx s = Some s'" "fmp0 (can (CAND1 s')) + fmp1 (can (CAND1 s')) = 0"
    "rx_inv (can (CAND1 s'))" "g_can_base_address s' = g_can_base_address s" "tx_log s' = tx_log s"
    "g_provisioned s \<longrightarrow> g_provisioned s'"
    using can_rx_loop_returns [OF assms(1-4), of self rx] assms(5) by (auto simp: get_logging_level_def)
  then show ?thesis by (auto simp: rx_inv_def rx_live_def)
qed

text \<open>A configuration frame waiting in FIFO 0, a second frame arriving meanwhile in FIFO 1.\<close>

theorem can_rx_loop_drains_witness:
  "\<exists>s'. can_rx_loop sample_env 1 sample_rx (sample_app\<lparr>CAND1 := sample_driver\<lparr>can := sample_regs\<lparr>RF0R := 1, IER := 0x10,
       sFIFOMailBox := [\<lparr>RIR = 0x72301C, RDTR = 1, RDLR = 100, RDHR = 0\<rparr>, \<lparr>RIR = 0, RDTR = 0, RDLR = 0, RDHR = 0\<rparr>]\<rparr>\<rparr>,
       arrivals := [\<lambda>d. upd_can (\<lambda>r. r\<lparr>RF1R := 1\<rparr>) d]\<rparr>) = Some s' \<and>
     bit (IER (can (CAND1 s'))) 1 \<and> fmp0 (can (CAND1 s')) = 0"
proof -
  let ?r = "sample_regs\<lparr>RF0R := 1, IER := 0x10,
       sFIFOMailBox := [\<lparr>RIR = 0x72301C, RDTR = 1, RDLR = 100, RDHR = 0\<rparr>, \<lparr>RIR = 0, RDTR = 0, RDLR = 0, RDHR = 0\<rparr>]\<rparr>"
  have i: "rx_inv ?r"
    using sample_regs_ok by (simp add: rx_inv_def rx_live_def fmp0_def regs_ok_def tme_def code_def sample_regs_def)
  have a: "arrival_ok (\<lambda>d. upd_can (\<lambda>r. r\<lparr>RF1R := 1\<rparr>) d)"
    by (auto simp: arrival_ok_def upd_can_def rx_inv_def rx_live_def fmp0_def fmp1_def)
  show ?thesis
    using can_rx_loop_drains [of sample_env "sample_app\<lparr>CAND1 := sample_driver\<lparr>can := ?r\<rparr>,
        arrivals := [\<lambda>d. upd_can (\<lambda>r. r\<lparr>RF1R := 1\<rparr>) d]\<rparr>" 1 sample_rx] i a sample_can_rx_ok
    by (auto simp: sample_env_def sample_app_def sample_driver_def get_logging_level_def)
qed

end
