(* ===== verification/System_ADC.thy ===== *)
theory System_ADC
  imports Analogx_api Floats
begin

text \<open>
  \<^verbatim>\<open>system_ADC.c\<close>: the analog inputs, the scaling of 12 bit samples to millivolts and the
  sampling thread, one loop iteration at a time.  The iteration returns the number of ticks it
  asks to sleep for; \<open>None\<close> is a division by a sample rate of zero, or a thread that never
  resumes.
\<close>

section \<open>Callbacks, conversion group, initialisation\<close>

text \<open>The buffer the callback gets is the sample buffer itself.\<close>

definition adccallback :: "u16 list \<Rightarrow> app \<Rightarrow> app" where
  "adccallback buffer s = s\<lparr>internal_samples := (internal_samples s)[0 := buffer ! 0]\<rparr>"

definition adcerrorcallback :: "adcerror_t \<Rightarrow> app \<Rightarrow> app" where
  "adcerrorcallback err s = s"

definition adcgrpcfg1 :: ADCConversionGroup where
  "adcgrpcfg1 = \<lparr>circular = False, num_channels = 4, has_end_cb = True, has_error_cb = True,
     grp_cfgr1 = 0, grp_tr = 0, grp_smpr = 3, grp_chselr = 0x20 OR 0x40 OR 0x80 OR 0x200\<rparr>"

abbreviation (input) internal_samples_addr :: nat where "internal_samples_addr \<equiv> 0x20000000"

definition system_adc_init :: "app_env \<Rightarrow> app \<Rightarrow> app option" where
  "system_adc_init env s =
     do {
       let ps = gpio s;
       let ps = palSetGroupMode GPIOB (PAL_PORT_BIT 1) 0 PAL_MODE_INPUT_ANALOG ps;
       let ps = palSetGroupMode GPIOA (PAL_PORT_BIT 7) 0 PAL_MODE_INPUT_ANALOG ps;
       let ps = palSetGroupMode GPIOA (PAL_PORT_BIT 6) 0 PAL_MODE_INPUT_ANALOG ps;
       let ps = palSetGroupMode GPIOA (PAL_PORT_BIT 5) 0 PAL_MODE_INPUT_ANALOG ps;
       d \<leftarrow> adcStart (env_adc env) None (ADCD1 s);
       Some (s\<lparr>gpio := ps, ADCD1 := d\<rparr>)
     }"

section \<open>Scaling\<close>

text \<open>
  \<^verbatim>\<open>raw * 1.0 / 0.80688\<close> in double precision, stored in a float, truncated to 16 bits.
\<close>

definition scale_0_to_5_volts :: "u16 \<Rightarrow> u16" where
  "scale_0_to_5_volts raw_value =
     (let scaled = fl32 (fl64 (fl64 (of_nat (unat raw_value) * 1) / fl64 (80688 / 100000)))
      in word_of_int \<lfloor>scaled\<rfloor>)"

section \<open>Sampling\<close>

definition system_adc_sample :: "app_env \<Rightarrow> app \<Rightarrow> app option" where
  "system_adc_sample env s =
     do {
       d \<leftarrow> adcStartConversion (env_adc env) adcgrpcfg1 internal_samples_addr 1 (ADCD1 s);
       let b = internal_samples s;
       Some (s\<lparr>ADCD1 := d, raw_samples := [b ! 3, b ! 2, b ! 1, b ! 0]\<rparr>)
     }"

definition sensor_frame :: "CANTxFrame \<Rightarrow> u32 \<Rightarrow> u16 list \<Rightarrow> CANTxFrame" where
  "sensor_frame f base raw =
     (let f = prepare_can_tx_message 1 (base + API_BROADCAST_SENSORS) f
      in f\<lparr>tx_data8 := set_data16 3 (scale_0_to_5_volts (raw ! 3)) (set_data16 2 (scale_0_to_5_volts (raw ! 2))
             (set_data16 1 (scale_0_to_5_volts (raw ! 1)) (set_data16 0 (scale_0_to_5_volts (raw ! 0)) (tx_data8 f))))\<rparr>)"

definition msg_sample :: string where "msg_sample = ''Sample ADC %d, %d, %d, %d'' @ crlf"

text \<open>The ticks to sleep after an iteration that took \<open>work_time\<close> ticks.\<close>

definition adc_sleep_time :: "u8 \<Rightarrow> systime_t \<Rightarrow> systime_t option" where
  "adc_sleep_time rate work_time =
     (if rate = 0 then None else Some (MS2ST (1000 div ucast rate) - work_time))"

definition system_adc_worker_iter :: "app_env \<Rightarrow> nat \<Rightarrow> app \<Rightarrow> (systime_t \<times> app) option" where
  "system_adc_worker_iter env self s =
     do {
       let (start, s) = chVTGetSystemTimeX s;
       s \<leftarrow> system_adc_sample env s;
       let f = sensor_frame (uninit_tx env) (get_can_base_id s) (raw_samples s);
       s \<leftarrow> send_frame env self f s;
       s \<leftarrow> log_debug msg_sample (map (\<lambda>k. VInt (ucast (data16_of (tx_data8 f) k))) [0, 1, 2, 3]) s;
       let (t, s) = chVTGetSystemTimeX s;
       let work_time = t - start;
       sleep \<leftarrow> adc_sleep_time (get_sample_rate s) work_time;
       Some (sleep, s)
     }"

section \<open>The scaling is exact\<close>

lemma scaling_constant: "fl64 (80688 / 100000) = 1816932233666353 / 2251799813685248"
proof -
  have i: "ilog2 (5043 / 6250) = - 1" by (simp add: ilog2.simps)
  have "\<lfloor>80688 / 100000 * 2 ^ 53 :: rat\<rfloor> = 7267728934665411" by (simp add: floor_eq_iff)
  then have "rne (80688 / 100000 * 2 ^ 53) = 7267728934665412"
    by (simp only: rne_def Let_def) simp
  then show ?thesis by (simp add: fl_def i Let_def)
qed

lemma fl64_small_nat:
  assumes "n < 2 ^ 53"
  shows "fl64 (of_nat n) = of_nat n"
proof (cases "n = 0")
  case False
  then have "0 < (of_nat n :: rat)" by simp
  moreover have "(of_nat n :: rat) < 2 ^ 53" using assms by (metis of_nat_less_iff of_nat_numeral of_nat_power)
  ultimately show ?thesis using fl_grid [of "of_nat n" 53 n] by (intro antisym) auto
qed (simp add: fl_def)

text \<open>The quotient the double division rounds, against the exact one.\<close>

lemma quotient_bounds:
  assumes "0 < n" "n \<le> 4095"
  defines "q \<equiv> of_nat n / (1816932233666353 / 2251799813685248) :: rat"
  shows "of_nat n * 6250 / 5043 - 1 / 100000 < q" "q < of_nat n * 6250 / 5043 + 1 / 100000"
proof -
  have "(of_nat n :: rat) \<le> 4095" "0 < (of_nat n :: rat)"
    using assms by (metis of_nat_le_iff of_nat_numeral, simp)
  then show "of_nat n * 6250 / 5043 - 1 / 100000 < q" "q < of_nat n * 6250 / 5043 + 1 / 100000"
    unfolding q_def by (simp_all add: field_simps)
qed

lemma scaled_floor:
  assumes "0 < n" "n \<le> 4095"
  shows "\<lfloor>fl32 (fl64 (of_nat n / (1816932233666353 / 2251799813685248)))\<rfloor> = int (n * 6250 div 5043)"
proof -
  define q where "q = (of_nat n / (1816932233666353 / 2251799813685248) :: rat)"
  define N where "N = n * 6250 div 5043"
  define r where "r = n * 6250 mod 5043"
  define x where "x = (of_nat n * 6250 / 5043 :: rat)"
  have nr: "n * 6250 = N * 5043 + r" "r < 5043" by (simp_all add: N_def r_def)
  have r0: "0 < r"
  proof (rule ccontr)
    assume "\<not> 0 < r"
    then have "5043 dvd n * 6250" by (simp add: r_def mod_eq_0_iff_dvd)
    moreover have "coprime (5043::nat) 6250" by (simp add: coprime_iff_gcd_eq_1 gcd_nat.simps)
    ultimately have "5043 dvd n" by (simp add: coprime_dvd_mult_left_iff)
    then show False using assms by (auto dest: dvd_imp_le)
  qed
  have x: "x = of_nat N + of_nat r / 5043"
  proof -
    have "(of_nat (n * 6250) :: rat) = of_nat (N * 5043 + r)" by (simp only: nr(1))
    then show ?thesis by (simp add: x_def field_simps)
  qed
  have q: "x - 1 / 100000 < q" "q < x + 1 / 100000"
    using quotient_bounds [OF assms] by (simp_all add: q_def x_def)
  have rr: "1 \<le> (of_nat r :: rat)" "(of_nat r :: rat) \<le> 5042"
    using r0 nr(2) by (metis One_nat_def of_nat_1 of_nat_le_iff Suc_leI, metis of_nat_le_iff of_nat_numeral less_Suc_eq_le numeral_eq_Suc pred_numeral_simps(3))
  have "N * 5043 + r \<le> 4095 * 6250" using assms(2) unfolding nr(1) [symmetric] by simp
  then have "N \<le> 5075" by linarith
  then have N: "(of_nat N :: rat) \<le> 5075" by (metis of_nat_le_iff of_nat_numeral)
  have q_pos: "0 < q" and Nq: "of_nat N \<le> q" and q_up: "q < 2 ^ 13"
    using q x rr N by (simp_all add: q_def assms(1))
  define y where "y = fl64 q"
  have y_err: "\<bar>y - q\<bar> \<le> 1 / 2199023255552"
    using fl_error [OF q_pos q_up, of 53] by (simp add: y_def power_int_def power_divide)
  have "q < 2 ^ 53" using q_up by simp
  then have Ny: "of_nat N \<le> y" unfolding y_def using fl_grid(1) [OF q_pos] Nq by blast
  have y_pos: "0 < y" unfolding y_def using q_pos by (intro fl_pos) simp_all
  have "y < 8192" using y_err q x rr N by linarith
  then have y_up: "y < 2 ^ 13" by simp
  define f where "f = fl32 y"
  have "y < 2 ^ 24" using y_up by simp
  then have Nf: "of_nat N \<le> f" unfolding f_def using fl_grid(1) [OF y_pos] Ny by blast
  have f_up: "f < of_nat N + 1"
  proof (cases "y < 2 ^ 12")
    case True
    have "\<bar>f - y\<bar> \<le> 1 / 8192"
      using fl_error [OF y_pos True, of 24] by (simp add: f_def power_int_def power_divide)
    then show ?thesis using y_err q x rr by linarith
  next
    case False
    have "r \<noteq> 5042"
    proof
      assume "r = 5042"
      then have "int n * 6250 = int N * 5043 + 5042" using nr(1) by (metis of_nat_add of_nat_mult of_nat_numeral)
      then have "(int n - 1337) * 6250 = (int N - 1656) * 5043" by (simp add: algebra_simps)
      then have "5043 dvd (int n - 1337) * 6250"
        by (metis dvd_triv_right)
      moreover have "coprime (5043::int) 6250" by (simp add: coprime_iff_gcd_eq_1 gcd_code_int)
      ultimately have "5043 dvd int n - 1337" using coprime_dvd_mult_left_iff by blast
      then obtain k where "int n - 1337 = 5043 * k" by blast
      then have "k = 0" using assms by linarith
      with \<open>int n - 1337 = 5043 * k\<close> have "int n = 1337" by simp
      then have "n = 1337" by simp
      then show False using False y_err q by (simp add: x_def)
    qed
    then have "r \<le> 5041" using nr(2) by simp
    then have r': "(of_nat r :: rat) \<le> 5041" by (metis of_nat_le_iff of_nat_numeral)
    have "\<bar>f - y\<bar> \<le> 1 / 4096"
      using fl_error [OF y_pos y_up, of 24] by (simp add: f_def power_int_def power_divide)
    then show ?thesis using y_err q x r' by linarith
  qed
  have "\<lfloor>f\<rfloor> = int N" using Nf f_up by (simp add: floor_eq_iff)
  then show ?thesis by (simp add: f_def y_def q_def N_def)
qed

lemma scale_exact:
  assumes "unat raw \<le> 4095"
  shows "unat (scale_0_to_5_volts raw) = unat raw * 6250 div 5043"
proof (cases "unat raw = 0")
  case True
  then show ?thesis by (simp add: scale_0_to_5_volts_def fl_def Let_def)
next
  case False
  have b: "unat raw * 6250 div 5043 < 65536" using assms by (simp add: less_mult_imp_div_less)
  have "fl64 (of_nat (unat raw) * 1) = of_nat (unat raw)"
    using fl64_small_nat [of "unat raw"] assms by simp
  then have "scale_0_to_5_volts raw = word_of_int (int (unat raw * 6250 div 5043))"
    unfolding scale_0_to_5_volts_def scaling_constant Let_def using scaled_floor [of "unat raw"] False assms by simp
  then show ?thesis using b by (simp add: unat_of_nat_small)
qed

text \<open>
  C7: the scaling of a sample is exact.  For every value a 12 bit conversion can give, the two
  roundings of the floating point computation never change the result: it is the sample times
  6250/5043 (5 V full scale in millivolts), rounded down, at most 5075; and it grows with the
  sample.
\<close>

theorem scale_0_to_5_volts_exact:
  assumes "unat a \<le> 4095" "unat b \<le> 4095"
  shows "unat (scale_0_to_5_volts a) = unat a * 6250 div 5043 \<and> unat (scale_0_to_5_volts a) \<le> 5075 \<and>
    (a \<le> b \<longrightarrow> scale_0_to_5_volts a \<le> scale_0_to_5_volts b)"
proof -
  have "unat a * 6250 div 5043 \<le> 4095 * 6250 div 5043" using assms(1) by (intro div_le_mono) simp
  moreover have "unat a * 6250 div 5043 \<le> unat b * 6250 div 5043" if "a \<le> b"
    using that by (intro div_le_mono) (simp add: word_le_nat_alt)
  ultimately show ?thesis
    using scale_exact [OF assms(1)] scale_exact [OF assms(2)] by (auto simp: word_le_nat_alt)
qed

theorem scale_0_to_5_volts_exact_witness:
  "unat (scale_0_to_5_volts 4095) = 5075 \<and> unat (scale_0_to_5_volts 1337) = 1656"
  using scale_0_to_5_volts_exact [of 4095 4095] scale_0_to_5_volts_exact [of 1337 4095] by simp

section \<open>The sensor frame\<close>

lemma sensor_data:
  "tx_data8 (sensor_frame f base raw) = concat (map (\<lambda>k. [lo8 (scale_0_to_5_volts (raw ! k)), hi8 (scale_0_to_5_volts (raw ! k))]) [0, 1, 2, 3])"
  by (simp add: sensor_frame_def prepare_can_tx_message_def set_data16_def Let_def)

lemma sensor_data16: "k < 4 \<Longrightarrow> data16_of (tx_data8 (sensor_frame f base raw)) k = scale_0_to_5_volts (raw ! k)"
  unfolding sensor_data
  by (auto simp: data16_of_def less_Suc_eq numeral_eq_Suc)

lemma sensor_api_frame: "api_frame base API_BROADCAST_SENSORS (tx_data8 (sensor_frame f base raw)) (sensor_frame f base raw)"
  by (simp add: api_frame_def sensor_data)
    (simp add: sensor_frame_def prepare_can_tx_message_def Let_def)

lemma sample_logged:
  "rendered msg_sample (map (\<lambda>k. VInt (ucast (data16_of d k))) [0, 1, 2, 3]) \<noteq> None"
proof -
  let ?v = "\<lambda>k. VInt (ucast (data16_of d k))"
  have e: "msg_sample @ [NUL] = ''Sample ADC '' @ CHR ''%'' # CHR ''d'' # '', '' @ CHR ''%'' # CHR ''d'' # '', '' @
      CHR ''%'' # CHR ''d'' # '', '' @ CHR ''%'' # CHR ''d'' # crlf @ [NUL]"
    by (simp add: msg_sample_def)
  have p: "plain ''Sample ADC ''" "plain '', ''" by simp_all
  have n: "fmt_text [NUL] ap = Some []" for ap by simp
  show ?thesis
    unfolding rendered_def cstring_def e list.map
    by (simp only: fmt_text_plain [OF p(1)] fmt_text_plain [OF p(2)] fmt_text_plain [OF plain_crlf] fmt_d n
        option.map option.distinct not_False_eq_True simp_thms)
qed

section \<open>One iteration of the sampling thread\<close>

lemma sample_effect:
  "\<exists>d. system_adc_sample env s = Some (s\<lparr>ADCD1 := d,
     raw_samples := [internal_samples s ! 3, internal_samples s ! 2, internal_samples s ! 1, internal_samples s ! 0]\<rparr>)"
  using start_conversion_returns [of "env_adc env" adcgrpcfg1 internal_samples_addr 1 "ADCD1 s"]
  by (auto simp: system_adc_sample_def Let_def)

lemma adc_iter_free:
  fixes env :: app_env
  assumes "\<not> tx_blocked CAN_ANY_MAILBOX (CAND1 s)"
  defines "f \<equiv> sensor_frame (uninit_tx env) (g_can_base_address s)
      [internal_samples s ! 3, internal_samples s ! 2, internal_samples s ! 1, internal_samples s ! 0]"
  obtains w s' where "update_rate_hz s' = update_rate_hz s" "tx_log s' = tx_log s @ [f]"
    "g_can_base_address s' = g_can_base_address s" "g_provisioned s' = g_provisioned s"
    "system_adc_worker_iter env self s = map_option (\<lambda>z. (z, s')) (adc_sleep_time (update_rate_hz s) w)"
proof -
  let ?s0 = "s\<lparr>clock_reads := clock_reads s + 1\<rparr>"
  obtain d where smp: "system_adc_sample env ?s0 = Some (?s0\<lparr>ADCD1 := d,
      raw_samples := [internal_samples s ! 3, internal_samples s ! 2, internal_samples s ! 1, internal_samples s ! 0]\<rparr>)"
    using sample_effect [of env ?s0] by auto
  define s1 where "s1 = ?s0\<lparr>ADCD1 := d,
      raw_samples := [internal_samples s ! 3, internal_samples s ! 2, internal_samples s ! 1, internal_samples s ! 0]\<rparr>"
  have fr: "sensor_frame (uninit_tx env) (get_can_base_id s1) (raw_samples s1) = f"
    by (simp add: f_def s1_def get_can_base_id_def)
  define s2 where "s2 = s1\<lparr>CAND1 := upd_can (can_lld_transmit (env_can env) CAN_ANY_MAILBOX f) (CAND1 s1), tx_log := tx_log s1 @ [f]\<rparr>"
  have snd: "send_frame env self f s1 = Some s2"
    using assms(1) by (simp add: send_frame_free s1_def s2_def)
  obtain s3 t where lg: "log_debug msg_sample (map (\<lambda>k. VInt (ucast (data16_of (tx_data8 f) k))) [0, 1, 2, 3]) s2 = Some s3"
      "logged t s2 s3"
    using log_at_logged [OF sample_logged, of 2 "tx_data8 f" s2] unfolding log_debug_def by blast
  define w where "w = clock s3 (clock_reads s3) - clock s (clock_reads s)"
  let ?s4 = "s3\<lparr>clock_reads := clock_reads s3 + 1\<rparr>"
  have s3: "update_rate_hz s3 = update_rate_hz s" "tx_log s3 = tx_log s @ [f]" "g_can_base_address s3 = g_can_base_address s"
    "g_provisioned s3 = g_provisioned s"
    using loggedD [OF lg(2)] by (simp_all add: s2_def s1_def)
  have it: "system_adc_worker_iter env self s = map_option (\<lambda>z. (z, ?s4)) (adc_sleep_time (update_rate_hz s) w)"
    unfolding system_adc_worker_iter_def chVTGetSystemTimeX_def Let_def prod.case smp [unfolded chVTGetSystemTimeX_def] s1_def [symmetric]
      Option.bind.bind_lunit fr snd lg(1)
    by (simp add: get_sample_rate_def s3(1) w_def map_conv_bind_option comp_def)
  show ?thesis by (rule that [OF _ _ _ _ it]) (simp_all add: s3)
qed

text \<open>
  C6: one iteration of the sampling thread.  With a free mailbox and a non-zero sample rate it
  returns, having queued exactly one frame: extended identifier base + 20, eight data bytes,
  whose four little-endian half words are the scaled samples of the buffer in reverse order.
\<close>

theorem adc_worker_broadcasts_samples:
  assumes "\<not> tx_blocked CAN_ANY_MAILBOX (CAND1 s)" "update_rate_hz s \<noteq> 0"
  shows "\<exists>z s' f. system_adc_worker_iter env self s = Some (z, s') \<and> tx_log s' = tx_log s @ [f] \<and>
    api_frame (g_can_base_address s) API_BROADCAST_SENSORS (tx_data8 f) f \<and>
    (\<forall>k < 4. data16_of (tx_data8 f) k = scale_0_to_5_volts (internal_samples s ! (3 - k)))"
proof -
  let ?raw = "[internal_samples s ! 3, internal_samples s ! 2, internal_samples s ! 1, internal_samples s ! 0]"
  let ?f = "sensor_frame (uninit_tx env) (g_can_base_address s) ?raw"
  obtain w s' where "tx_log s' = tx_log s @ [?f]"
    "system_adc_worker_iter env self s = map_option (\<lambda>z. (z, s')) (adc_sleep_time (update_rate_hz s) w)"
    by (rule adc_iter_free [OF assms(1)])
  moreover have "data16_of (tx_data8 ?f) k = scale_0_to_5_volts (internal_samples s ! (3 - k))" if "k < 4" for k
    using that sensor_data16 [OF that] by (auto simp: less_Suc_eq numeral_eq_Suc)
  ultimately show ?thesis using assms(2) sensor_api_frame by (auto simp: adc_sleep_time_def)
qed

theorem adc_worker_broadcasts_samples_witness:
  "\<exists>z s' f. system_adc_worker_iter sample_env 2 (sample_app\<lparr>internal_samples := [100, 200, 300, 4095]\<rparr>) = Some (z, s') \<and>
     tx_log s' = [f] \<and> data16_of (tx_data8 f) 0 = scale_0_to_5_volts 4095"
proof -
  have "\<not> tx_blocked 0 (CAND1 (sample_app\<lparr>internal_samples := [100, 200, 300, 4095]\<rparr>))"
    by (simp add: tx_blocked_def sample_app_def sample_driver_def sample_regs_def can_lld_is_tx_empty_def)
  from adc_worker_broadcasts_samples [OF this, of sample_env 2] show ?thesis
    by (force simp: sample_app_def)
qed

section \<open>Pacing\<close>

lemma unat_ucast_u8: "unat (ucast (w :: u8) :: u32) = unat w"
  using unat_lt_2p [of w]
  by (simp add: unsigned_ucast_eq take_bit_nat_eq_self)

text \<open>
  C12: the sampling period.  The sleep time exists exactly when the configured rate is not zero.
  An iteration that took at most the period (10 ticks per millisecond of 1000 div rate) sleeps
  for the rest of it, so iterations start one period apart; one that took longer asks for a
  sleep just short of 2^32 ticks.
\<close>

theorem adc_sleep_time_period:
  "(adc_sleep_time rate work = None \<longleftrightarrow> rate = 0) \<and>
   (\<forall>z. adc_sleep_time rate work = Some z \<longrightarrow>
      (let period = 10 * (1000 div unat rate) in
       if unat work \<le> period then unat z + unat work = period
       else unat z + (unat work - period) = 2 ^ 32))"
proof -
  have "let period = 10 * (1000 div unat rate) in
      if unat work \<le> period then unat z + unat work = period else unat z + (unat work - period) = 2 ^ 32"
    if "adc_sleep_time rate work = Some z" for z
  proof -
    have r: "unat (1000 div ucast rate :: u32) = 1000 div unat rate"
      by (simp add: unat_ucast_u8)
    have "1000 div unat rate * 10000 \<le> 1000 * 10000" by (intro mult_le_mono1) simp
    then have "1000 div unat rate * 10000 + 999 < 4294967296" by linarith
    then have "1000 div unat rate * 10000 + 999 < 2 ^ 32" by (simp only: semiring_norm power_numeral) simp
    then have p: "unat (MS2ST (1000 div ucast rate)) = 10 * (1000 div unat rate)"
      using MS2ST_exact [of "1000 div ucast rate"] unfolding r by simp
    have z: "z = MS2ST (1000 div ucast rate) - work"
      using that by (simp add: adc_sleep_time_def split: if_splits)
    show ?thesis
      unfolding Let_def z p [symmetric]
      using unat_lt_2p [of work]
      by (cases "work \<le> MS2ST (1000 div ucast rate)") (simp_all add: word_le_nat_alt unat_sub unat_sub_if')
  qed
  then show ?thesis by (auto simp: adc_sleep_time_def)
qed

theorem adc_sleep_time_period_witness: "adc_sleep_time 50 30 = Some 170"
proof -
  obtain z where z: "adc_sleep_time 50 30 = Some z" using adc_sleep_time_period [of 50 30] by auto
  then have "unat z + 30 = 200" using adc_sleep_time_period [of 50 30] by simp
  then have "unat z = 170" by simp
  then have "z = 170" by (metis of_nat_numeral of_nat_unat_word)
  then show ?thesis using z by simp
qed

end
