(* ===== verification/System.thy ===== *)
theory System
  imports Analogx_api
begin

text \<open>\<^verbatim>\<open>system.c\<close>: the initialised flag, the periodic statistics frame and the soft reset.\<close>

definition set_system_initialized :: "bool \<Rightarrow> app \<Rightarrow> app" where
  "set_system_initialized initialized s = s\<lparr>system_initialized := initialized\<rparr>"

definition get_system_initialized :: "app \<Rightarrow> bool" where "get_system_initialized s = system_initialized s"

definition msg_stats :: string where "msg_stats = ''SYS:         Broadcast stats'' @ crlf"
definition msg_reset :: string where "msg_reset = ''SYS:         Resetting System'' @ crlf"

definition stats_frame :: "CANTxFrame \<Rightarrow> u32 \<Rightarrow> u8 \<Rightarrow> CANTxFrame" where
  "stats_frame f base rate =
     (let f = prepare_can_tx_message 1 (base + API_STATS) f
      in f\<lparr>tx_data8 := (tx_data8 f)[0 := rate, 5 := MAJOR_VER, 6 := MINOR_VER, 7 := PATCH_VER], tx_DLC := 8\<rparr>)"

definition broadcast_stats :: "app_env \<Rightarrow> nat \<Rightarrow> app \<Rightarrow> app option" where
  "broadcast_stats env self s =
     do {
       s \<leftarrow> send_frame env self (stats_frame (uninit_tx env) (get_can_base_id s) (get_sample_rate s)) s;
       log_info msg_stats [] s
     }"

text \<open>\<^verbatim>\<open>NVIC_SystemReset\<close> does not return; \<open>resets\<close> counts the requests.\<close>

definition reset_system :: "app_env \<Rightarrow> app \<Rightarrow> app option" where
  "reset_system env s =
     do {
       s \<leftarrow> log_info msg_reset [] s;
       let s = interference env s;
       Some (s\<lparr>resets := resets s + 1\<rparr>)
     }"

definition check_system_state :: "app \<Rightarrow> app" where "check_system_state s = s"

lemma stats_api_frame:
  "api_frame base API_STATS [rate, 0x55, 0x55, 0x55, 0x55, MAJOR_VER, MINOR_VER, PATCH_VER] (stats_frame f base rate)"
  by (simp add: api_frame_def stats_frame_def prepare_can_tx_message_def Let_def)

lemma stats_logged: "rendered msg_stats [] \<noteq> None"
  unfolding msg_stats_def by (subst rendered_plain) simp_all

lemma broadcast_stats_free:
  assumes "\<not> tx_blocked CAN_ANY_MAILBOX (CAND1 s)"
  obtains s' t where "broadcast_stats env self s = Some s'"
    "logged t (s\<lparr>CAND1 := upd_can (can_lld_transmit (env_can env) CAN_ANY_MAILBOX
        (stats_frame (uninit_tx env) (g_can_base_address s) (update_rate_hz s))) (CAND1 s),
      tx_log := tx_log s @ [stats_frame (uninit_tx env) (g_can_base_address s) (update_rate_hz s)]\<rparr>) s'"
proof -
  let ?s = "s\<lparr>CAND1 := upd_can (can_lld_transmit (env_can env) CAN_ANY_MAILBOX
        (stats_frame (uninit_tx env) (g_can_base_address s) (update_rate_hz s))) (CAND1 s),
      tx_log := tx_log s @ [stats_frame (uninit_tx env) (g_can_base_address s) (update_rate_hz s)]\<rparr>"
  obtain s' t where "log_info msg_stats [] ?s = Some s'" "logged t ?s s'"
    using log_at_logged [OF stats_logged, of 1 ?s] unfolding log_info_def by blast
  then show ?thesis
    using that assms by (simp add: broadcast_stats_def send_frame_free get_can_base_id_def get_sample_rate_def)
qed

end
