(* ===== verification/Main_loop.thy ===== *)
theory Main_loop
  imports System_CAN System_ADC System
begin

text \<open>
  \<^verbatim>\<open>main.c\<close>: the start-up sequence and one iteration of the main thread's loop.  Kernel and HAL
  initialisation and the creation of the two worker threads are the setting the definitions
  start from.
\<close>

definition system_serial_init_SD2 :: "u32 \<Rightarrow> app \<Rightarrow> app option" where
  "system_serial_init_SD2 speed s =
     (let ps = palSetPadMode GPIOA 2 (PAL_STM32_MODE_ALTERNATE OR PAL_STM32_OTYPE_PUSHPULL OR
                 PAL_STM32_OSPEED_HIGHEST OR PAL_STM32_ALTERNATE 1) (gpio s);
          ps = palSetPadMode GPIOA 3 (PAL_STM32_MODE_ALTERNATE OR PAL_STM32_PUPDR_PULLUP OR PAL_STM32_ALTERNATE 1) ps
      in do {
           d \<leftarrow> sdStart (Some \<lparr>sc_speed = speed, sc_cr1 = 0, sc_cr2 = 0, sc_cr3 = 0\<rparr>) (SD2 s);
           Some (s\<lparr>gpio := ps, SD2 := d\<rparr>)
         })"

definition system_serial_init :: "app \<Rightarrow> app option" where
  "system_serial_init s = system_serial_init_SD2 115200 s"

definition wdgcfg :: WDGConfig where
  "wdgcfg = \<lparr>wc_pr = 4, wc_rlr = 1000, wc_winr = 0xFFF\<rparr>"

definition start_watchdog :: "app_env \<Rightarrow> app \<Rightarrow> app option" where
  "start_watchdog env s = do { w \<leftarrow> wdgStart (env_wdg env) wdgcfg (WDGD1 s); Some (s\<lparr>WDGD1 := w\<rparr>) }"

definition msg_start :: string where "msg_start = ''===AnalogX START (Version %u.%u.%u)==='' @ crlf"

definition main_init :: "app_env \<Rightarrow> app \<Rightarrow> app option" where
  "main_init env s =
     do {
       s \<leftarrow> start_watchdog env s;
       s \<leftarrow> system_can_init env s;
       s \<leftarrow> system_adc_init env s;
       s \<leftarrow> system_serial_init s;
       log_info msg_start [VInt 1, VInt 0, VInt 1] s
     }"

text \<open>\<open>stats_check\<close> is the local counter of the loop, in milliseconds.\<close>

definition main_iter :: "app_env \<Rightarrow> nat \<Rightarrow> u32 \<times> app \<Rightarrow> (u32 \<times> app) option" where
  "main_iter env self = (\<lambda>(stats_check, s).
     do {
       let s = interference env s;
       let stats_check = stats_check + 100;
       (stats_check, s) \<leftarrow> (if stats_check > 10000
          then do { s \<leftarrow> broadcast_stats env self s; Some (0, s) }
          else Some (stats_check, s));
       let s = s\<lparr>WDGD1 := wdgReset (WDGD1 s)\<rparr>;
       Some (stats_check, check_system_state s)
     })"

fun main_run :: "app_env \<Rightarrow> nat \<Rightarrow> nat \<Rightarrow> u32 \<times> app \<Rightarrow> (u32 \<times> app) option" where
  "main_run env self 0 cs = Some cs"
| "main_run env self (Suc n) cs = do { cs \<leftarrow> main_run env self n cs; main_iter env self cs }"

section \<open>The main loop in the long run\<close>

text \<open>
  What the main thread relies on while it sleeps: the other threads leave the watchdog alone,
  keep the log of frames it relies on here, and a mailbox becomes free.
\<close>

definition calm :: "app_env \<Rightarrow> bool" where
  "calm env \<longleftrightarrow> (\<forall>s. WDGD1 (interference env s) = WDGD1 s \<and> tx_log (interference env s) = tx_log s \<and>
     g_can_base_address (interference env s) = g_can_base_address s \<and>
     \<not> tx_blocked CAN_ANY_MAILBOX (CAND1 (interference env s)))"

definition is_stats :: "u32 \<Rightarrow> CANTxFrame \<Rightarrow> bool" where
  "is_stats base f \<longleftrightarrow> (\<exists>rate. api_frame base API_STATS [rate, 0x55, 0x55, 0x55, 0x55, 1, 0, 1] f)"

lemma loggedD_wdg: "logged t s s' \<Longrightarrow> WDGD1 s' = WDGD1 s"
  by (auto simp: logged_def)

lemma main_iter_calm:
  assumes "calm env"
  obtains s' fs where "main_iter env self (c, s) = Some (if c + 100 > 10000 then 0 else c + 100, s')"
    "reload_count (WDGD1 s') = reload_count (WDGD1 s) + 1" "tx_log s' = tx_log s @ fs"
    "g_can_base_address s' = g_can_base_address s" "\<forall>f \<in> set fs. is_stats (g_can_base_address s) f"
    "length fs = (if c + 100 > 10000 then 1 else 0)"
proof -
  let ?i = "interference env s"
  have i: "WDGD1 ?i = WDGD1 s" "tx_log ?i = tx_log s" "g_can_base_address ?i = g_can_base_address s"
    "\<not> tx_blocked CAN_ANY_MAILBOX (CAND1 ?i)"
    using assms by (auto simp: calm_def)
  show ?thesis
  proof (cases "c + 100 > 10000")
    case True
    let ?f = "stats_frame (uninit_tx env) (g_can_base_address ?i) (update_rate_hz ?i)"
    obtain s' t where b: "broadcast_stats env self ?i = Some s'"
      "logged t (?i\<lparr>CAND1 := upd_can (can_lld_transmit (env_can env) CAN_ANY_MAILBOX ?f) (CAND1 ?i), tx_log := tx_log ?i @ [?f]\<rparr>) s'"
      by (rule broadcast_stats_free [OF i(4)])
    show ?thesis
      using True b(1) loggedD [OF b(2)] loggedD_wdg [OF b(2)] i stats_api_frame
      by (intro that [of "s'\<lparr>WDGD1 := wdgReset (WDGD1 s')\<rparr>" "[?f]"])
        (auto simp: main_iter_def check_system_state_def is_stats_def)
  next
    case False
    show ?thesis
      using False i
      by (intro that [of "?i\<lparr>WDGD1 := wdgReset (WDGD1 ?i)\<rparr>" "[]"])
        (auto simp: main_iter_def check_system_state_def)
  qed
qed



end
