(* ===== verification/Firmware.thy ===== *)
theory Firmware
  imports Main_loop
begin

text \<open>
  The three threads of the firmware as one transition system.  Each thread is shown to keep a
  guarantee on the shared state when the others keep it too (the \<open>interference\<close> at its blocking
  points), so every run keeps it.
\<close>

section \<open>Rely and guarantee\<close>

text \<open>
  What every thread guarantees to the others, and relies on from them whenever it blocks: the
  base address stays, a provisioned device stays provisioned, the log of accepted frames only
  grows, by well-formed frames of the API, and not by announcements once provisioned.
\<close>

definition fw_frame :: "u32 \<Rightarrow> CANTxFrame \<Rightarrow> bool" where
  "fw_frame base f \<longleftrightarrow> (\<exists>offset \<in> {API_ANNOUNCEMENT, API_STATS, API_BROADCAST_SENSORS}.
     \<exists>data. api_frame base offset data f)"

definition is_announcement :: "u32 \<Rightarrow> CANTxFrame \<Rightarrow> bool" where
  "is_announcement base f \<longleftrightarrow> get_EID (tx_id f) = base AND 0x1FFFFFFF"

definition guar :: "app \<Rightarrow> app \<Rightarrow> bool" where
  "guar s s' \<longleftrightarrow> g_can_base_address s' = g_can_base_address s \<and> (g_provisioned s \<longrightarrow> g_provisioned s') \<and>
     (\<exists>fs. tx_log s' = tx_log s @ fs \<and> (\<forall>f \<in> set fs. fw_frame (g_can_base_address s) f) \<and>
        (g_provisioned s \<longrightarrow> (\<forall>f \<in> set fs. \<not> is_announcement (g_can_base_address s) f)))"

lemma guar_refl [simp]: "guar s s"
  by (simp add: guar_def)

lemma guar_trans: "guar s s' \<Longrightarrow> guar s' s'' \<Longrightarrow> guar s s''"
  unfolding guar_def by (elim conjE exE) (simp, blast)

lemma guar_same: "g_can_base_address s' = g_can_base_address s \<Longrightarrow> g_provisioned s' = g_provisioned s \<Longrightarrow>
    tx_log s' = tx_log s \<Longrightarrow> guar s s'"
  by (simp add: guar_def)

lemma guar_logged: "logged t s s' \<Longrightarrow> guar s s'"
  using loggedD [of t s s'] by (intro guar_same) simp_all

lemma guar_sent:
  assumes "fw_frame (g_can_base_address s) f" "\<not> g_provisioned s \<or> \<not> is_announcement (g_can_base_address s) f"
  shows "guar s (s\<lparr>CAND1 := d, wakes := ws, tx_log := tx_log s @ [f]\<rparr>)"
  using assms by (simp add: guar_def)

lemma send_frame_guar:
  assumes "\<And>s. guar s (interference env s)" "send_frame env self f s = Some s'"
    "fw_frame (g_can_base_address s) f" "\<not> g_provisioned s \<or> \<not> is_announcement (g_can_base_address s) f"
  shows "guar s s'"
proof -
  obtain l ws d where l: "l = tx_log s \<or> l = tx_log s @ [f]"
    and s': "s' = s\<lparr>CAND1 := d, wakes := ws, tx_log := l\<rparr> \<or> s' = interference env (s\<lparr>CAND1 := d, wakes := ws, tx_log := l\<rparr>)"
    by (rule send_frame_cases [OF assms(2)])
  have "guar s (s\<lparr>CAND1 := d, wakes := ws, tx_log := l\<rparr>)"
    using l guar_sent [OF assms(3,4), of ws d] by (auto intro: guar_same)
  then show ?thesis using s' assms(1) guar_trans by blast
qed

lemma fw_frames:
  "fw_frame base (announcement f base)" "fw_frame base (stats_frame f base rate)" "fw_frame base (sensor_frame f base raw)"
  using announcement_frame stats_api_frame sensor_api_frame unfolding fw_frame_def by blast+

text \<open>No other frame can be taken for an announcement: base addresses are far below 2^29.\<close>

definition base_ok :: "u32 \<Rightarrow> bool" where "base_ok base \<longleftrightarrow> unat base < 2 ^ 28"

lemma base_ok_offset:
  assumes "base_ok base" "n < 2 ^ 28"
  shows "(base + of_nat n) AND 0x1FFFFFFF = base + of_nat n" "unat (base + of_nat n) = unat base + n"
proof -
  show u: "unat (base + of_nat n) = unat base + n"
    using assms by (subst unat_add_small) (auto simp: base_ok_def unat_of_nat_small)
  have "unat (base + of_nat n) < 2 ^ 29" using u assms by (simp add: base_ok_def)
  then have "take_bit 29 (base + of_nat n) = base + of_nat n"
    by (simp add: take_bit_eq_self_iff_drop_bit_eq_0 unat_eq_0 [symmetric] unat_drop_bit_eq drop_bit_eq_div)
  then show "(base + of_nat n) AND 0x1FFFFFFF = base + of_nat n"
    by (simp add: id_masks take_bit_eq_mask)
qed

lemma not_announcement:
  assumes "base_ok base" "api_frame base offset data f" "offset \<in> {API_STATS, API_BROADCAST_SENSORS}"
  shows "\<not> is_announcement base f"
proof -
  obtain n where n: "offset = of_nat n" "0 < n" "n < 2 ^ 28"
    using assms(3) by (auto intro: that [of 2] that [of 20])
  have "get_EID (tx_id f) = base + of_nat n"
    using assms(2) base_ok_offset(1) [OF assms(1) n(3)] by (simp add: api_frame_def n(1))
  moreover have "base AND 0x1FFFFFFF = base" using base_ok_offset(1) [OF assms(1), of 0] by simp
  ultimately show ?thesis
    using base_ok_offset(2) [OF assms(1) n(3)] n(2) by (auto simp: is_announcement_def)
qed

lemma announcement_guar:
  assumes "\<And>s. guar s (interference env s)" "\<not> g_provisioned s" "api_send_announcement env self s = Some s'"
  shows "guar s s'"
proof -
  obtain s1 where 1: "send_frame env self (announcement (uninit_tx env) (g_can_base_address s)) s = Some s1"
      "log_info msg_announcement [] s1 = Some s'"
    using assms(3) by (auto simp: api_send_announcement_def get_can_base_id_def bind_eq_Some_conv)
  have "guar s s1" using send_frame_guar [OF assms(1) 1(1)] fw_frames(1) assms(2) by blast
  moreover have "guar s1 s'" using log_atD [of 1 msg_announcement "[]" s1 s'] 1(2) guar_logged by (auto simp: log_info_def)
  ultimately show ?thesis by (rule guar_trans)
qed

lemma log_bytes_guar: "log_bytes i n data s = Some s' \<Longrightarrow> guar s s'"
proof (induction i n data s rule: log_bytes.induct)
  case (2 i n data s)
  then obtain s1 where 1: "i < length data" "log_debug_b ''%02X '' [VInt (ucast (data ! i))] s = Some s1"
      "log_bytes (Suc i) n data s1 = Some s'"
    by (auto simp: bind_eq_Some_conv split: if_splits)
  have "guar s s1" using log_bD 1(2) guar_logged by blast
  then show ?case using 2 1 guar_trans by blast
qed simp

lemma log_rx_guar: "log_CAN_rx_message pfx f s = Some s' \<Longrightarrow> guar s s'"
proof (cases "get_logging_level s < logging_level_debug")
  case False
  assume "log_CAN_rx_message pfx f s = Some s'"
  then obtain s1 s2 s3 where "log_at 2 pfx [] s = Some s1" "log_debug_b ''CAN Rx'' [] s1 = Some s2"
      "log_debug_b '' ID(%i) '' [VInt (if rx_IDE f = CAN_IDE_EXT then get_EID (rx_id f) else get_SID (rx_id f))] s2 = Some s3"
      "log_bytes 0 (unat (rx_DLC f)) (rx_data8 f) s3 = Some s'"
    using False by (auto simp: log_CAN_rx_message_def log_debug_can_frame_def log_debug_def Let_def bind_eq_Some_conv)
  then have "guar s s1" "guar s1 s2" "guar s2 s3" "guar s3 s'"
    using log_atD log_bD guar_logged log_bytes_guar by blast+
  then show ?thesis using guar_trans by blast
qed (simp add: log_CAN_rx_message_def)

lemma next_arrival_guar: "guar s (next_arrival s)"
  by (rule guar_same) (simp_all add: next_arrival_def split: list.splits)

lemma dispatch_guar: "dispatch_can_rx f s = Some (b, s') \<Longrightarrow> guar s s'"
proof -
  assume d: "dispatch_can_rx f s = Some (b, s')"
  obtain b1 s1 where "dispatch_can_rx f s = Some (b1, s1)" "g_can_base_address s1 = g_can_base_address s"
    "tx_log s1 = tx_log s" "g_provisioned s \<longrightarrow> g_provisioned s1"
    by (rule dispatch_effect [of f s])
  then show "guar s s'" using d by (simp add: guar_def)
qed

lemma rx_loop_guar: "can_rx_loop env self rx s = Some s' \<Longrightarrow> guar s s'"
proof (rule can_rx_loop.raw_induct [where P = "\<lambda>env self rx s s'. guar s s'", rotated])
  fix loop :: "app_env \<Rightarrow> nat \<Rightarrow> CANRxFrame \<Rightarrow> app \<Rightarrow> app option" and env self rx s s'
  assume 1: "\<And>env self rx s s'. loop env self rx s = Some s' \<Longrightarrow> guar s s'"
    "(let s = next_arrival s
      in case canReceive (env_can env) self CAN_ANY_MAILBOX rx TIME_IMMEDIATE [] (CAND1 s) of
           None \<Rightarrow> None
         | Some (m, rx, ws, d) \<Rightarrow>
             if m = MSG_OK
             then do {
               s1 \<leftarrow> log_CAN_rx_message ''SYS_CAN:     '' rx (s\<lparr>CAND1 := d\<rparr>);
               (b, s2) \<leftarrow> dispatch_can_rx rx s1;
               loop env self rx s2
             }
             else Some (s\<lparr>CAND1 := d\<rparr>)) = Some s'"
  let ?s = "next_arrival s"
  obtain m rx1 ws d where rc: "canReceive (env_can env) self 0 rx 0 [] (CAND1 ?s) = Some (m, rx1, ws, d)"
    using 1(2) by (auto simp: Let_def split: option.splits)
  have g: "guar s (?s\<lparr>CAND1 := d\<rparr>)" by (rule guar_trans [OF next_arrival_guar guar_same]) simp_all
  show "guar s s'"
  proof (cases "m = MSG_OK")
    case False
    then show ?thesis using 1(2) rc g by (simp add: Let_def)
  next
    case True
    then obtain s1 b s2 where s: "log_CAN_rx_message ''SYS_CAN:     '' rx1 (?s\<lparr>CAND1 := d\<rparr>) = Some s1"
        "dispatch_can_rx rx1 s1 = Some (b, s2)" "loop env self rx1 s2 = Some s'"
      using 1(2) rc by (auto simp: Let_def bind_eq_Some_conv)
    show ?thesis
      by (rule guar_trans [OF g guar_trans [OF log_rx_guar [OF s(1)] guar_trans [OF dispatch_guar [OF s(2)] 1(1) [OF s(3)]]]])
  qed
qed

section \<open>The threads keep the guarantee\<close>

definition rely :: "app_env \<Rightarrow> bool" where "rely env \<longleftrightarrow> (\<forall>s. guar s (interference env s))"

lemma relyD: "rely env \<Longrightarrow> guar s (interference env s)"
  by (simp add: rely_def)

lemma guar_base: "guar s s' \<Longrightarrow> g_can_base_address s' = g_can_base_address s"
  by (simp add: guar_def)

lemma can_worker_iter_guar:
  assumes "rely env" "can_worker_iter env self evt s = Some s'"
  shows "guar s s'"
proof -
  let ?i = "interference env s"
  have "guar ?i s'"
  proof (cases "evt = 0")
    case True
    then show ?thesis
      using assms announcement_guar [OF relyD, of env ?i self s']
      by (auto simp: can_worker_iter_def Let_def api_is_provisoned_def split: if_splits)
  next
    case False
    then show ?thesis using assms(2) rx_loop_guar by (auto simp: can_worker_iter_def Let_def)
  qed
  then show ?thesis using relyD [OF assms(1)] guar_trans by blast
qed

lemma send_fw_guar:
  assumes "rely env" "base_ok (g_can_base_address s)" "send_frame env self f s = Some s'"
    "api_frame (g_can_base_address s) offset data f" "offset \<in> {API_STATS, API_BROADCAST_SENSORS}"
  shows "guar s s'"
proof -
  have "fw_frame (g_can_base_address s) f" using assms(4,5) by (auto simp: fw_frame_def)
  then show ?thesis
    using send_frame_guar [OF relyD [OF assms(1)] assms(3)] not_announcement [OF assms(2,4,5)] by blast
qed

lemma adc_worker_iter_guar:
  assumes "rely env" "base_ok (g_can_base_address s)" "system_adc_worker_iter env self s = Some (z, s')"
  shows "guar s s'"
proof -
  let ?s0 = "s\<lparr>clock_reads := clock_reads s + 1\<rparr>"
  obtain s1 s2 s3 where 1: "system_adc_sample env ?s0 = Some s1"
      "send_frame env self (sensor_frame (uninit_tx env) (g_can_base_address s1) (raw_samples s1)) s1 = Some s2"
      "\<exists>args. log_at 2 msg_sample args s2 = Some s3" "s' = s3\<lparr>clock_reads := clock_reads s3 + 1\<rparr>"
    using assms(3)
    by (auto simp: system_adc_worker_iter_def chVTGetSystemTimeX_def Let_def bind_eq_Some_conv get_can_base_id_def log_debug_def)
  have g1: "guar s s1" using 1(1) by (intro guar_same) (auto simp: system_adc_sample_def Let_def bind_eq_Some_conv)
  have "guar s1 s2"
    using send_fw_guar [OF assms(1) _ 1(2) sensor_api_frame] assms(2) guar_base [OF g1] by simp
  moreover have "guar s2 s3" using 1(3) log_atD guar_logged by blast
  moreover have "guar s3 s'" using 1(4) by (intro guar_same) simp_all
  ultimately show ?thesis using g1 guar_trans by blast
qed

lemma main_iter_guar:
  assumes "rely env" "base_ok (g_can_base_address s)" "main_iter env self (c, s) = Some (c', s')"
  shows "guar s s'"
proof -
  let ?i = "interference env s"
  note i = relyD [OF assms(1), of s]
  obtain s1 where s1: "s1 = ?i \<or> broadcast_stats env self ?i = Some s1" "s' = s1\<lparr>WDGD1 := wdgReset (WDGD1 s1)\<rparr>"
    using assms(3) by (auto simp: main_iter_def Let_def bind_eq_Some_conv check_system_state_def split: if_splits)
  have "guar ?i s1"
  proof (cases "s1 = ?i")
    case False
    then obtain s0 where 0: "send_frame env self (stats_frame (uninit_tx env) (g_can_base_address ?i) (update_rate_hz ?i)) ?i = Some s0"
        "log_at 1 msg_stats [] s0 = Some s1"
      using s1(1) by (auto simp: broadcast_stats_def bind_eq_Some_conv get_can_base_id_def get_sample_rate_def log_info_def)
    have "guar ?i s0"
      using send_fw_guar [OF assms(1) _ 0(1) stats_api_frame] assms(2) guar_base [OF i] by simp
    then show ?thesis using log_atD [OF 0(2)] guar_logged guar_trans by blast
  qed simp
  moreover have "guar s1 s'" using s1(2) by (intro guar_same) simp_all
  ultimately show ?thesis using i guar_trans by blast
qed

section \<open>The firmware as a transition system\<close>

text \<open>
  One step is an iteration of one of the three threads, run with interference from the others
  at its blocking points, or activity of the peripherals and their interrupt handlers.  The
  state is the counter of the main loop and the shared state.
\<close>

inductive fw_step :: "app_env \<Rightarrow> u32 \<times> app \<Rightarrow> u32 \<times> app \<Rightarrow> bool" for env where
  can_thread: "can_worker_iter env 1 evt s = Some s' \<Longrightarrow> fw_step env (c, s) (c, s')"
| adc_thread: "system_adc_worker_iter env 2 s = Some (z, s') \<Longrightarrow> fw_step env (c, s) (c, s')"
| main_thread: "main_iter env 0 (c, s) = Some (c', s') \<Longrightarrow> fw_step env (c, s) (c', s')"
| peripherals: "fw_step env (c, s) (c, s\<lparr>CAND1 := d, ADCD1 := a, internal_samples := b, wakes := ws, arrivals := as\<rparr>)"

lemma fw_step_guar:
  assumes "rely env" "base_ok (g_can_base_address s)" "fw_step env (c, s) (c', s')"
  shows "guar s s'"
  using assms(3)
proof cases
  case (can_thread evt)
  then show ?thesis using can_worker_iter_guar [OF assms(1)] by blast
next
  case (adc_thread z)
  then show ?thesis using adc_worker_iter_guar [OF assms(1,2)] by blast
next
  case main_thread
  then show ?thesis using main_iter_guar [OF assms(1,2)] by blast
next
  case peripherals
  then show ?thesis by (auto intro: guar_same)
qed

lemma fw_run_guar:
  assumes "rely env" "base_ok (g_can_base_address (snd x))" "(fw_step env)\<^sup>*\<^sup>* x y"
  shows "guar (snd x) (snd y)"
  using assms(3)
proof (induction rule: rtranclp_induct)
  case (step y z)
  have "guar (snd y) (snd z)"
    using fw_step_guar [OF assms(1), of "snd y" "fst y" "fst z" "snd z"] step.hyps(2) guar_base [OF step.IH] assms(2) by simp
  then show ?case using step.IH guar_trans by blast
qed simp

end
