(* ===== verification/Vt.thy ===== *)
theory Vt
  imports Prelude
begin

text \<open>
  Virtual timers, \<^verbatim>\<open>os/rt/src/chvt.c\<close> and the inline functions of \<^verbatim>\<open>os/rt/include/chvt.h\<close>, in the
  tick-less configuration of the firmware (\<^verbatim>\<open>CH_CFG_ST_TIMEDELTA\<close> is 2, the system time has 32
  bits).  The doubly linked delta list is the list of its timers; the list header, whose delta
  is always the largest time, is its end.  Readings of the system time are arguments;
  \<open>vt_alarm\<close> is the alarm programmed into the hardware timer; \<open>vt_fired\<close> logs the timers whose
  callback was invoked.
\<close>

record virtual_timer =
  vt_id :: nat
  vt_delta :: systime_t
  vt_func :: nat
  vt_par :: nat

record virtual_timers_list =
  vt_timers :: "virtual_timer list"
  vt_lasttime :: systime_t
  vt_alarm :: "systime_t option"
  vt_fired :: "virtual_timer list"

abbreviation (input) CH_CFG_ST_TIMEDELTA :: systime_t where "CH_CFG_ST_TIMEDELTA \<equiv> 2"

definition vt_init :: virtual_timers_list where
  "vt_init = \<lparr>vt_timers = [], vt_lasttime = 0, vt_alarm = None, vt_fired = []\<rparr>"

section \<open>Time windows\<close>

definition chVTTimeElapsedSinceX :: "systime_t \<Rightarrow> systime_t \<Rightarrow> systime_t" where
  "chVTTimeElapsedSinceX now start = now - start"

definition chVTIsTimeWithinX :: "systime_t \<Rightarrow> systime_t \<Rightarrow> systime_t \<Rightarrow> bool" where
  "chVTIsTimeWithinX time start fin \<longleftrightarrow> time - start < fin - start"

definition chVTIsSystemTimeWithinX :: "systime_t \<Rightarrow> systime_t \<Rightarrow> systime_t \<Rightarrow> bool" where
  "chVTIsSystemTimeWithinX now start fin = chVTIsTimeWithinX now start fin"

definition chVTGetTimersStateI :: "systime_t \<Rightarrow> virtual_timers_list \<Rightarrow> systime_t option" where
  "chVTGetTimersStateI now l = (case vt_timers l of [] \<Rightarrow> None
     | v # _ \<Rightarrow> Some (vt_lasttime l + vt_delta v + CH_CFG_ST_TIMEDELTA - now))"

definition chVTIsArmedI :: "nat \<Rightarrow> virtual_timers_list \<Rightarrow> bool" where
  "chVTIsArmedI i l \<longleftrightarrow> i \<in> set (map vt_id (vt_timers l))"

section \<open>Setting a timer\<close>

text \<open>The scan of the delta list for the place of the timer, and its insertion there.\<close>

fun vt_link :: "virtual_timer \<Rightarrow> systime_t \<Rightarrow> virtual_timer list \<Rightarrow> virtual_timer list" where
  "vt_link v delta [] = [v\<lparr>vt_delta := delta\<rparr>]"
| "vt_link v delta (p # ps) =
     (if vt_delta p < delta then p # vt_link v (delta - vt_delta p) ps
      else v\<lparr>vt_delta := delta\<rparr> # p\<lparr>vt_delta := vt_delta p - delta\<rparr> # ps)"

definition chVTDoSetI :: "systime_t \<Rightarrow> virtual_timer \<Rightarrow> systime_t \<Rightarrow> virtual_timers_list \<Rightarrow> virtual_timers_list" where
  "chVTDoSetI now v delay0 l =
     (let delay = (if delay0 < CH_CFG_ST_TIMEDELTA then CH_CFG_ST_TIMEDELTA else delay0)
      in case vt_timers l of
           [] \<Rightarrow> l\<lparr>vt_lasttime := now, vt_timers := [v\<lparr>vt_delta := delay\<rparr>], vt_alarm := Some (now + delay)\<rparr>
         | p # ps \<Rightarrow>
             let delta = now - vt_lasttime l + delay
             in if delta < now - vt_lasttime l
                then l\<lparr>vt_timers := p # vt_link v (delta - vt_delta p) ps\<rparr>
                else if delta < vt_delta p
                then l\<lparr>vt_alarm := Some (vt_lasttime l + delta), vt_timers := vt_link v delta (p # ps)\<rparr>
                else l\<lparr>vt_timers := vt_link v delta (p # ps)\<rparr>)"

section \<open>Resetting a timer\<close>

text \<open>Unlinking a timer that is not the first; its delta goes to the next one, if there is one.\<close>

fun vt_unlink :: "nat \<Rightarrow> virtual_timer list \<Rightarrow> virtual_timer list" where
  "vt_unlink i [] = []"
| "vt_unlink i (v # vs) =
     (if vt_id v = i
      then (case vs of [] \<Rightarrow> [] | n # ns \<Rightarrow> n\<lparr>vt_delta := vt_delta n + vt_delta v\<rparr> # ns)
      else v # vt_unlink i vs)"

definition chVTDoResetI :: "systime_t \<Rightarrow> nat \<Rightarrow> virtual_timers_list \<Rightarrow> virtual_timers_list" where
  "chVTDoResetI now i l =
     (case vt_timers l of
        [] \<Rightarrow> l
      | v # vs \<Rightarrow>
          if vt_id v \<noteq> i then l\<lparr>vt_timers := vt_unlink i (v # vs)\<rparr>
          else (case vs of
                  [] \<Rightarrow> l\<lparr>vt_timers := [], vt_alarm := None\<rparr>
                | n # ns \<Rightarrow>
                    let d = vt_delta n + vt_delta v;
                        l = l\<lparr>vt_timers := n\<lparr>vt_delta := d\<rparr> # ns\<rparr>;
                        nowdelta = now - vt_lasttime l
                    in if nowdelta \<ge> d then l
                       else let delta = d - nowdelta;
                                delta = (if delta < CH_CFG_ST_TIMEDELTA then CH_CFG_ST_TIMEDELTA else delta)
                            in l\<lparr>vt_alarm := Some (vt_lasttime l + nowdelta + delta)\<rparr>))"

definition chVTResetI :: "systime_t \<Rightarrow> nat \<Rightarrow> virtual_timers_list \<Rightarrow> virtual_timers_list" where
  "chVTResetI now i l = (if chVTIsArmedI i l then chVTDoResetI now i l else l)"

text \<open>\<open>now1\<close> and \<open>now2\<close> are the readings of the time by the reset and by the set.\<close>

definition chVTSetI :: "systime_t \<Rightarrow> systime_t \<Rightarrow> virtual_timer \<Rightarrow> systime_t \<Rightarrow> virtual_timers_list \<Rightarrow> virtual_timers_list" where
  "chVTSetI now1 now2 v delay l = chVTDoSetI now2 v delay (chVTResetI now1 (vt_id v) l)"

section \<open>The tick\<close>

text \<open>
  \<open>clk i\<close> is the \<open>i\<close>-th reading of the time, \<open>cb\<close> what the callback of a timer does to the list.
  \<open>None\<close>: the loop never ends, or it takes the list header for a timer.
\<close>

partial_function (option) tick_loop :: "(nat \<Rightarrow> systime_t) \<Rightarrow> (virtual_timer \<Rightarrow> virtual_timers_list \<Rightarrow> virtual_timers_list) \<Rightarrow>
    nat \<Rightarrow> virtual_timers_list \<Rightarrow> (systime_t \<times> virtual_timers_list) option" where
  "tick_loop clk cb i l =
     (case vt_timers l of
        [] \<Rightarrow> if clk i - vt_lasttime l = - 1 then None else Some (clk i, l)
      | v # vs \<Rightarrow>
          if vt_delta v \<le> clk i - vt_lasttime l
          then tick_loop clk cb (Suc i)
                 (cb v (l\<lparr>vt_lasttime := vt_lasttime l + vt_delta v, vt_timers := vs,
                          vt_alarm := (if vs = [] then None else vt_alarm l), vt_fired := vt_fired l @ [v]\<rparr>))
          else Some (clk i, l))"

definition chVTDoTickI :: "(nat \<Rightarrow> systime_t) \<Rightarrow> (virtual_timer \<Rightarrow> virtual_timers_list \<Rightarrow> virtual_timers_list) \<Rightarrow>
    virtual_timers_list \<Rightarrow> virtual_timers_list option" where
  "chVTDoTickI clk cb l =
     do {
       (now, l) \<leftarrow> tick_loop clk cb 0 l;
       case vt_timers l of [] \<Rightarrow> Some l
       | v # _ \<Rightarrow>
           let delta = vt_lasttime l + vt_delta v - now;
               delta = (if delta < CH_CFG_ST_TIMEDELTA then CH_CFG_ST_TIMEDELTA else delta)
           in Some (l\<lparr>vt_alarm := Some (now + delta)\<rparr>)
     }"

section \<open>Deadlines\<close>

text \<open>
  The specification keeps each armed timer with its absolute expiry time on an unbounded time
  line, the list base time being \<open>L\<close>.
\<close>

fun deadlines :: "nat \<Rightarrow> virtual_timer list \<Rightarrow> (nat \<times> nat) list" where
  "deadlines L [] = []"
| "deadlines L (v # vs) = (vt_id v, L + unat (vt_delta v)) # deadlines (L + unat (vt_delta v)) vs"

fun ins_deadline :: "nat \<times> nat \<Rightarrow> (nat \<times> nat) list \<Rightarrow> (nat \<times> nat) list" where
  "ins_deadline x [] = [x]"
| "ins_deadline x (y # ys) = (if snd y < snd x then y # ins_deadline x ys else x # y # ys)"

lemma elapsed:
  assumes "L \<le> N" "N - L < 2 ^ 32"
  shows "unat (of_nat N - of_nat L :: systime_t) = N - L"
proof -
  have "of_nat N - of_nat L = (of_nat (N - L) :: systime_t)" using assms(1) by (simp add: of_nat_diff)
  then show ?thesis using assms(2) by (simp add: unat_of_nat_small)
qed

lemma max_time: "unat (- 1 :: systime_t) = 2 ^ 32 - 1"
  by (simp add: unsigned_minus_1_eq_mask mask_eq_exp_minus_1)

lemma unat_diff_le: "(a :: systime_t) \<le> b \<Longrightarrow> unat (b - a) = unat b - unat a"
  by (simp add: unat_sub)

lemma vt_link_deadlines: "deadlines L (vt_link v delta ps) = ins_deadline (vt_id v, L + unat delta) (deadlines L ps)"
proof (induction ps arbitrary: L delta)
  case (Cons p ps)
  show ?case
  proof (cases "vt_delta p < delta")
    case True
    then show ?thesis using Cons.IH [of "L + unat (vt_delta p)" "delta - vt_delta p"] unat_diff_le [of "vt_delta p" delta]
      by (simp add: word_less_nat_alt word_le_nat_alt)
  next
    case False
    then show ?thesis using unat_diff_le [of delta "vt_delta p"] by (simp add: word_less_nat_alt word_le_nat_alt)
  qed
qed simp

definition armed_delay :: "systime_t \<Rightarrow> nat" where "armed_delay delay = max 2 (unat delay)"

lemma raised_delay: "unat (if delay < CH_CFG_ST_TIMEDELTA then CH_CFG_ST_TIMEDELTA else delay) = armed_delay delay"
  by (simp add: armed_delay_def word_less_nat_alt max_def)

text \<open>
  Arming a virtual timer.  The timer enters the delta list with the deadline \<open>delay\<close> ticks
  from now (2 at least), in its place by deadline, and every other timer keeps its deadline; the
  alarm is reprogrammed exactly when the new timer is the first to expire.  The sum of the time
  elapsed since the list base and the delay may exceed the range of the system time, provided
  the first timer is not overdue.
\<close>

lemma timer_set_deadline:
  fixes L N :: nat and v :: virtual_timer
  assumes "vt_lasttime l = of_nat L" "L \<le> N" "N - L < 2 ^ 32"
    "N - L + armed_delay delay < 2 ^ 32 \<or> (\<forall>p \<in> set (take 1 (vt_timers l)). N - L \<le> unat (vt_delta p))"
  defines "l' \<equiv> chVTDoSetI (of_nat N) v delay l" and "L' \<equiv> (if vt_timers l = [] then N else L)"
  shows "vt_lasttime l' = of_nat L' \<and>
    deadlines L' (vt_timers l') = ins_deadline (vt_id v, N + armed_delay delay) (deadlines L (vt_timers l)) \<and>
    vt_alarm l' = (if vt_timers l = [] \<or> N + armed_delay delay < snd (hd (deadlines L (vt_timers l)))
      then Some (of_nat (N + armed_delay delay)) else vt_alarm l)"
proof -
  define d where "d = (if delay < CH_CFG_ST_TIMEDELTA then CH_CFG_ST_TIMEDELTA else delay)"
  have d: "unat d = armed_delay delay" unfolding d_def by (rule raised_delay)
  have dn: "of_nat (armed_delay delay) = d" by (simp add: d [symmetric])
  have e: "unat (of_nat N - of_nat L :: systime_t) = N - L" using assms(2,3) by (rule elapsed)
  show ?thesis
  proof (cases "vt_timers l")
    case Nil
    then show ?thesis using d dn by (simp add: l'_def L'_def chVTDoSetI_def d_def [symmetric] Let_def)
  next
    case (Cons p ps)
    let ?delta = "of_nat N - of_nat L + d :: systime_t"
    show ?thesis
    proof (cases "N - L + unat d < 2 ^ 32")
      case True
      then have u: "unat ?delta = N - L + unat d" using e by (subst unat_add_small) simp_all
      have no: "\<not> ?delta < of_nat N - of_nat L" using u e by (simp add: word_less_nat_alt)
      have lt: "?delta < vt_delta p \<longleftrightarrow> N + armed_delay delay < L + unat (vt_delta p)"
        using u d assms(2) by (auto simp: word_less_nat_alt)
      have "of_nat L + ?delta = of_nat (N + unat d)" by simp
      then show ?thesis
        using no lt vt_link_deadlines [of L v ?delta "p # ps"] u d dn assms(1,2)
        by (simp add: l'_def L'_def chVTDoSetI_def d_def [symmetric] Cons Let_def del: vt_link.simps)
    next
      case False
      then have p: "N - L \<le> unat (vt_delta p)" using assms(4) d Cons by simp
      have ov: "unat ?delta = N - L + unat d - 2 ^ 32"
        using False unat_lt_2p [of d] e assms(3) by (simp add: unat_word_ariths mod_if)
      have lt: "?delta < of_nat N - of_nat L" using ov e False unat_lt_2p [of d] by (simp add: word_less_nat_alt)
      have u: "unat (?delta - vt_delta p) = N - L + unat d - unat (vt_delta p)"
      proof -
        have "unat (?delta - vt_delta p) = unat ?delta + 2 ^ 32 - unat (vt_delta p)"
          using lt e p ov False unat_lt_2p [of d] by (subst unat_sub_if_size) (simp add: word_le_nat_alt word_size)
        then show ?thesis using ov False by simp
      qed
      have k: "L + unat (vt_delta p) < N + unat d"
        using False unat_lt_2p [of "vt_delta p"] assms(2) by simp
      have s: "L + unat (vt_delta p) + unat (?delta - vt_delta p) = N + unat d"
        unfolding u using k assms(2) by simp
      show ?thesis
        using lt k s vt_link_deadlines [of "L + unat (vt_delta p)" v "?delta - vt_delta p" ps] assms(1) d
        by (simp add: l'_def L'_def chVTDoSetI_def d_def [symmetric] Cons Let_def)
    qed
  qed
qed

definition sample_vt :: "nat \<Rightarrow> systime_t \<Rightarrow> virtual_timer" where
  "sample_vt i delta = \<lparr>vt_id = i, vt_delta = delta, vt_func = 0, vt_par = 0\<rparr>"

definition sample_vtlist :: virtual_timers_list where
  "sample_vtlist = \<lparr>vt_timers = [sample_vt 1 10, sample_vt 2 0, sample_vt 3 90], vt_lasttime = 0, vt_alarm = Some 10, vt_fired = []\<rparr>"

text \<open>Almost the longest delay, set five ticks after the base time of the list.\<close>

section \<open>Expiry\<close>

lemma deadlines_ge: "x \<in> set (deadlines L vs) \<Longrightarrow> L \<le> snd x"
  by (induction vs arbitrary: L) fastforce+

lemma deadlines_Cons_ge: "x \<in> set (deadlines L (v # vs)) \<Longrightarrow> L + unat (vt_delta v) \<le> snd x"
  using deadlines_ge [of x "L + unat (vt_delta v)" vs] by auto

lemma map_fst_deadlines [simp]: "map fst (deadlines L vs) = map vt_id vs"
  by (induction vs arbitrary: L) auto

lemma length_deadlines [simp]: "length (deadlines L vs) = length vs"
  by (induction vs arbitrary: L) auto

definition quiet_cb :: "virtual_timer \<Rightarrow> virtual_timers_list \<Rightarrow> virtual_timers_list" where "quiet_cb v l = l"

lemma tick_loop_fires:
  fixes T :: "nat \<Rightarrow> nat"
  assumes "vt_lasttime l = of_nat L" "mono T" "L \<le> T i" "T (i + length (vt_timers l)) - L < 2 ^ 32 - 1"
  shows "\<exists>k L' l'. tick_loop (\<lambda>i. of_nat (T i)) quiet_cb i l = Some (of_nat (T (i + k)), l') \<and> k \<le> length (vt_timers l) \<and>
    vt_timers l' = drop k (vt_timers l) \<and> vt_fired l' = vt_fired l @ take k (vt_timers l) \<and>
    vt_lasttime l' = of_nat L' \<and> L \<le> L' \<and> L' \<le> T (i + k) \<and>
    deadlines L' (vt_timers l') = drop k (deadlines L (vt_timers l)) \<and>
    (\<forall>x \<in> set (take k (deadlines L (vt_timers l))). snd x \<le> T (i + k)) \<and>
    (\<forall>x \<in> set (deadlines L' (vt_timers l')). T (i + k) < snd x) \<and>
    (vt_timers l' = [] \<longrightarrow> vt_alarm l' = (if vt_timers l = [] then vt_alarm l else None))"
  using assms
proof (induction "vt_timers l" arbitrary: l L i)
  case Nil
  have e: "unat (of_nat (T i) - of_nat L :: systime_t) = T i - L" using Nil.prems(3,4) Nil.hyps by (intro elapsed) auto
  then have "(of_nat (T i) - of_nat L :: systime_t) \<noteq> - 1"
    using Nil.prems(4) Nil.hyps max_time by auto
  then have "tick_loop (\<lambda>i. of_nat (T i)) quiet_cb i l = Some (of_nat (T i), l)"
    using Nil.hyps Nil.prems(1) by (subst tick_loop.simps) (simp split: list.splits)
  then show ?case using Nil by (intro exI [of _ 0] exI [of _ L] exI [of _ l]) simp
next
  case (Cons v vs)
  note ts = Cons.hyps(2) [symmetric]
  have Ti: "T i \<le> T (i + length (vt_timers l))" using Cons.prems(2) by (simp add: mono_def)
  have e: "unat (of_nat (T i) - of_nat L :: systime_t) = T i - L" using Cons.prems(3,4) Ti by (intro elapsed) auto
  show ?case
  proof (cases "L + unat (vt_delta v) \<le> T i")
    case False
    then have "\<not> vt_delta v \<le> of_nat (T i) - vt_lasttime l" using e Cons.prems(1,3) by (simp add: word_le_nat_alt)
    then have "tick_loop (\<lambda>i. of_nat (T i)) quiet_cb i l = Some (of_nat (T i), l)"
      using ts by (subst tick_loop.simps) simp
    moreover have "\<forall>x \<in> set (deadlines L (vt_timers l)). T i < snd x"
      using deadlines_Cons_ge [of _ L v vs] False ts by fastforce
    ultimately show ?thesis using Cons.prems(1,3) ts by (intro exI [of _ 0] exI [of _ L] exI [of _ l]) simp
  next
    case True
    let ?L = "L + unat (vt_delta v)"
    let ?l = "l\<lparr>vt_lasttime := vt_lasttime l + vt_delta v, vt_timers := vs,
                vt_alarm := (if vs = [] then None else vt_alarm l), vt_fired := vt_fired l @ [v]\<rparr>"
    have step: "tick_loop (\<lambda>i. of_nat (T i)) quiet_cb i l = tick_loop (\<lambda>i. of_nat (T i)) quiet_cb (Suc i) ?l"
    proof -
      have "vt_delta v \<le> of_nat (T i) - vt_lasttime l" using True e Cons.prems(1,3) by (simp add: word_le_nat_alt)
      then show ?thesis using ts by (subst tick_loop.simps) (simp add: quiet_cb_def)
    qed
    have "T i \<le> T (Suc i)" using Cons.prems(2) by (simp add: mono_def)
    then have "\<exists>k L' l'. tick_loop (\<lambda>i. of_nat (T i)) quiet_cb (Suc i) ?l = Some (of_nat (T (Suc i + k)), l') \<and> k \<le> length (vt_timers ?l) \<and>
      vt_timers l' = drop k (vt_timers ?l) \<and> vt_fired l' = vt_fired ?l @ take k (vt_timers ?l) \<and>
      vt_lasttime l' = of_nat L' \<and> ?L \<le> L' \<and> L' \<le> T (Suc i + k) \<and>
      deadlines L' (vt_timers l') = drop k (deadlines ?L (vt_timers ?l)) \<and>
      (\<forall>x \<in> set (take k (deadlines ?L (vt_timers ?l))). snd x \<le> T (Suc i + k)) \<and>
      (\<forall>x \<in> set (deadlines L' (vt_timers l')). T (Suc i + k) < snd x) \<and>
      (vt_timers l' = [] \<longrightarrow> vt_alarm l' = (if vt_timers ?l = [] then vt_alarm ?l else None))"
      using Cons.prems True ts by (intro Cons.hyps(1)) auto
    then obtain k L' l' where k: "tick_loop (\<lambda>i. of_nat (T i)) quiet_cb (Suc i) ?l = Some (of_nat (T (Suc i + k)), l')" "k \<le> length vs"
      "vt_timers l' = drop k vs" "vt_fired l' = vt_fired l @ v # take k vs"
      "vt_lasttime l' = of_nat L'" "?L \<le> L'" "L' \<le> T (Suc i + k)"
      "deadlines L' (vt_timers l') = drop k (deadlines ?L vs)"
      "\<forall>x \<in> set (take k (deadlines ?L vs)). snd x \<le> T (Suc i + k)"
      "\<forall>x \<in> set (deadlines L' (vt_timers l')). T (Suc i + k) < snd x"
      "vt_timers l' = [] \<longrightarrow> vt_alarm l' = None"
      by auto
    have "T i \<le> T (Suc i + k)" using Cons.prems(2) by (simp add: mono_def)
    then show ?thesis
      using k step ts True by (intro exI [of _ "Suc k"] exI [of _ L'] exI [of _ l']) auto
  qed
qed

lemma tick_fires:
  fixes T :: "nat \<Rightarrow> nat"
  assumes "vt_lasttime l = of_nat L" "mono T" "L \<le> T 0" "T (length (vt_timers l)) - L < 2 ^ 32 - 1" "vt_timers l \<noteq> []"
  shows "\<exists>k l' L'. chVTDoTickI (\<lambda>i. of_nat (T i)) quiet_cb l = Some l' \<and> k \<le> length (vt_timers l) \<and>
    vt_fired l' = vt_fired l @ take k (vt_timers l) \<and> vt_timers l' = drop k (vt_timers l) \<and>
    deadlines L' (vt_timers l') = drop k (deadlines L (vt_timers l)) \<and>
    (\<forall>x \<in> set (take k (deadlines L (vt_timers l))). snd x \<le> T k) \<and>
    (\<forall>x \<in> set (drop k (deadlines L (vt_timers l))). T k < snd x) \<and>
    vt_alarm l' = (case drop k (deadlines L (vt_timers l)) of [] \<Rightarrow> None | x # _ \<Rightarrow> Some (of_nat (max (snd x) (T k + 2))))"
proof -
  obtain k L' l' where k: "tick_loop (\<lambda>i. of_nat (T i)) quiet_cb 0 l = Some (of_nat (T k), l')"
      "vt_timers l' = drop k (vt_timers l)" "vt_fired l' = vt_fired l @ take k (vt_timers l)"
      "vt_lasttime l' = of_nat L'" "L' \<le> T k" "deadlines L' (vt_timers l') = drop k (deadlines L (vt_timers l))"
      "\<forall>x \<in> set (take k (deadlines L (vt_timers l))). snd x \<le> T k" "\<forall>x \<in> set (deadlines L' (vt_timers l')). T k < snd x"
      "vt_timers l' = [] \<longrightarrow> vt_alarm l' = None" "k \<le> length (vt_timers l)"
    using tick_loop_fires [OF assms(1,2), of 0] assms(3-5) by auto
  show ?thesis
  proof (cases "vt_timers l'")
    case Nil
    then show ?thesis using k by (intro exI [of _ k] exI [of _ l'] exI [of _ L']) (auto simp: chVTDoTickI_def)
  next
    case (Cons v vs)
    let ?D = "L' + unat (vt_delta v)"
    have D: "T k < ?D" using k(8) Cons by simp
    have "of_nat L' + vt_delta v = (of_nat ?D :: systime_t)" by simp
    moreover have "?D - T k < 2 ^ 32" using k(5) unat_lt_2p [of "vt_delta v"] by simp
    ultimately have u: "unat (vt_lasttime l' + vt_delta v - of_nat (T k)) = ?D - T k"
      using elapsed [of "T k" ?D] D k(4) by simp
    define delta where "delta = vt_lasttime l' + vt_delta v - of_nat (T k)"
    have alarm: "of_nat (T k) + (if delta < CH_CFG_ST_TIMEDELTA then CH_CFG_ST_TIMEDELTA else delta) = (of_nat (max ?D (T k + 2)) :: systime_t)"
    proof (cases "delta < CH_CFG_ST_TIMEDELTA")
      case True
      then have "?D - T k < 2" using u by (simp add: word_less_nat_alt delta_def)
      then have "max ?D (T k + 2) = T k + 2" by simp
      then show ?thesis using True by (simp add: max_def)
    next
      case False
      then have "T k + 2 \<le> ?D" using u D by (simp add: word_less_nat_alt delta_def)
      moreover have "of_nat (T k) + delta = (of_nat ?D :: systime_t)" using k(4) by (simp add: delta_def)
      ultimately show ?thesis using False by (simp add: max_def)
    qed
    have "chVTDoTickI (\<lambda>i. of_nat (T i)) quiet_cb l =
        Some (l'\<lparr>vt_alarm := Some (of_nat (T k) + (if delta < CH_CFG_ST_TIMEDELTA then CH_CFG_ST_TIMEDELTA else delta))\<rparr>)"
      by (simp add: chVTDoTickI_def k(1) Cons Let_def delta_def)
    moreover have "drop k (deadlines L (vt_timers l)) = (vt_id v, ?D) # deadlines ?D vs"
      unfolding k(6) [symmetric] by (simp add: Cons)
    ultimately show ?thesis
      using k alarm by (intro exI [of _ k] exI [of _ "l'\<lparr>vt_alarm := Some (of_nat (max ?D (T k + 2)))\<rparr>"] exI [of _ L']) simp
  qed
qed

text \<open>
  C23: the tick.  It always returns; it fires the timers whose deadline has passed, in order of
  deadline, and only those; every other timer keeps its deadline; and the alarm is left at the
  first of those deadlines, or two ticks from now if that is closer, or stopped when no timer
  is left.  Time may advance while callbacks run.
\<close>

theorem tick_fires_expired_timers:
  fixes T :: "nat \<Rightarrow> nat"
  assumes "vt_lasttime l = of_nat L" "mono T" "L \<le> T 0" "T (length (vt_timers l)) - L < 2 ^ 32 - 1" "vt_timers l \<noteq> []"
  shows "\<exists>k l' L'. chVTDoTickI (\<lambda>i. of_nat (T i)) quiet_cb l = Some l' \<and> k \<le> length (vt_timers l) \<and>
    vt_fired l' = vt_fired l @ take k (vt_timers l) \<and> vt_timers l' = drop k (vt_timers l) \<and>
    deadlines L' (vt_timers l') = drop k (deadlines L (vt_timers l)) \<and>
    (\<forall>x \<in> set (take k (deadlines L (vt_timers l))). snd x \<le> T k) \<and>
    (\<forall>x \<in> set (drop k (deadlines L (vt_timers l))). T k < snd x) \<and>
    vt_alarm l' = (case drop k (deadlines L (vt_timers l)) of [] \<Rightarrow> None | x # _ \<Rightarrow> Some (of_nat (max (snd x) (T k + 2))))"
  using assms by (rule tick_fires)

text \<open>Two timers expire at tick 10, the third later.\<close>

theorem tick_fires_expired_timers_witness:
  "\<exists>k l'. chVTDoTickI (\<lambda>i. of_nat 12) quiet_cb sample_vtlist = Some l' \<and> vt_fired l' = take k (vt_timers sample_vtlist) \<and>
     vt_timers l' = drop k (vt_timers sample_vtlist) \<and> (\<forall>x \<in> set (drop k [(1 :: nat, 10), (2, 10), (3, 100)]). (12 :: nat) < snd x)"
proof -
  have d: "deadlines 0 (vt_timers sample_vtlist) = [(1, 10), (2, 10), (3, 100)]"
    and v: "vt_lasttime sample_vtlist = of_nat 0" "vt_timers sample_vtlist \<noteq> []" "vt_fired sample_vtlist = []"
    by (simp_all add: sample_vtlist_def sample_vt_def)
  have m: "mono (\<lambda>i :: nat. 12 :: nat)" by (simp add: mono_def)
  show ?thesis
    using tick_fires_expired_timers [of sample_vtlist 0 "\<lambda>i. 12", OF v(1) m _ _ v(2)] unfolding d v(3) by auto
qed

section \<open>Disarming\<close>

lemma vt_unlink_deadlines:
  assumes "distinct (map vt_id vs)" "\<forall>x \<in> set (deadlines L vs). snd x - L < 2 ^ 32"
  shows "deadlines L (vt_unlink i vs) = filter (\<lambda>x. fst x \<noteq> i) (deadlines L vs)"
  using assms
proof (induction vs arbitrary: L)
  case (Cons v vs)
  let ?L = "L + unat (vt_delta v)"
  show ?case
  proof (cases "vt_id v = i")
    case False
    have "\<forall>x \<in> set (deadlines ?L vs). snd x - ?L < 2 ^ 32" using Cons.prems(2) by force
    then show ?thesis using False Cons by simp
  next
    case True
    have "fst ` set (deadlines ?L vs) = vt_id ` set vs" using map_fst_deadlines [of ?L vs] by (metis list.set_map)
    then have i: "i \<notin> fst ` set (deadlines ?L vs)" using True Cons.prems(1) by simp
    then have f: "filter (\<lambda>x. fst x \<noteq> i) (deadlines ?L vs) = deadlines ?L vs" by (auto intro: filter_True)
    show ?thesis
    proof (cases vs)
      case (Cons n ns)
      have "unat (vt_delta v) + unat (vt_delta n) < 2 ^ 32" using Cons.prems(2) Cons by simp
      then have "unat (vt_delta n + vt_delta v) = unat (vt_delta v) + unat (vt_delta n)" by (subst unat_add_small) simp_all
      then show ?thesis using True f Cons by (simp add: add.assoc)
    qed (use True in simp)
  qed
qed simp

lemma first_unlink: "vt_timers l = v # n # ns \<Longrightarrow> vt_id v = i \<Longrightarrow>
    vt_timers (chVTDoResetI now i l) = vt_unlink i (v # n # ns)"
  by (simp add: chVTDoResetI_def Let_def)

lemma reset_timers: "vt_timers (chVTDoResetI now i l) = vt_unlink i (vt_timers l)"
  using first_unlink [of l _ _ _ i now] by (auto simp: chVTDoResetI_def split: list.splits)

text \<open>
  Disarming a virtual timer removes it and leaves every other deadline as it was, as long as
  no deadline lies 2^32 ticks or more after the base time of the list.
\<close>

lemma timer_reset_keeps_deadlines:
  assumes "distinct (map vt_id (vt_timers l))" "\<forall>x \<in> set (deadlines L (vt_timers l)). snd x - L < 2 ^ 32"
  shows "vt_lasttime (chVTResetI now i l) = vt_lasttime l \<and> \<not> chVTIsArmedI i (chVTResetI now i l) \<and>
    deadlines L (vt_timers (chVTResetI now i l)) = filter (\<lambda>x. fst x \<noteq> i) (deadlines L (vt_timers l))"
proof -
  have la: "vt_lasttime (chVTDoResetI now i l) = vt_lasttime l"
    by (simp add: chVTDoResetI_def Let_def split: list.splits)
  have un: "deadlines L (vt_timers (chVTDoResetI now i l)) = filter (\<lambda>x. fst x \<noteq> i) (deadlines L (vt_timers l))"
    unfolding reset_timers by (rule vt_unlink_deadlines [OF assms])
  have ids: "chVTIsArmedI i l' \<longleftrightarrow> i \<in> fst ` set (deadlines L (vt_timers l'))" for l'
    unfolding chVTIsArmedI_def by (metis list.set_map map_fst_deadlines)
  show ?thesis
  proof (cases "chVTIsArmedI i l")
    case True
    then have r: "chVTResetI now i l = chVTDoResetI now i l" by (simp add: chVTResetI_def)
    have "\<not> chVTIsArmedI i (chVTDoResetI now i l)" unfolding ids un by auto
    then show ?thesis using r la un by simp
  next
    case False
    then have "filter (\<lambda>x. fst x \<noteq> i) (deadlines L (vt_timers l)) = deadlines L (vt_timers l)"
      unfolding ids by (auto intro: filter_True)
    then show ?thesis using False by (simp add: chVTResetI_def)
  qed
qed

text \<open>
  Beyond that bound the deadline of the next timer is cut by 2^32 ticks: a timer armed for almost
  the whole range of the system time, behind another one, becomes due at once when that one is
  disarmed.
\<close>

lemma timer_reset_wraps:
  "let l = chVTDoSetI 5 (sample_vt 2 0) 0xFFFFFFFE \<lparr>vt_timers = [sample_vt 1 10], vt_lasttime = 0, vt_alarm = Some 10, vt_fired = []\<rparr>
   in deadlines 0 (vt_timers l) = [(1, 10), (2, 4294967299)] \<and> deadlines 0 (vt_timers (chVTDoResetI 6 1 l)) = [(2, 3)]"
  by (simp add: chVTDoSetI_def chVTDoResetI_def sample_vt_def)

section \<open>Which timers are in the list\<close>

text \<open>A timer and the parameter of its callback; the deltas change as the list does.\<close>

abbreviation (input) vt_key :: "virtual_timer \<Rightarrow> nat \<times> nat" where "vt_key v \<equiv> (vt_id v, vt_par v)"

definition vt_keys :: "virtual_timers_list \<Rightarrow> (nat \<times> nat) list" where "vt_keys l = map (\<lambda>v. vt_key v) (vt_timers l)"

lemma armed_keys: "chVTIsArmedI i l \<longleftrightarrow> i \<in> fst ` set (vt_keys l)"
  by (simp add: chVTIsArmedI_def vt_keys_def image_image)

lemma vt_link_keys: "\<exists>xs ys. map (\<lambda>v. vt_key v) ps = xs @ ys \<and> map (\<lambda>v. vt_key v) (vt_link v d ps) = xs @ vt_key v # ys"
proof (induction ps arbitrary: d)
  case (Cons p ps)
  show ?case
  proof (cases "vt_delta p < d")
    case True
    obtain xs ys where "map (\<lambda>v. vt_key v) ps = xs @ ys" "map (\<lambda>v. vt_key v) (vt_link v (d - vt_delta p) ps) = xs @ vt_key v # ys"
      using Cons.IH by blast
    then show ?thesis using True by (intro exI [of _ "vt_key p # xs"] exI [of _ ys]) simp
  next
    case False
    then show ?thesis by (intro exI [of _ "[]"] exI [of _ "map (\<lambda>v. vt_key v) (p # ps)"]) simp
  qed
qed simp

lemma set_keys: "\<exists>xs ys. vt_keys l = xs @ ys \<and> vt_keys (chVTDoSetI now v delay l) = xs @ vt_key v # ys"
proof (cases "vt_timers l")
  case Nil
  then show ?thesis by (simp add: vt_keys_def chVTDoSetI_def)
next
  case (Cons p ps)
  have "\<exists>xs ys. vt_keys l = xs @ ys \<and> map (\<lambda>v. vt_key v) (p # vt_link v d ps) = xs @ vt_key v # ys" for d
  proof -
    obtain xs ys where "map (\<lambda>v. vt_key v) ps = xs @ ys" "map (\<lambda>v. vt_key v) (vt_link v d ps) = xs @ vt_key v # ys"
      using vt_link_keys by blast
    then show ?thesis using Cons by (intro exI [of _ "vt_key p # xs"] exI [of _ ys]) (simp add: vt_keys_def)
  qed
  then show ?thesis using Cons vt_link_keys [of "p # ps" v]
    by (simp add: vt_keys_def chVTDoSetI_def Let_def del: vt_link.simps)
qed

lemma vt_unlink_keys: "distinct (map vt_id vs) \<Longrightarrow> map (\<lambda>v. vt_key v) (vt_unlink i vs) = filter (\<lambda>x. fst x \<noteq> i) (map (\<lambda>v. vt_key v) vs)"
proof (induction vs)
  case (Cons v vs)
  show ?case
  proof (cases "vt_id v = i")
    case True
    then have "filter (\<lambda>x. fst x \<noteq> i) (map (\<lambda>v. vt_key v) vs) = map (\<lambda>v. vt_key v) vs" using Cons.prems by (intro filter_True) force
    then show ?thesis using True by (cases vs) simp_all
  qed (use Cons in simp)
qed simp

lemma reset_keys: "distinct (map fst (vt_keys l)) \<Longrightarrow> vt_keys (chVTDoResetI now i l) = filter (\<lambda>x. fst x \<noteq> i) (vt_keys l)"
  by (simp add: vt_keys_def reset_timers vt_unlink_keys comp_def)

lemma tick_loop_splits: "tick_loop clk quiet_cb i l = Some (now, l') \<Longrightarrow>
    \<exists>n. vt_timers l' = drop n (vt_timers l) \<and> vt_fired l' = vt_fired l @ take n (vt_timers l)"
proof (induction "length (vt_timers l)" arbitrary: l i)
  case 0
  then show ?case by (subst (asm) tick_loop.simps) (auto split: if_splits)
next
  case (Suc m)
  then obtain v vs where v: "vt_timers l = v # vs" by (metis length_Suc_conv)
  let ?l = "l\<lparr>vt_lasttime := vt_lasttime l + vt_delta v, vt_timers := vs,
              vt_alarm := (if vs = [] then None else vt_alarm l), vt_fired := vt_fired l @ [v]\<rparr>"
  show ?case
  proof (cases "vt_delta v \<le> clk i - vt_lasttime l")
    case True
    then have "tick_loop clk quiet_cb (Suc i) ?l = Some (now, l')"
      using Suc.prems v by (subst (asm) tick_loop.simps) (simp add: quiet_cb_def)
    from Suc.hyps(1) [OF _ this] obtain n where "vt_timers l' = drop n vs" "vt_fired l' = vt_fired l @ [v] @ take n vs"
      using Suc.hyps(2) v by auto
    then show ?thesis using v by (intro exI [of _ "Suc n"]) simp
  next
    case False
    then show ?thesis using Suc.prems v by (subst (asm) tick_loop.simps) (auto intro: exI [of _ 0])
  qed
qed

lemma tick_splits:
  assumes "chVTDoTickI clk quiet_cb l = Some l'"
  shows "\<exists>n. vt_timers l' = drop n (vt_timers l) \<and> vt_fired l' = vt_fired l @ take n (vt_timers l)"
proof -
  obtain now l1 where l1: "tick_loop clk quiet_cb 0 l = Some (now, l1)" "vt_timers l' = vt_timers l1" "vt_fired l' = vt_fired l1"
    using assms by (cases "tick_loop clk quiet_cb 0 l") (auto simp: chVTDoTickI_def Let_def split: list.split_asm)
  then show ?thesis using tick_loop_splits [OF l1(1)] by simp
qed

end
