(* ===== verification/Sched.thy ===== *)
theory Sched
  imports Vt
begin

text \<open>
  The scheduler, \<^verbatim>\<open>os/rt/src/chschd.c\<close>, and the thread operations of \<^verbatim>\<open>os/rt/src/chthreads.c\<close> that block
  and wake threads.  Threads, semaphores, thread queues and thread references are numbered.  The
  doubly linked queues are lists of thread numbers, first element first.  The state of a blocked
  thread carries the object it waits on, which the code keeps in the union \<^verbatim>\<open>p_u\<close>.

  An operation that blocks is modelled up to the context switch: the result is the state in
  which the next thread runs.  What the blocked call returns is the \<open>rdymsg\<close> of the thread when it
  runs again.  \<open>None\<close> is a switch with an empty ready list, which the idle thread prevents.
\<close>

datatype tstate = CH_STATE_READY | CH_STATE_CURRENT | CH_STATE_WTSTART | CH_STATE_SUSPENDED nat
  | CH_STATE_QUEUED nat | CH_STATE_WTSEM nat | CH_STATE_SLEEPING | CH_STATE_WTEXIT nat
  | CH_STATE_WTOREVT u32 | CH_STATE_WTANDEVT u32 | CH_STATE_SNDMSGQ nat | CH_STATE_SNDMSG | CH_STATE_WTMSG
  | CH_STATE_WTMTX nat | CH_STATE_WTCOND nat | CH_STATE_FINAL

record thread =
  p_prio :: nat
  p_realprio :: nat
  p_state :: tstate
  rdymsg :: msg_t
  p_epending :: u32
  p_waiting :: "nat list"
  p_terminate :: bool
  p_msgqueue :: "nat list"
  p_msg :: msg_t
  p_mtxlist :: "nat option"

record semaphore =
  s_queue :: "nat list"
  s_cnt :: int

record mutex =
  m_queue :: "nat list"
  m_owner :: "nat option"
  m_next :: "nat option"

record kernel =
  threads :: "nat \<Rightarrow> thread"
  r_queue :: "nat list"
  currp :: nat
  vtlist :: virtual_timers_list
  trefs :: "nat \<Rightarrow> nat option"
  tqueues :: "nat \<Rightarrow> nat list"
  sems :: "nat \<Rightarrow> semaphore"
  mtxs :: "nat \<Rightarrow> mutex"
  conds :: "nat \<Rightarrow> nat list"

abbreviation (input) NOPRIO :: nat where "NOPRIO \<equiv> 0"
abbreviation (input) IDLEPRIO :: nat where "IDLEPRIO \<equiv> 1"

definition prio_of :: "'a kernel_scheme \<Rightarrow> nat \<Rightarrow> nat" where "prio_of k t = p_prio (threads k t)"

definition upd_thread :: "nat \<Rightarrow> (thread \<Rightarrow> thread) \<Rightarrow> 'a kernel_scheme \<Rightarrow> 'a kernel_scheme" where
  "upd_thread t f k = k\<lparr>threads := (threads k)(t := f (threads k t))\<rparr>"

definition set_state :: "nat \<Rightarrow> tstate \<Rightarrow> 'a kernel_scheme \<Rightarrow> 'a kernel_scheme" where
  "set_state t st = upd_thread t (\<lambda>th. th\<lparr>p_state := st\<rparr>)"

definition set_msg :: "nat \<Rightarrow> msg_t \<Rightarrow> 'a kernel_scheme \<Rightarrow> 'a kernel_scheme" where
  "set_msg t m = upd_thread t (\<lambda>th. th\<lparr>rdymsg := m\<rparr>)"

section \<open>Queue operations\<close>

text \<open>Insertion by priority, behind the threads of equal priority or ahead of them.\<close>

fun prio_insert :: "(nat \<Rightarrow> nat) \<Rightarrow> nat \<Rightarrow> nat list \<Rightarrow> nat list" where
  "prio_insert pr t [] = [t]"
| "prio_insert pr t (c # cs) = (if pr c \<ge> pr t then c # prio_insert pr t cs else t # c # cs)"

fun prio_insert_ahead :: "(nat \<Rightarrow> nat) \<Rightarrow> nat \<Rightarrow> nat list \<Rightarrow> nat list" where
  "prio_insert_ahead pr t [] = [t]"
| "prio_insert_ahead pr t (c # cs) = (if pr c > pr t then c # prio_insert_ahead pr t cs else t # c # cs)"

definition queue_insert :: "nat \<Rightarrow> nat list \<Rightarrow> nat list" where "queue_insert t q = q @ [t]"
definition queue_fifo_remove :: "nat list \<Rightarrow> (nat \<times> nat list) option" where
  "queue_fifo_remove q = (case q of [] \<Rightarrow> None | t # ts \<Rightarrow> Some (t, ts))"
definition queue_lifo_remove :: "nat list \<Rightarrow> (nat \<times> nat list) option" where
  "queue_lifo_remove q = (if q = [] then None else Some (last q, butlast q))"
definition queue_dequeue :: "nat \<Rightarrow> nat list \<Rightarrow> nat list" where "queue_dequeue t q = remove1 t q"

section \<open>Scheduler\<close>

definition chSchReadyI :: "nat \<Rightarrow> 'a kernel_scheme \<Rightarrow> 'a kernel_scheme" where
  "chSchReadyI t k = (set_state t CH_STATE_READY k)\<lparr>r_queue := prio_insert (prio_of k) t (r_queue k)\<rparr>"

definition chSchGoSleepS :: "tstate \<Rightarrow> 'a kernel_scheme \<Rightarrow> 'a kernel_scheme option" where
  "chSchGoSleepS newstate k =
     do {
       let k = set_state (currp k) newstate k;
       (t, q) \<leftarrow> queue_fifo_remove (r_queue k);
       Some (set_state t CH_STATE_CURRENT (k\<lparr>r_queue := q, currp := t\<rparr>))
     }"

definition chSemFastSignalI :: "nat \<Rightarrow> 'a kernel_scheme \<Rightarrow> 'a kernel_scheme" where
  "chSemFastSignalI s k = k\<lparr>sems := (sems k)(s := (sems k s)\<lparr>s_cnt := s_cnt (sems k s) + 1\<rparr>)\<rparr>"

text \<open>The timer callback that ends a wait.\<close>

definition wakeup :: "nat \<Rightarrow> 'a kernel_scheme \<Rightarrow> 'a kernel_scheme" where
  "wakeup t k =
     (if p_state (threads k t) = CH_STATE_READY then k
      else
        let k = (case p_state (threads k t) of
              CH_STATE_SUSPENDED r \<Rightarrow> k\<lparr>trefs := (trefs k)(r := None)\<rparr>
            | CH_STATE_WTSEM s \<Rightarrow>
                (let k = chSemFastSignalI s k
                 in k\<lparr>sems := (sems k)(s := (sems k s)\<lparr>s_queue := queue_dequeue t (s_queue (sems k s))\<rparr>)\<rparr>)
            | CH_STATE_WTCOND c \<Rightarrow> k\<lparr>conds := (conds k)(c := queue_dequeue t (conds k c))\<rparr>
            | CH_STATE_QUEUED q \<Rightarrow> k\<lparr>tqueues := (tqueues k)(q := queue_dequeue t (tqueues k q))\<rparr>
            | _ \<Rightarrow> k)
        in chSchReadyI t (set_msg t MSG_TIMEOUT k))"

definition sleep_timer :: "nat \<Rightarrow> virtual_timer" where
  "sleep_timer t = \<lparr>vt_id = t, vt_delta = 0, vt_func = 0, vt_par = t\<rparr>"

text \<open>The timer of a sleeping thread lives on its stack: one per thread, numbered like it.\<close>

definition chSchGoSleepTimeoutS :: "systime_t \<Rightarrow> tstate \<Rightarrow> systime_t \<Rightarrow> 'a kernel_scheme \<Rightarrow> 'a kernel_scheme option" where
  "chSchGoSleepTimeoutS now newstate time k =
     (if time \<noteq> TIME_INFINITE
      then chSchGoSleepS newstate (k\<lparr>vtlist := chVTDoSetI now (sleep_timer (currp k)) time (vtlist k)\<rparr>)
      else chSchGoSleepS newstate k)"

text \<open>The rest of the call, run when the thread \<open>currp\<close> is resumed, and its result.\<close>

definition sleep_resumed :: "systime_t \<Rightarrow> systime_t \<Rightarrow> 'a kernel_scheme \<Rightarrow> msg_t \<times> 'a kernel_scheme" where
  "sleep_resumed now time k =
     (rdymsg (threads k (currp k)),
      if time \<noteq> TIME_INFINITE \<and> chVTIsArmedI (currp k) (vtlist k)
      then k\<lparr>vtlist := chVTDoResetI now (currp k) (vtlist k)\<rparr> else k)"

definition chSchWakeupS :: "nat \<Rightarrow> msg_t \<Rightarrow> 'a kernel_scheme \<Rightarrow> 'a kernel_scheme" where
  "chSchWakeupS ntp msg k0 =
     (let k = set_msg ntp msg k0
      in if prio_of k ntp \<le> prio_of k (currp k) then chSchReadyI ntp k
         else set_state ntp CH_STATE_CURRENT ((chSchReadyI (currp k) k)\<lparr>currp := ntp\<rparr>))"

text \<open>The header of the ready list has the priority 0.\<close>

definition firstprio :: "'a kernel_scheme \<Rightarrow> nat" where
  "firstprio k = (case r_queue k of [] \<Rightarrow> NOPRIO | t # _ \<Rightarrow> prio_of k t)"

definition chSchIsRescRequiredI :: "'a kernel_scheme \<Rightarrow> bool" where
  "chSchIsRescRequiredI k \<longleftrightarrow> firstprio k > prio_of k (currp k)"

definition chSchCanYieldS :: "'a kernel_scheme \<Rightarrow> bool" where
  "chSchCanYieldS k \<longleftrightarrow> firstprio k \<ge> prio_of k (currp k)"

definition chSchIsPreemptionRequired :: "'a kernel_scheme \<Rightarrow> bool" where
  "chSchIsPreemptionRequired k \<longleftrightarrow> firstprio k > prio_of k (currp k)"

definition chSchDoRescheduleBehind :: "'a kernel_scheme \<Rightarrow> 'a kernel_scheme option" where
  "chSchDoRescheduleBehind k =
     do {
       let otp = currp k;
       (t, q) \<leftarrow> queue_fifo_remove (r_queue k);
       Some (chSchReadyI otp (set_state t CH_STATE_CURRENT (k\<lparr>r_queue := q, currp := t\<rparr>)))
     }"

definition chSchDoRescheduleAhead :: "'a kernel_scheme \<Rightarrow> 'a kernel_scheme option" where
  "chSchDoRescheduleAhead k =
     do {
       let otp = currp k;
       (t, q) \<leftarrow> queue_fifo_remove (r_queue k);
       let k = set_state t CH_STATE_CURRENT (k\<lparr>r_queue := q, currp := t\<rparr>);
       let k = set_state otp CH_STATE_READY k;
       Some (k\<lparr>r_queue := prio_insert_ahead (prio_of k) otp (r_queue k)\<rparr>)
     }"

definition chSchDoReschedule :: "'a kernel_scheme \<Rightarrow> 'a kernel_scheme option" where
  "chSchDoReschedule = chSchDoRescheduleAhead"

definition chSchRescheduleS :: "'a kernel_scheme \<Rightarrow> 'a kernel_scheme option" where
  "chSchRescheduleS k = (if chSchIsRescRequiredI k then chSchDoRescheduleAhead k else Some k)"

definition chSchDoYieldS :: "'a kernel_scheme \<Rightarrow> 'a kernel_scheme option" where
  "chSchDoYieldS k = (if chSchCanYieldS k then chSchDoRescheduleBehind k else Some k)"

definition chSchPreemption :: "'a kernel_scheme \<Rightarrow> 'a kernel_scheme option" where
  "chSchPreemption k = (if chSchIsPreemptionRequired k then chSchDoRescheduleAhead k else Some k)"

section \<open>Threads\<close>

definition thread_init :: "nat \<Rightarrow> thread \<Rightarrow> thread" where
  "thread_init prio th = th\<lparr>p_prio := prio, p_state := CH_STATE_WTSTART, p_realprio := prio, p_epending := 0,
     p_waiting := [], p_terminate := False, p_msgqueue := [], p_mtxlist := None\<rparr>"

definition chThdCreateI :: "nat \<Rightarrow> nat \<Rightarrow> 'a kernel_scheme \<Rightarrow> 'a kernel_scheme" where
  "chThdCreateI t prio = upd_thread t (thread_init prio)"

definition chThdCreateStatic :: "nat \<Rightarrow> nat \<Rightarrow> 'a kernel_scheme \<Rightarrow> 'a kernel_scheme" where
  "chThdCreateStatic t prio k = chSchWakeupS t MSG_OK (chThdCreateI t prio k)"

definition chThdTerminate :: "nat \<Rightarrow> 'a kernel_scheme \<Rightarrow> 'a kernel_scheme" where
  "chThdTerminate t = upd_thread t (\<lambda>th. th\<lparr>p_terminate := True\<rparr>)"

definition chThdSetPriority :: "nat \<Rightarrow> 'a kernel_scheme \<Rightarrow> 'a kernel_scheme option" where
  "chThdSetPriority newprio k =
     chSchRescheduleS (upd_thread (currp k)
       (\<lambda>th. (if p_prio th = p_realprio th \<or> newprio > p_prio th then th\<lparr>p_prio := newprio\<rparr> else th)\<lparr>p_realprio := newprio\<rparr>) k)"

definition chThdSleepS :: "systime_t \<Rightarrow> systime_t \<Rightarrow> 'a kernel_scheme \<Rightarrow> 'a kernel_scheme option" where
  "chThdSleepS now time = chSchGoSleepTimeoutS now CH_STATE_SLEEPING time"

definition chThdSleep :: "systime_t \<Rightarrow> systime_t \<Rightarrow> 'a kernel_scheme \<Rightarrow> 'a kernel_scheme option" where
  "chThdSleep = chThdSleepS"

text \<open>\<open>now1\<close> is the reading the call itself makes, \<open>now2\<close> the one of the timer.\<close>

definition chThdSleepUntil :: "systime_t \<Rightarrow> systime_t \<Rightarrow> systime_t \<Rightarrow> 'a kernel_scheme \<Rightarrow> 'a kernel_scheme option" where
  "chThdSleepUntil now1 now2 time k = (if time - now1 > 0 then chThdSleepS now2 (time - now1) k else Some k)"

definition chThdSleepUntilWindowed :: "systime_t \<Rightarrow> systime_t \<Rightarrow> systime_t \<Rightarrow> systime_t \<Rightarrow> 'a kernel_scheme \<Rightarrow> 'a kernel_scheme option" where
  "chThdSleepUntilWindowed now1 now2 prev nxt k =
     (if chVTIsTimeWithinX now1 prev nxt then chThdSleepS now2 (nxt - now1) k else Some k)"

definition chThdYield :: "'a kernel_scheme \<Rightarrow> 'a kernel_scheme option" where "chThdYield = chSchDoYieldS"

definition chThdExitS :: "msg_t \<Rightarrow> 'a kernel_scheme \<Rightarrow> 'a kernel_scheme option" where
  "chThdExitS msg k0 =
     (let tp = currp k0;
          k = set_msg tp msg k0;
          k = fold chSchReadyI (p_waiting (threads k tp)) (upd_thread tp (\<lambda>th. th\<lparr>p_waiting := []\<rparr>) k)
      in chSchGoSleepS CH_STATE_FINAL k)"

definition chThdWait :: "nat \<Rightarrow> 'a kernel_scheme \<Rightarrow> 'a kernel_scheme option" where
  "chThdWait t k =
     (if p_state (threads k t) \<noteq> CH_STATE_FINAL
      then chSchGoSleepS (CH_STATE_WTEXIT t) (upd_thread t (\<lambda>th. th\<lparr>p_waiting := currp k # p_waiting th\<rparr>) k)
      else Some k)"

definition chThdSuspendS :: "nat \<Rightarrow> 'a kernel_scheme \<Rightarrow> 'a kernel_scheme option" where
  "chThdSuspendS r k = chSchGoSleepS (CH_STATE_SUSPENDED r) (k\<lparr>trefs := (trefs k)(r := Some (currp k))\<rparr>)"

definition chThdSuspendTimeoutS :: "systime_t \<Rightarrow> nat \<Rightarrow> systime_t \<Rightarrow> 'a kernel_scheme \<Rightarrow> (msg_t option \<times> 'a kernel_scheme) option" where
  "chThdSuspendTimeoutS now r timeout k =
     (if timeout = TIME_IMMEDIATE then Some (Some MSG_TIMEOUT, k)
      else do {
        k \<leftarrow> chSchGoSleepTimeoutS now (CH_STATE_SUSPENDED r) timeout (k\<lparr>trefs := (trefs k)(r := Some (currp k))\<rparr>);
        Some (None, k)
      })"

definition chThdResumeI :: "nat \<Rightarrow> msg_t \<Rightarrow> 'a kernel_scheme \<Rightarrow> 'a kernel_scheme" where
  "chThdResumeI r msg k =
     (case trefs k r of None \<Rightarrow> k
      | Some t \<Rightarrow> chSchReadyI t (set_msg t msg (k\<lparr>trefs := (trefs k)(r := None)\<rparr>)))"

definition chThdResumeS :: "nat \<Rightarrow> msg_t \<Rightarrow> 'a kernel_scheme \<Rightarrow> 'a kernel_scheme" where
  "chThdResumeS r msg k =
     (case trefs k r of None \<Rightarrow> k
      | Some t \<Rightarrow> chSchWakeupS t msg (k\<lparr>trefs := (trefs k)(r := None)\<rparr>))"

definition chThdResume :: "nat \<Rightarrow> msg_t \<Rightarrow> 'a kernel_scheme \<Rightarrow> 'a kernel_scheme" where "chThdResume = chThdResumeS"

definition chThdEnqueueTimeoutS :: "systime_t \<Rightarrow> nat \<Rightarrow> systime_t \<Rightarrow> 'a kernel_scheme \<Rightarrow> (msg_t option \<times> 'a kernel_scheme) option" where
  "chThdEnqueueTimeoutS now q timeout k =
     (if timeout = TIME_IMMEDIATE then Some (Some MSG_TIMEOUT, k)
      else do {
        k \<leftarrow> chSchGoSleepTimeoutS now (CH_STATE_QUEUED q) timeout
              (k\<lparr>tqueues := (tqueues k)(q := queue_insert (currp k) (tqueues k q))\<rparr>);
        Some (None, k)
      })"

text \<open>\<open>None\<close>: the queue is empty and its header would be taken for a thread.\<close>

definition chThdDoDequeueNextI :: "nat \<Rightarrow> msg_t \<Rightarrow> 'a kernel_scheme \<Rightarrow> 'a kernel_scheme option" where
  "chThdDoDequeueNextI q msg k =
     do {
       (t, ts) \<leftarrow> queue_fifo_remove (tqueues k q);
       Some (chSchReadyI t (set_msg t msg (k\<lparr>tqueues := (tqueues k)(q := ts)\<rparr>)))
     }"

definition tq_dequeue_next :: "nat \<Rightarrow> msg_t \<Rightarrow> 'a kernel_scheme \<Rightarrow> 'a kernel_scheme option" where
  "tq_dequeue_next q msg k = (if tqueues k q \<noteq> [] then chThdDoDequeueNextI q msg k else Some k)"

function tq_dequeue_all :: "nat \<Rightarrow> msg_t \<Rightarrow> 'a kernel_scheme \<Rightarrow> 'a kernel_scheme option" where
  "tq_dequeue_all q msg k =
     (if tqueues k q \<noteq> [] then do { k \<leftarrow> chThdDoDequeueNextI q msg k; tq_dequeue_all q msg k } else Some k)"
  by pat_completeness auto
termination
  by (relation "measure (\<lambda>(q, msg, k). length (tqueues k q))")
    (auto simp: chThdDoDequeueNextI_def queue_fifo_remove_def chSchReadyI_def set_state_def set_msg_def upd_thread_def split: list.splits)

declare tq_dequeue_all.simps [simp del]

definition chThdStartI :: "nat \<Rightarrow> 'a kernel_scheme \<Rightarrow> 'a kernel_scheme" where "chThdStartI t k = chSchReadyI t k"
definition chThdStart :: "nat \<Rightarrow> 'a kernel_scheme \<Rightarrow> 'a kernel_scheme" where "chThdStart = chThdStartI"
definition chThdExit :: "msg_t \<Rightarrow> 'a kernel_scheme \<Rightarrow> 'a kernel_scheme option" where "chThdExit = chThdExitS"
definition chThdGetPriorityX :: "'a kernel_scheme \<Rightarrow> nat" where "chThdGetPriorityX k = p_prio (threads k (currp k))"
definition chThdTerminatedX :: "nat \<Rightarrow> 'a kernel_scheme \<Rightarrow> bool" where
  "chThdTerminatedX t k \<longleftrightarrow> p_state (threads k t) = CH_STATE_FINAL"
definition chThdShouldTerminateX :: "'a kernel_scheme \<Rightarrow> bool" where
  "chThdShouldTerminateX k \<longleftrightarrow> p_terminate (threads k (currp k))"
definition chThdQueueObjectInit :: "nat \<Rightarrow> 'a kernel_scheme \<Rightarrow> 'a kernel_scheme" where
  "chThdQueueObjectInit q k = k\<lparr>tqueues := (tqueues k)(q := [])\<rparr>"
definition chThdQueueIsEmptyI :: "nat \<Rightarrow> 'a kernel_scheme \<Rightarrow> bool" where "chThdQueueIsEmptyI q k \<longleftrightarrow> tqueues k q = []"

section \<open>The system tick\<close>

text \<open>The expired timers run their callback, \<open>wakeup\<close>, in the order in which the tick fires them.\<close>

definition kernel_tick :: "(nat \<Rightarrow> systime_t) \<Rightarrow> 'a kernel_scheme \<Rightarrow> 'a kernel_scheme option" where
  "kernel_tick clk k =
     do {
       l \<leftarrow> chVTDoTickI clk quiet_cb (vtlist k);
       Some (fold (\<lambda>v. wakeup (vt_par v)) (drop (length (vt_fired (vtlist k))) (vt_fired l)) (k\<lparr>vtlist := l\<rparr>))
     }"

section \<open>The invariant\<close>

text \<open>
  Where a thread in a given state is linked.  The states not listed are linked nowhere.
\<close>

definition state_of :: "'a kernel_scheme \<Rightarrow> nat \<Rightarrow> tstate" where "state_of k t = p_state (threads k t)"
definition waiters :: "'a kernel_scheme \<Rightarrow> nat \<Rightarrow> nat list" where "waiters k u = p_waiting (threads k u)"
definition msgq :: "'a kernel_scheme \<Rightarrow> nat \<Rightarrow> nat list" where "msgq k u = p_msgqueue (threads k u)"

fun queued :: "'a kernel_scheme \<Rightarrow> nat \<Rightarrow> tstate \<Rightarrow> bool" where
  "queued k t CH_STATE_READY = (t \<in> set (r_queue k))"
| "queued k t (CH_STATE_SUSPENDED r) = (trefs k r = Some t)"
| "queued k t (CH_STATE_QUEUED q) = (t \<in> set (tqueues k q))"
| "queued k t (CH_STATE_WTSEM s) = (t \<in> set (s_queue (sems k s)))"
| "queued k t (CH_STATE_WTEXIT u) = (t \<in> set (waiters k u))"
| "queued k t (CH_STATE_SNDMSGQ u) = (t \<in> set (msgq k u))"
| "queued k t (CH_STATE_WTMTX m) = (t \<in> set (m_queue (mtxs k m)))"
| "queued k t (CH_STATE_WTCOND c) = (t \<in> set (conds k c))"
| "queued k t _ = False"

fun is_link :: "tstate \<Rightarrow> bool" where
  "is_link CH_STATE_READY = True"
| "is_link (CH_STATE_SUSPENDED r) = True"
| "is_link (CH_STATE_QUEUED q) = True"
| "is_link (CH_STATE_WTSEM s) = True"
| "is_link (CH_STATE_WTEXIT u) = True"
| "is_link (CH_STATE_SNDMSGQ u) = True"
| "is_link (CH_STATE_WTMTX m) = True"
| "is_link (CH_STATE_WTCOND c) = True"
| "is_link _ = False"

text \<open>
  Every thread outside \<open>X\<close> is linked exactly where its state says; the threads of \<open>X\<close> are linked
  nowhere.  The ready list is ordered by priority.
\<close>

definition link_ok :: "nat set \<Rightarrow> 'a kernel_scheme \<Rightarrow> bool" where
  "link_ok X k \<longleftrightarrow> (\<forall>t st. queued k t st \<longleftrightarrow> is_link st \<and> state_of k t = st \<and> t \<notin> X) \<and>
     distinct (r_queue k) \<and> (\<forall>q. distinct (tqueues k q)) \<and> (\<forall>s. distinct (s_queue (sems k s))) \<and>
     (\<forall>u. distinct (waiters k u)) \<and> (\<forall>u. distinct (msgq k u)) \<and> (\<forall>m. distinct (m_queue (mtxs k m))) \<and> (\<forall>c. distinct (conds k c)) \<and>
     sorted_wrt (\<lambda>a b. prio_of k a \<ge> prio_of k b) (r_queue k)"

definition cur_ok :: "'a kernel_scheme \<Rightarrow> bool" where
  "cur_ok k \<longleftrightarrow> (\<forall>t. state_of k t = CH_STATE_CURRENT \<longleftrightarrow> t = currp k)"

text \<open>The running thread has the highest priority of all that could run.\<close>

definition highest :: "'a kernel_scheme \<Rightarrow> bool" where
  "highest k \<longleftrightarrow> (\<forall>t \<in> set (r_queue k). prio_of k t \<le> prio_of k (currp k))"

lemma link_queued: "link_ok X k \<Longrightarrow> queued k t st \<longleftrightarrow> is_link st \<and> state_of k t = st \<and> t \<notin> X"
  by (simp add: link_ok_def)

lemma link_ready: "link_ok X k \<Longrightarrow> t \<in> set (r_queue k) \<longleftrightarrow> state_of k t = CH_STATE_READY \<and> t \<notin> X"
  using link_queued [of X k t CH_STATE_READY] by simp

lemma upd_thread_simps [simp]:
  "threads (upd_thread t f k) = (threads k)(t := f (threads k t))" "r_queue (upd_thread t f k) = r_queue k"
  "currp (upd_thread t f k) = currp k" "vtlist (upd_thread t f k) = vtlist k" "trefs (upd_thread t f k) = trefs k"
  "tqueues (upd_thread t f k) = tqueues k" "sems (upd_thread t f k) = sems k" "mtxs (upd_thread t f k) = mtxs k" "conds (upd_thread t f k) = conds k"
  by (simp_all add: upd_thread_def)

lemma set_simps [simp]:
  "threads (set_state t st k) = (threads k)(t := (threads k t)\<lparr>p_state := st\<rparr>)"
  "threads (set_msg t m k) = (threads k)(t := (threads k t)\<lparr>rdymsg := m\<rparr>)"
  "r_queue (set_state t st k) = r_queue k" "currp (set_state t st k) = currp k" "vtlist (set_state t st k) = vtlist k"
  "trefs (set_state t st k) = trefs k" "tqueues (set_state t st k) = tqueues k" "sems (set_state t st k) = sems k"
  "r_queue (set_msg t m k) = r_queue k" "currp (set_msg t m k) = currp k" "vtlist (set_msg t m k) = vtlist k"
  "trefs (set_msg t m k) = trefs k" "tqueues (set_msg t m k) = tqueues k" "sems (set_msg t m k) = sems k"
  "mtxs (set_state t st k) = mtxs k" "conds (set_state t st k) = conds k" "mtxs (set_msg t m k) = mtxs k" "conds (set_msg t m k) = conds k"
  "prio_of (set_state t st k) = prio_of k" "prio_of (set_msg t m k) = prio_of k"
  by (auto simp: set_state_def set_msg_def prio_of_def fun_eq_iff)

lemma prio_of_upd [simp]:
  "prio_of (k\<lparr>r_queue := q\<rparr>) = prio_of k" "prio_of (k\<lparr>currp := c\<rparr>) = prio_of k" "prio_of (k\<lparr>sems := s\<rparr>) = prio_of k"
  "prio_of (k\<lparr>tqueues := tq\<rparr>) = prio_of k" "prio_of (k\<lparr>trefs := tr\<rparr>) = prio_of k" "prio_of (k\<lparr>vtlist := vl\<rparr>) = prio_of k"
  "prio_of (k\<lparr>mtxs := ms\<rparr>) = prio_of k" "prio_of (k\<lparr>conds := cs\<rparr>) = prio_of k"
  by (auto simp: prio_of_def fun_eq_iff)

lemma set_prio_insert [simp]:
  "set (prio_insert pr t q) = insert t (set q)" "set (prio_insert_ahead pr t q) = insert t (set q)"
  by (induction q) auto

lemma distinct_prio_insert [simp]:
  "distinct (prio_insert pr t q) \<longleftrightarrow> t \<notin> set q \<and> distinct q" "distinct (prio_insert_ahead pr t q) \<longleftrightarrow> t \<notin> set q \<and> distinct q"
  by (induction q) auto

lemma sorted_prio_insert:
  assumes "sorted_wrt (\<lambda>a b. pr a \<ge> (pr b :: nat)) q"
  shows "sorted_wrt (\<lambda>a b. pr a \<ge> pr b) (prio_insert pr t q)" "sorted_wrt (\<lambda>a b. pr a \<ge> pr b) (prio_insert_ahead pr t q)"
  using assms by (induction q) auto

lemma state_of_upd [simp]:
  "state_of (set_state t st k) = (state_of k)(t := st)" "state_of (set_msg t m k) = state_of k"
  "state_of (k\<lparr>r_queue := q\<rparr>) = state_of k" "state_of (k\<lparr>currp := c\<rparr>) = state_of k" "state_of (k\<lparr>sems := s\<rparr>) = state_of k"
  "state_of (k\<lparr>tqueues := tq\<rparr>) = state_of k" "state_of (k\<lparr>trefs := tr\<rparr>) = state_of k" "state_of (k\<lparr>vtlist := vl\<rparr>) = state_of k"
  "state_of (k\<lparr>mtxs := ms\<rparr>) = state_of k" "state_of (k\<lparr>conds := cs\<rparr>) = state_of k"
  by (auto simp: state_of_def fun_eq_iff)

lemma waiters_upd [simp]:
  "waiters (set_state t st k) = waiters k" "waiters (set_msg t m k) = waiters k"
  "waiters (k\<lparr>r_queue := q\<rparr>) = waiters k" "waiters (k\<lparr>currp := c\<rparr>) = waiters k" "waiters (k\<lparr>sems := s\<rparr>) = waiters k"
  "waiters (k\<lparr>tqueues := tq\<rparr>) = waiters k" "waiters (k\<lparr>trefs := tr\<rparr>) = waiters k" "waiters (k\<lparr>vtlist := vl\<rparr>) = waiters k"
  "waiters (k\<lparr>mtxs := ms\<rparr>) = waiters k" "waiters (k\<lparr>conds := cs\<rparr>) = waiters k"
  by (auto simp: waiters_def fun_eq_iff)

lemma msgq_upd [simp]:
  "msgq (set_state t st k) = msgq k" "msgq (set_msg t m k) = msgq k"
  "msgq (k\<lparr>r_queue := q\<rparr>) = msgq k" "msgq (k\<lparr>currp := c\<rparr>) = msgq k" "msgq (k\<lparr>sems := s\<rparr>) = msgq k"
  "msgq (k\<lparr>tqueues := tq\<rparr>) = msgq k" "msgq (k\<lparr>trefs := tr\<rparr>) = msgq k" "msgq (k\<lparr>vtlist := vl\<rparr>) = msgq k"
  "msgq (k\<lparr>mtxs := ms\<rparr>) = msgq k" "msgq (k\<lparr>conds := cs\<rparr>) = msgq k"
  by (auto simp: msgq_def fun_eq_iff)

lemma queued_state_msg [simp]:
  "queued (set_state t st k) u s = queued k u s" "queued (set_msg t m k) u s = queued k u s"
  by (cases s; simp)+

lemma queued_upd [simp]:
  "queued (k\<lparr>r_queue := q\<rparr>) u st = (if st = CH_STATE_READY then u \<in> set q else queued k u st)"
  "queued (k\<lparr>currp := c\<rparr>) u st = queued k u st" "queued (k\<lparr>vtlist := l\<rparr>) u st = queued k u st"
  by (cases st; simp)+

lemma ready_simps [simp]:
  "currp (chSchReadyI t k) = currp k" "sems (chSchReadyI t k) = sems k" "tqueues (chSchReadyI t k) = tqueues k"
  "trefs (chSchReadyI t k) = trefs k" "vtlist (chSchReadyI t k) = vtlist k" "prio_of (chSchReadyI t k) = prio_of k"
  "set (r_queue (chSchReadyI t k)) = insert t (set (r_queue k))" "waiters (chSchReadyI t k) = waiters k"
  "msgq (chSchReadyI t k) = msgq k" "mtxs (chSchReadyI t k) = mtxs k" "conds (chSchReadyI t k) = conds k"
  "state_of (chSchReadyI t k) = (state_of k)(t := CH_STATE_READY)"
  "queued (chSchReadyI t k) u st = (if st = CH_STATE_READY then u = t \<or> u \<in> set (r_queue k) else queued k u st)"
  by (simp_all add: chSchReadyI_def)

lemma link_okI:
  assumes "\<And>t st. queued k t st \<longleftrightarrow> is_link st \<and> state_of k t = st \<and> t \<notin> X" "distinct (r_queue k)" "\<And>q. distinct (tqueues k q)"
    "\<And>s. distinct (s_queue (sems k s))" "\<And>u. distinct (waiters k u)" "\<And>u. distinct (msgq k u)" "\<And>m. distinct (m_queue (mtxs k m))"
    "\<And>c. distinct (conds k c)" "sorted_wrt (\<lambda>a b. prio_of k a \<ge> prio_of k b) (r_queue k)"
  shows "link_ok X k"
  using assms by (simp add: link_ok_def)

lemma link_okD:
  assumes "link_ok X k"
  shows "distinct (r_queue k)" "distinct (tqueues k q)" "distinct (s_queue (sems k s))" "distinct (waiters k u)"
    "sorted_wrt (\<lambda>a b. prio_of k a \<ge> prio_of k b) (r_queue k)" "distinct (msgq k u)" "distinct (m_queue (mtxs k m))" "distinct (conds k c)"
  using assms by (simp_all add: link_ok_def)

lemma ready_link:
  assumes "link_ok X k" "t \<in> X"
  shows "link_ok (X - {t}) (chSchReadyI t k)"
proof (rule link_okI)
  fix u st
  show "queued (chSchReadyI t k) u st \<longleftrightarrow> is_link st \<and> state_of (chSchReadyI t k) u = st \<and> u \<notin> X - {t}"
    using link_queued [OF assms(1), of u st] link_ready [OF assms(1), of u] assms(2) by (cases "u = t"; cases "st = CH_STATE_READY") auto
next
  have "t \<notin> set (r_queue k)" using link_ready [OF assms(1)] assms(2) by simp
  then show "distinct (r_queue (chSchReadyI t k))" using link_okD(1) [OF assms(1)] by (simp add: chSchReadyI_def)
  show "sorted_wrt (\<lambda>a b. prio_of (chSchReadyI t k) a \<ge> prio_of (chSchReadyI t k) b) (r_queue (chSchReadyI t k))"
    using sorted_prio_insert(1) [OF link_okD(5) [OF assms(1)]] by (simp add: chSchReadyI_def)
qed (use link_okD [OF assms(1)] in simp_all)

lemma ready_cur: "cur_ok k \<Longrightarrow> t \<noteq> currp k \<Longrightarrow> cur_ok (chSchReadyI t k)"
  by (auto simp: cur_ok_def chSchReadyI_def)

lemma msg_link [simp]: "link_ok X (set_msg t m k) = link_ok X k"
  by (simp add: link_ok_def)

lemma msg_cur [simp]: "cur_ok (set_msg t m k) = cur_ok k"
  by (simp add: cur_ok_def)

text \<open>A thread whose state links it nowhere may be taken out of consideration.\<close>

lemma link_current: "link_ok X k \<Longrightarrow> \<not> is_link (state_of k t) \<Longrightarrow> link_ok (insert t X) k"
  unfolding link_ok_def by auto

lemma go_sleep:
  assumes "link_ok {} (set_state (currp k) st k)" "\<And>t. t \<noteq> currp k \<Longrightarrow> state_of k t \<noteq> CH_STATE_CURRENT"
    "st \<noteq> CH_STATE_CURRENT" "st \<noteq> CH_STATE_READY" "chSchGoSleepS st k = Some k'"
  shows "link_ok {} k'" "cur_ok k'" "highest k'" "sems k' = sems k" "tqueues k' = tqueues k" "trefs k' = trefs k"
    "state_of k' (currp k) = st"
proof -
  let ?k = "set_state (currp k) st k"
  obtain t ts where q: "r_queue k = t # ts" and k': "k' = set_state t CH_STATE_CURRENT (?k\<lparr>r_queue := ts, currp := t\<rparr>)"
    using assms(5) by (auto simp: chSchGoSleepS_def queue_fifo_remove_def Let_def bind_eq_Some_conv split: list.splits)
  have t: "state_of ?k t = CH_STATE_READY" using link_ready [OF assms(1), of t] q by simp
  then have tc: "t \<noteq> currp k" using assms(4) by auto
  show "link_ok {} k'"
  proof (rule link_okI)
    fix u s
    show "queued k' u s \<longleftrightarrow> is_link s \<and> state_of k' u = s \<and> u \<notin> {}"
      using link_queued [OF assms(1), of u s] link_okD(1) [OF assms(1)] q t tc unfolding k' by (cases "u = t"; cases "s = CH_STATE_READY") auto
  qed (use link_okD [OF assms(1)] q in \<open>simp_all add: k'\<close>)
  show "cur_ok k'" using assms(2,3) tc unfolding cur_ok_def k' by auto
  show "highest k'" using assms(1) q unfolding highest_def k' link_ok_def by simp
  show "sems k' = sems k" "tqueues k' = tqueues k" "trefs k' = trefs k" by (simp_all add: k')
  show "state_of k' (currp k) = st" using tc by (simp add: k')
qed

definition k_ok :: "'a kernel_scheme \<Rightarrow> bool" where "k_ok k \<longleftrightarrow> link_ok {} k \<and> cur_ok k"

lemma cur_state: "cur_ok k \<Longrightarrow> state_of k t = CH_STATE_CURRENT \<longleftrightarrow> t = currp k"
  by (simp add: cur_ok_def)

lemma cur_self: "cur_ok k \<Longrightarrow> state_of k (currp k) = CH_STATE_CURRENT"
  by (simp add: cur_ok_def)

lemma ready_ok:
  assumes "link_ok {t} k" "cur_ok k" "t \<noteq> currp k"
  shows "k_ok (chSchReadyI t k)"
  using ready_link [OF assms(1), of t] ready_cur [OF assms(2,3)] by (simp add: k_ok_def)

lemma highest_ready: "highest k \<Longrightarrow> prio_of k t \<le> prio_of k (currp k) \<Longrightarrow> highest (chSchReadyI t k)"
  by (simp add: highest_def)

text \<open>Changing \<open>currp\<close> to a thread that is linked nowhere, the old one having been made ready.\<close>

lemma switch_ok:
  assumes "link_ok {t} k" "\<And>u. state_of k u \<noteq> CH_STATE_CURRENT"
  shows "k_ok (set_state t CH_STATE_CURRENT (k\<lparr>currp := t\<rparr>))"
proof -
  have "link_ok {} (set_state t CH_STATE_CURRENT (k\<lparr>currp := t\<rparr>))"
  proof (rule link_okI)
    fix u s
    show "queued (set_state t CH_STATE_CURRENT (k\<lparr>currp := t\<rparr>)) u s \<longleftrightarrow>
        is_link s \<and> state_of (set_state t CH_STATE_CURRENT (k\<lparr>currp := t\<rparr>)) u = s \<and> u \<notin> {}"
      using link_queued [OF assms(1), of u s] by (cases "u = t"; cases s) auto
  qed (use link_okD [OF assms(1)] in simp_all)
  then show ?thesis using assms(2) by (simp add: k_ok_def cur_ok_def)
qed

lemma wakeupS_ok:
  assumes "link_ok {t} k" "cur_ok k" "t \<noteq> currp k" "highest k"
  shows "k_ok (chSchWakeupS t m k)" "highest (chSchWakeupS t m k)" "sems (chSchWakeupS t m k) = sems k"
    "tqueues (chSchWakeupS t m k) = tqueues k" "trefs (chSchWakeupS t m k) = trefs k" "waiters (chSchWakeupS t m k) = waiters k"
proof -
  let ?k = "set_msg t m k"
  have m: "link_ok {t} ?k" "cur_ok ?k" using assms(1,2) by simp_all
  have "k_ok (chSchWakeupS t m k) \<and> highest (chSchWakeupS t m k)"
  proof (cases "prio_of k t \<le> prio_of k (currp k)")
    case True
    have h: "highest ?k" using assms(4) by (simp add: highest_def)
    show ?thesis using True ready_ok [OF m] assms(3) highest_ready [OF h, of t] by (simp add: chSchWakeupS_def)
  next
    case False
    let ?c = "currp k"
    have l: "link_ok {?c, t} ?k" using link_current [OF m(1), of ?c] cur_self [OF assms(2)] by simp
    have "{?c, t} - {?c} = {t}" using assms(3) by auto
    then have l2: "link_ok {t} (chSchReadyI ?c ?k)" using ready_link [OF l, of ?c] by simp
    have nc: "state_of (chSchReadyI ?c ?k) u \<noteq> CH_STATE_CURRENT" for u using cur_state [OF assms(2), of u] by simp
    have "k_ok (set_state t CH_STATE_CURRENT ((chSchReadyI ?c ?k)\<lparr>currp := t\<rparr>))" by (rule switch_ok [OF l2 nc])
    moreover have "highest (set_state t CH_STATE_CURRENT ((chSchReadyI ?c ?k)\<lparr>currp := t\<rparr>))"
      using assms(4) False by (fastforce simp: highest_def)
    ultimately show ?thesis using False by (simp add: chSchWakeupS_def)
  qed
  then show "k_ok (chSchWakeupS t m k)" "highest (chSchWakeupS t m k)" by auto
  show "sems (chSchWakeupS t m k) = sems k" "tqueues (chSchWakeupS t m k) = tqueues k"
    "trefs (chSchWakeupS t m k) = trefs k" "waiters (chSchWakeupS t m k) = waiters k"
    by (simp_all add: chSchWakeupS_def Let_def)
qed

lemma pop_ok:
  assumes "link_ok X k" "r_queue k = t # ts"
  shows "link_ok (insert t X) (k\<lparr>r_queue := ts\<rparr>)" "t \<notin> X"
proof -
  show "t \<notin> X" using link_ready [OF assms(1), of t] assms(2) by simp
  show "link_ok (insert t X) (k\<lparr>r_queue := ts\<rparr>)"
  proof (rule link_okI)
    fix u s
    show "queued (k\<lparr>r_queue := ts\<rparr>) u s \<longleftrightarrow> is_link s \<and> state_of (k\<lparr>r_queue := ts\<rparr>) u = s \<and> u \<notin> insert t X"
      using link_queued [OF assms(1), of u s] link_ready [OF assms(1), of t] link_okD(1) [OF assms(1)] assms(2)
      by (cases "u = t"; cases s) auto
  qed (use link_okD [OF assms(1)] assms(2) in simp_all)
qed

lemma reschedule_ahead:
  assumes "k_ok k" "chSchDoRescheduleAhead k = Some k'" "firstprio k \<ge> prio_of k (currp k)"
  shows "k_ok k'" "highest k'" "sems k' = sems k" "tqueues k' = tqueues k" "trefs k' = trefs k" "waiters k' = waiters k"
proof -
  let ?c = "currp k"
  obtain t ts where q: "r_queue k = t # ts"
    and k': "k' = (set_state ?c CH_STATE_READY (set_state t CH_STATE_CURRENT (k\<lparr>r_queue := ts, currp := t\<rparr>)))
      \<lparr>r_queue := prio_insert_ahead (prio_of k) ?c ts\<rparr>"
    using assms(2)
    by (auto simp: chSchDoRescheduleAhead_def queue_fifo_remove_def Let_def bind_eq_Some_conv split: list.splits)
  have l: "link_ok {} k" "cur_ok k" using assms(1) by (simp_all add: k_ok_def)
  have t: "state_of k t = CH_STATE_READY" using link_ready [OF l(1), of t] q by simp
  have c: "state_of k ?c = CH_STATE_CURRENT" using cur_state [OF l(2)] by simp
  have tc: "t \<noteq> ?c" using t c by auto
  have cts: "?c \<notin> set ts" using link_ready [OF l(1), of ?c] q c by simp
  have "link_ok {} k'"
  proof (rule link_okI)
    fix u s
    show "queued k' u s \<longleftrightarrow> is_link s \<and> state_of k' u = s \<and> u \<notin> {}"
      using link_queued [OF l(1), of u s] link_okD(1) [OF l(1)] q t c tc unfolding k'
      by (cases "u = t"; cases "u = ?c"; cases s) auto
  next
    show "sorted_wrt (\<lambda>a b. prio_of k' a \<ge> prio_of k' b) (r_queue k')"
      using sorted_prio_insert(2) [of "prio_of k" ts ?c] link_okD(5) [OF l(1)] q by (simp add: k')
  qed (use link_okD [OF l(1)] q cts in \<open>simp_all add: k'\<close>)
  moreover have "cur_ok k'" using cur_state [OF l(2)] tc by (auto simp: cur_ok_def k')
  ultimately show "k_ok k'" by (simp add: k_ok_def)
  have "prio_of k ?c \<le> prio_of k t" using assms(3) q by (simp add: firstprio_def)
  then show "highest k'" using link_okD(5) [OF l(1)] q by (simp add: highest_def k')
  show "sems k' = sems k" "tqueues k' = tqueues k" "trefs k' = trefs k" "waiters k' = waiters k" by (simp_all add: k')
qed

lemma reschedule_ok:
  assumes "k_ok k" "chSchRescheduleS k = Some k'"
  shows "k_ok k'" "highest k'" "sems k' = sems k" "tqueues k' = tqueues k" "trefs k' = trefs k" "waiters k' = waiters k"
proof -
  have "k_ok k' \<and> highest k' \<and> sems k' = sems k \<and> tqueues k' = tqueues k \<and> trefs k' = trefs k \<and> waiters k' = waiters k"
  proof (cases "chSchIsRescRequiredI k")
    case True
    then show ?thesis using reschedule_ahead [OF assms(1), of k'] assms(2) by (simp add: chSchRescheduleS_def chSchIsRescRequiredI_def)
  next
    case False
    then have "highest k"
      using assms(1) link_okD(5) [of "{}" k]
      by (auto simp: highest_def chSchIsRescRequiredI_def firstprio_def k_ok_def not_less split: list.splits intro: order_trans)
    then show ?thesis using False assms by (simp add: chSchRescheduleS_def)
  qed
  then show "k_ok k'" "highest k'" "sems k' = sems k" "tqueues k' = tqueues k" "trefs k' = trefs k" "waiters k' = waiters k" by auto
qed

lemma reschedule_returns: "\<exists>k'. chSchRescheduleS k = Some k'"
  by (cases "r_queue k") (auto simp: chSchRescheduleS_def chSchIsRescRequiredI_def firstprio_def chSchDoRescheduleAhead_def
      queue_fifo_remove_def Let_def)

lemma yield_behind:
  assumes "k_ok k" "chSchDoRescheduleBehind k = Some k'" "firstprio k \<ge> prio_of k (currp k)"
  shows "k_ok k'" "highest k'" "sems k' = sems k"
proof -
  let ?c = "currp k"
  have l: "link_ok {} k" "cur_ok k" using assms(1) by (simp_all add: k_ok_def)
  obtain t ts where q: "r_queue k = t # ts"
    and k': "k' = chSchReadyI ?c (set_state t CH_STATE_CURRENT (k\<lparr>r_queue := ts, currp := t\<rparr>))"
    using assms(2)
    by (auto simp: chSchDoRescheduleBehind_def queue_fifo_remove_def Let_def bind_eq_Some_conv split: list.splits)
  have t: "state_of k t = CH_STATE_READY" using link_ready [OF l(1), of t] q by simp
  have c: "state_of k ?c = CH_STATE_CURRENT" by (rule cur_self [OF l(2)])
  have tc: "t \<noteq> ?c" using t c by auto
  let ?k1 = "set_state t CH_STATE_CURRENT (k\<lparr>r_queue := ts, currp := t\<rparr>)"
  have "link_ok {?c} ?k1"
  proof (rule link_okI)
    fix u s
    show "queued ?k1 u s \<longleftrightarrow> is_link s \<and> state_of ?k1 u = s \<and> u \<notin> {?c}"
      using link_queued [OF l(1), of u s] link_okD(1) [OF l(1)] q t c tc
      by (cases "u = t"; cases "u = ?c"; cases s) auto
  qed (use link_okD [OF l(1)] q in simp_all)
  from ready_link [OF this, of ?c] have "link_ok {} k'" by (simp add: k')
  moreover have "cur_ok k'" using cur_state [OF l(2)] tc by (auto simp: cur_ok_def k')
  ultimately show "k_ok k'" by (simp add: k_ok_def)
  have "prio_of k ?c \<le> prio_of k t" using assms(3) q by (simp add: firstprio_def)
  then show "highest k'" using link_okD(5) [OF l(1)] q by (simp add: highest_def k')
  show "sems k' = sems k" by (simp add: k')
qed

text \<open>Taking a thread out of the place where its state links it.\<close>

lemma unlink_ok:
  assumes "link_ok {} k" "\<And>u s. queued k' u s \<longleftrightarrow> queued k u s \<and> u \<noteq> t" "state_of k' = state_of k" "prio_of k' = prio_of k"
    "r_queue k' = r_queue k" "\<And>q. distinct (tqueues k' q)" "\<And>s. distinct (s_queue (sems k' s))" "waiters k' = waiters k"
    "msgq k' = msgq k" "mtxs k' = mtxs k" "\<And>c. distinct (conds k' c)"
  shows "link_ok {t} k'"
  by (rule link_okI) (use assms link_okD [OF assms(1)] link_queued [OF assms(1)] in \<open>auto simp: assms\<close>)

lemma unlink_sem_ok:
  assumes "link_ok {} k" "state_of k t = CH_STATE_WTSEM s"
  shows "link_ok {t} (k\<lparr>sems := (sems k)(s := sm\<lparr>s_queue := remove1 t (s_queue (sems k s))\<rparr>)\<rparr>)"
proof (rule unlink_ok [OF assms(1)])
  fix u st
  have "queued k t st \<longleftrightarrow> st = CH_STATE_WTSEM s" using link_queued [OF assms(1), of t st] assms(2) by auto
  then show "queued (k\<lparr>sems := (sems k)(s := sm\<lparr>s_queue := remove1 t (s_queue (sems k s))\<rparr>)\<rparr>) u st \<longleftrightarrow> queued k u st \<and> u \<noteq> t"
    using link_okD(3) [OF assms(1), of s] by (cases st) (auto simp: set_remove1_eq)
qed (use link_okD [OF assms(1)] in simp_all)

lemma unlink_tqueue_ok:
  assumes "link_ok {} k" "state_of k t = CH_STATE_QUEUED q"
  shows "link_ok {t} (k\<lparr>tqueues := (tqueues k)(q := remove1 t (tqueues k q))\<rparr>)"
proof (rule unlink_ok [OF assms(1)])
  fix u st
  have "queued k t st \<longleftrightarrow> st = CH_STATE_QUEUED q" using link_queued [OF assms(1), of t st] assms(2) by auto
  then show "queued (k\<lparr>tqueues := (tqueues k)(q := remove1 t (tqueues k q))\<rparr>) u st \<longleftrightarrow> queued k u st \<and> u \<noteq> t"
    using link_okD(2) [OF assms(1), of q] by (cases st) (auto simp: set_remove1_eq)
qed (use link_okD [OF assms(1)] in simp_all)

lemma unlink_ref_ok:
  assumes "link_ok {} k" "state_of k t = CH_STATE_SUSPENDED r"
  shows "link_ok {t} (k\<lparr>trefs := (trefs k)(r := None)\<rparr>)"
proof (rule unlink_ok [OF assms(1)])
  fix u st
  have t: "queued k t st \<longleftrightarrow> st = CH_STATE_SUSPENDED r" using link_queued [OF assms(1), of t st] assms(2) by auto
  have "trefs k r = Some t" using link_queued [OF assms(1), of t "CH_STATE_SUSPENDED r"] assms(2) by simp
  then show "queued (k\<lparr>trefs := (trefs k)(r := None)\<rparr>) u st \<longleftrightarrow> queued k u st \<and> u \<noteq> t"
    using t by (cases st) auto
qed (use link_okD [OF assms(1)] in simp_all)

lemma unlink_cond_ok:
  assumes "link_ok {} k" "state_of k t = CH_STATE_WTCOND c"
  shows "link_ok {t} (k\<lparr>conds := (conds k)(c := remove1 t (conds k c))\<rparr>)"
proof (rule unlink_ok [OF assms(1)])
  fix u st
  have "queued k t st \<longleftrightarrow> st = CH_STATE_WTCOND c" using link_queued [OF assms(1), of t st] assms(2) by auto
  then show "queued (k\<lparr>conds := (conds k)(c := remove1 t (conds k c))\<rparr>) u st \<longleftrightarrow> queued k u st \<and> u \<noteq> t"
    using link_okD(8) [OF assms(1), of c] by (cases st) (auto simp: set_remove1_eq)
qed (use link_okD [OF assms(1)] in simp_all)

section \<open>What an operation may do to the states of the threads\<close>

text \<open>
  Apart from the caller, which an operation may block, threads only become runnable; the timer
  list is untouched.
\<close>

definition runnable :: "tstate \<Rightarrow> bool" where
  "runnable st \<longleftrightarrow> st = CH_STATE_READY \<or> st = CH_STATE_CURRENT"

lemma runnable_simps [simp]: "runnable CH_STATE_READY" "runnable CH_STATE_CURRENT"
  by (simp_all add: runnable_def)

definition keeps :: "'a kernel_scheme \<Rightarrow> 'a kernel_scheme \<Rightarrow> bool" where
  "keeps k k' \<longleftrightarrow> vtlist k' = vtlist k \<and> (\<forall>u. state_of k' u = state_of k u \<or> runnable (state_of k' u))"

lemma keeps_refl: "keeps k k"
  by (simp add: keeps_def)

lemma keeps_trans: "keeps k k1 \<Longrightarrow> keeps k1 k2 \<Longrightarrow> keeps k k2"
  unfolding keeps_def by metis

lemma keeps_eq: "vtlist k' = vtlist k \<Longrightarrow> state_of k' = state_of k \<Longrightarrow> keeps k k'"
  by (simp add: keeps_def)

lemma keeps_ready: "keeps k (chSchReadyI t k)"
  by (simp add: keeps_def)

lemma keeps_wakeupS: "keeps k (chSchWakeupS t m k)"
  by (simp add: keeps_def chSchWakeupS_def Let_def)

lemma keeps_reschedule:
  assumes "chSchRescheduleS k = Some k'"
  shows "keeps k k'"
  using assms by (auto simp: keeps_def chSchRescheduleS_def chSchDoRescheduleAhead_def queue_fifo_remove_def Let_def
      split: if_splits list.splits)

lemma keeps_yield: "chSchDoYieldS k = Some k' \<Longrightarrow> keeps k k'"
  by (auto simp: keeps_def chSchDoYieldS_def chSchDoRescheduleBehind_def queue_fifo_remove_def Let_def split: if_splits list.splits)

lemma keeps_go_sleep: "chSchGoSleepS st k = Some k' \<Longrightarrow> keeps (set_state (currp k) st k) k'"
  by (auto simp: keeps_def chSchGoSleepS_def queue_fifo_remove_def Let_def split: if_splits list.splits)

lemma go_sleep_returns: "r_queue k \<noteq> [] \<Longrightarrow> \<exists>k'. chSchGoSleepS st k = Some k'"
  by (cases "r_queue k") (simp_all add: chSchGoSleepS_def queue_fifo_remove_def)

lemma not_other_current: "cur_ok k \<Longrightarrow> t \<noteq> currp k \<Longrightarrow> state_of k t \<noteq> CH_STATE_CURRENT"
  by (auto simp: cur_ok_def)

text \<open>A blocking call: the caller takes its new state and may have armed its timer.\<close>

definition timed :: "tstate \<Rightarrow> bool" where
  "timed st = (case st of CH_STATE_READY \<Rightarrow> True | CH_STATE_CURRENT \<Rightarrow> True | CH_STATE_SLEEPING \<Rightarrow> True
     | CH_STATE_SUSPENDED r \<Rightarrow> True | CH_STATE_QUEUED q \<Rightarrow> True | CH_STATE_WTSEM s \<Rightarrow> True
     | CH_STATE_WTOREVT m \<Rightarrow> True | CH_STATE_WTANDEVT m \<Rightarrow> True | CH_STATE_WTCOND c \<Rightarrow> True | _ \<Rightarrow> False)"

lemma timed_simps [simp]: "timed CH_STATE_READY" "timed CH_STATE_CURRENT" "timed CH_STATE_SLEEPING" "timed (CH_STATE_SUSPENDED r)"
  "timed (CH_STATE_QUEUED q)" "timed (CH_STATE_WTSEM s)" "timed (CH_STATE_WTOREVT m)" "timed (CH_STATE_WTANDEVT m)"
  "timed (CH_STATE_WTCOND c)"
  by (simp_all add: timed_def)

lemma runnable_timed: "runnable st \<Longrightarrow> timed st"
  by (auto simp: runnable_def)

definition blocks :: "'a kernel_scheme \<Rightarrow> 'a kernel_scheme \<Rightarrow> bool" where
  "blocks k k' \<longleftrightarrow> (\<forall>u. u \<noteq> currp k \<longrightarrow> state_of k' u = state_of k u \<or> runnable (state_of k' u)) \<and>
     (vtlist k' = vtlist k \<or>
      timed (state_of k' (currp k)) \<and> (\<exists>now d. vtlist k' = chVTDoSetI now (sleep_timer (currp k)) d (vtlist k)))"

lemma keeps_blocks: "keeps k k' \<Longrightarrow> blocks k k'"
  by (auto simp: keeps_def blocks_def)

lemma blocks_from: "blocks k1 k' \<Longrightarrow> currp k1 = currp k \<Longrightarrow> keeps k k1 \<Longrightarrow> blocks k k'"
  unfolding blocks_def keeps_def by (metis (no_types))

lemma keeps_set: "keeps (set_state t st k) k' \<Longrightarrow> u \<noteq> t \<Longrightarrow> state_of k' u = state_of k u \<or> runnable (state_of k' u)"
  by (auto simp: keeps_def dest: spec [of _ u])

lemma k_ok_vtlist [simp]: "k_ok (k\<lparr>vtlist := l\<rparr>) = k_ok k" "cur_ok (k\<lparr>vtlist := l\<rparr>) = cur_ok k"
  by (simp_all add: k_ok_def link_ok_def cur_ok_def)

lemma link_ok_vtlist: "link_ok X (set_state t st (k\<lparr>vtlist := l\<rparr>)) = link_ok X (set_state t st k)"
  by (simp add: link_ok_def)

lemma go_sleep_blocks:
  assumes "cur_ok k1" "link_ok {} (set_state (currp k1) st k1)" "\<not> runnable st" "chSchGoSleepS st k1 = Some k'"
  shows "k_ok k'" "highest k'" "sems k' = sems k1" "blocks k1 k'"
proof -
  note g = go_sleep [OF assms(2) not_other_current [OF assms(1)] _ _ assms(4)]
  show "k_ok k'" "highest k'" "sems k' = sems k1" using g assms(3) by (simp_all add: k_ok_def runnable_def)
  show "blocks k1 k'" using keeps_go_sleep [OF assms(4)] keeps_set [OF keeps_go_sleep [OF assms(4)]] by (simp add: blocks_def keeps_def)
qed

lemma go_sleep_timeout_blocks:
  assumes "cur_ok k1" "link_ok {} (set_state (currp k1) st k1)" "\<not> runnable st" "timed st" "chSchGoSleepTimeoutS now st time k1 = Some k'"
  shows "k_ok k'" "highest k'" "sems k' = sems k1" "blocks k1 k'"
proof -
  have "k_ok k' \<and> highest k' \<and> sems k' = sems k1 \<and> blocks k1 k'"
  proof (cases "time = TIME_INFINITE")
    case True
    then show ?thesis using go_sleep_blocks [OF assms(1-3), of k'] assms(5) by (simp add: chSchGoSleepTimeoutS_def)
  next
    case False
    let ?k = "k1\<lparr>vtlist := chVTDoSetI now (sleep_timer (currp k1)) time (vtlist k1)\<rparr>"
    have s: "chSchGoSleepS st ?k = Some k'" using False assms(5) by (simp add: chSchGoSleepTimeoutS_def)
    have l: "link_ok {} (set_state (currp ?k) st ?k)" using assms(2) by (simp add: link_ok_vtlist)
    have ok: "cur_ok ?k" using assms(1) by simp
    note b = go_sleep_blocks [OF ok l assms(3) s]
    have st: "state_of k' (currp k1) = st"
      using go_sleep(7) [OF l not_other_current [OF ok] _ _ s] assms(3) by (simp add: runnable_def)
    have "blocks k1 k'"
      using keeps_set [OF keeps_go_sleep [OF s]] keeps_go_sleep [OF s] st assms(4) by (auto simp: blocks_def keeps_def)
    then show ?thesis using b by simp
  qed
  then show "k_ok k'" "highest k'" "sems k' = sems k1" "blocks k1 k'" by auto
qed


end
