(* ===== verification/Sem.thy ===== *)
theory Sem
  imports Sched
begin

text \<open>
  Counting semaphores, \<^verbatim>\<open>os/rt/src/chsem.c\<close>, waiting threads in order of arrival
  (\<^verbatim>\<open>CH_CFG_USE_SEMAPHORES_PRIORITY\<close> is off), and the kernel as a transition system.  A wait
  returns \<open>Some msg\<close> when it does not block and \<open>None\<close> when the calling thread went to sleep.  Counters
  are unbounded: 2^31 signals in a row would overflow the code's 32 bit counter.
\<close>

definition upd_sem :: "nat \<Rightarrow> (semaphore \<Rightarrow> semaphore) \<Rightarrow> 'a kernel_scheme \<Rightarrow> 'a kernel_scheme" where
  "upd_sem s f k = k\<lparr>sems := (sems k)(s := f (sems k s))\<rparr>"

definition chSemObjectInit :: "nat \<Rightarrow> int \<Rightarrow> 'a kernel_scheme \<Rightarrow> 'a kernel_scheme" where
  "chSemObjectInit s n = upd_sem s (\<lambda>_. \<lparr>s_queue = [], s_cnt = n\<rparr>)"

definition chSemFastWaitI :: "nat \<Rightarrow> 'a kernel_scheme \<Rightarrow> 'a kernel_scheme" where
  "chSemFastWaitI s = upd_sem s (\<lambda>sm. sm\<lparr>s_cnt := s_cnt sm - 1\<rparr>)"

definition chSemGetCounterI :: "nat \<Rightarrow> 'a kernel_scheme \<Rightarrow> int" where "chSemGetCounterI s k = s_cnt (sems k s)"

text \<open>The loop of \<^verbatim>\<open>chSemResetI\<close>, with the counter value on entry to the iteration.\<close>

function sem_reset_loop :: "nat \<Rightarrow> int \<Rightarrow> 'a kernel_scheme \<Rightarrow> 'a kernel_scheme option" where
  "sem_reset_loop s cnt k =
     (if cnt + 1 \<le> 0
      then do {
        (t, q) \<leftarrow> queue_lifo_remove (s_queue (sems k s));
        sem_reset_loop s (cnt + 1)
          (set_msg t MSG_RESET (chSchReadyI t (upd_sem s (\<lambda>sm. sm\<lparr>s_queue := q\<rparr>) k)))
      }
      else Some k)"
  by pat_completeness auto
termination by (relation "measure (\<lambda>(s, cnt, k). nat (- cnt))") auto

declare sem_reset_loop.simps [simp del]

definition chSemResetI :: "nat \<Rightarrow> int \<Rightarrow> 'a kernel_scheme \<Rightarrow> 'a kernel_scheme option" where
  "chSemResetI s n k = sem_reset_loop s (s_cnt (sems k s)) (upd_sem s (\<lambda>sm. sm\<lparr>s_cnt := n\<rparr>) k)"

definition chSemReset :: "nat \<Rightarrow> int \<Rightarrow> 'a kernel_scheme \<Rightarrow> 'a kernel_scheme option" where
  "chSemReset s n k = do { k \<leftarrow> chSemResetI s n k; chSchRescheduleS k }"

definition chSemWaitS :: "nat \<Rightarrow> 'a kernel_scheme \<Rightarrow> (msg_t option \<times> 'a kernel_scheme) option" where
  "chSemWaitS s k0 =
     (let k = upd_sem s (\<lambda>sm. sm\<lparr>s_cnt := s_cnt sm - 1\<rparr>) k0
      in if s_cnt (sems k s) < 0
         then do {
           k \<leftarrow> chSchGoSleepS (CH_STATE_WTSEM s) (upd_sem s (\<lambda>sm. sm\<lparr>s_queue := queue_insert (currp k) (s_queue sm)\<rparr>) k);
           Some (None, k)
         }
         else Some (Some MSG_OK, k))"

definition chSemWait :: "nat \<Rightarrow> 'a kernel_scheme \<Rightarrow> (msg_t option \<times> 'a kernel_scheme) option" where
  "chSemWait = chSemWaitS"

definition chSemWaitTimeoutS :: "systime_t \<Rightarrow> nat \<Rightarrow> systime_t \<Rightarrow> 'a kernel_scheme \<Rightarrow> (msg_t option \<times> 'a kernel_scheme) option" where
  "chSemWaitTimeoutS now s time k0 =
     (let k = upd_sem s (\<lambda>sm. sm\<lparr>s_cnt := s_cnt sm - 1\<rparr>) k0
      in if s_cnt (sems k s) < 0
         then if time = TIME_IMMEDIATE then Some (Some MSG_TIMEOUT, upd_sem s (\<lambda>sm. sm\<lparr>s_cnt := s_cnt sm + 1\<rparr>) k)
              else do {
                k \<leftarrow> chSchGoSleepTimeoutS now (CH_STATE_WTSEM s) time
                      (upd_sem s (\<lambda>sm. sm\<lparr>s_queue := queue_insert (currp k) (s_queue sm)\<rparr>) k);
                Some (None, k)
              }
         else Some (Some MSG_OK, k))"

definition chSemWaitTimeout :: "systime_t \<Rightarrow> nat \<Rightarrow> systime_t \<Rightarrow> 'a kernel_scheme \<Rightarrow> (msg_t option \<times> 'a kernel_scheme) option" where
  "chSemWaitTimeout = chSemWaitTimeoutS"

definition chSemSignal :: "nat \<Rightarrow> 'a kernel_scheme \<Rightarrow> 'a kernel_scheme option" where
  "chSemSignal s k0 =
     (let k = upd_sem s (\<lambda>sm. sm\<lparr>s_cnt := s_cnt sm + 1\<rparr>) k0
      in if s_cnt (sems k s) \<le> 0
         then do {
           (t, q) \<leftarrow> queue_fifo_remove (s_queue (sems k s));
           Some (chSchWakeupS t MSG_OK (upd_sem s (\<lambda>sm. sm\<lparr>s_queue := q\<rparr>) k))
         }
         else Some k)"

definition chSemSignalI :: "nat \<Rightarrow> 'a kernel_scheme \<Rightarrow> 'a kernel_scheme option" where
  "chSemSignalI s k0 =
     (let k = upd_sem s (\<lambda>sm. sm\<lparr>s_cnt := s_cnt sm + 1\<rparr>) k0
      in if s_cnt (sems k s) \<le> 0
         then do {
           (t, q) \<leftarrow> queue_fifo_remove (s_queue (sems k s));
           Some (chSchReadyI t (set_msg t MSG_OK (upd_sem s (\<lambda>sm. sm\<lparr>s_queue := q\<rparr>) k)))
         }
         else Some k)"

text \<open>One pass of the loop signals the semaphore once.\<close>

fun chSemAddCounterI :: "nat \<Rightarrow> nat \<Rightarrow> 'a kernel_scheme \<Rightarrow> 'a kernel_scheme option" where
  "chSemAddCounterI s 0 k = Some k"
| "chSemAddCounterI s (Suc n) k = do { k \<leftarrow> chSemSignalI s k; chSemAddCounterI s n k }"

definition chSemSignalWait :: "nat \<Rightarrow> nat \<Rightarrow> 'a kernel_scheme \<Rightarrow> (msg_t option \<times> 'a kernel_scheme) option" where
  "chSemSignalWait sps spw k0 =
     do {
       k \<leftarrow> chSemSignalI sps k0;
       let k = upd_sem spw (\<lambda>sm. sm\<lparr>s_cnt := s_cnt sm - 1\<rparr>) k;
       if s_cnt (sems k spw) < 0
       then do {
         k \<leftarrow> chSchGoSleepS (CH_STATE_WTSEM spw) (upd_sem spw (\<lambda>sm. sm\<lparr>s_queue := queue_insert (currp k) (s_queue sm)\<rparr>) k);
         Some (None, k)
       }
       else do { k \<leftarrow> chSchRescheduleS k; Some (Some MSG_OK, k) }
     }"

section \<open>Semaphore operations keep the invariant\<close>

definition sem_ok :: "'a kernel_scheme \<Rightarrow> bool" where
  "sem_ok k \<longleftrightarrow> (\<forall>s. if s_queue (sems k s) = [] then 0 \<le> s_cnt (sems k s) else s_cnt (sems k s) = - int (length (s_queue (sems k s))))"

lemma sem_okD: "sem_ok k \<Longrightarrow> if s_queue (sems k s) = [] then 0 \<le> s_cnt (sems k s) else s_cnt (sems k s) = - int (length (s_queue (sems k s)))"
  by (simp add: sem_ok_def)

lemma upd_sem_simps [simp]:
  "threads (upd_sem s f k) = threads k" "r_queue (upd_sem s f k) = r_queue k" "currp (upd_sem s f k) = currp k"
  "vtlist (upd_sem s f k) = vtlist k" "trefs (upd_sem s f k) = trefs k" "tqueues (upd_sem s f k) = tqueues k"
  "mtxs (upd_sem s f k) = mtxs k" "conds (upd_sem s f k) = conds k" "msgq (upd_sem s f k) = msgq k"
  "sems (upd_sem s f k) = (sems k)(s := f (sems k s))" "state_of (upd_sem s f k) = state_of k"
  "waiters (upd_sem s f k) = waiters k" "prio_of (upd_sem s f k) = prio_of k" "cur_ok (upd_sem s f k) = cur_ok k"
  "highest (upd_sem s f k) = highest k"
  by (simp_all add: upd_sem_def cur_ok_def highest_def)

lemma upd_sem_cnt [simp]: "link_ok X (upd_sem s (\<lambda>sm. sm\<lparr>s_cnt := f sm\<rparr>) k) = link_ok X k"
proof -
  have "queued (upd_sem s (\<lambda>sm. sm\<lparr>s_cnt := f sm\<rparr>) k) u st = queued k u st" for u st by (cases st) auto
  moreover have "s_queue (sems (upd_sem s (\<lambda>sm. sm\<lparr>s_cnt := f sm\<rparr>) k) s') = s_queue (sems k s')" for s' by simp
  ultimately show ?thesis by (simp only: link_ok_def upd_sem_simps(2,6,7-9,11-13))
qed

text \<open>A thread linked nowhere enters the place its new state names.\<close>

lemma enter_ok:
  assumes "link_ok {} k" "\<not> is_link (state_of k c)" "\<And>u s. queued k' u s \<longleftrightarrow> queued k u s \<or> u = c \<and> s = st \<and> is_link st"
    "state_of k' = (state_of k)(c := st)" "prio_of k' = prio_of k" "r_queue k' = r_queue k" "\<And>q. distinct (tqueues k' q)"
    "\<And>s. distinct (s_queue (sems k' s))" "\<And>u. distinct (waiters k' u)" "\<And>u. distinct (msgq k' u)"
    "\<And>m. distinct (m_queue (mtxs k' m))" "\<And>c. distinct (conds k' c)"
  shows "link_ok {} k'"
proof (rule link_okI)
  fix u s
  show "queued k' u s \<longleftrightarrow> is_link s \<and> state_of k' u = s \<and> u \<notin> {}"
    using assms(2,3,4) link_queued [OF assms(1), of u s] by auto
qed (use assms link_okD [OF assms(1)] in simp_all)

lemma enter_sem:
  assumes "k_ok k"
  shows "link_ok {} (set_state (currp k) (CH_STATE_WTSEM s) (upd_sem s (\<lambda>sm. sm\<lparr>s_queue := queue_insert (currp k) (s_queue sm)\<rparr>) k))"
proof -
  have l: "link_ok {} k" "state_of k (currp k) = CH_STATE_CURRENT" using assms cur_self by (auto simp: k_ok_def)
  have n: "currp k \<notin> set (s_queue (sems k s))" using link_queued [OF l(1), of "currp k" "CH_STATE_WTSEM s"] l(2) by simp
  show ?thesis
  proof (rule enter_ok [OF l(1), where c = "currp k" and st = "CH_STATE_WTSEM s"])
    fix u st
    show "queued (set_state (currp k) (CH_STATE_WTSEM s) (upd_sem s (\<lambda>sm. sm\<lparr>s_queue := queue_insert (currp k) (s_queue sm)\<rparr>) k)) u st \<longleftrightarrow>
        queued k u st \<or> u = currp k \<and> st = CH_STATE_WTSEM s \<and> is_link (CH_STATE_WTSEM s)"
      by (cases st) (auto simp: queue_insert_def)
  qed (use l n link_okD [OF l(1)] in \<open>simp_all add: queue_insert_def\<close>)
qed

lemma k_ok_cnt [simp]: "k_ok (upd_sem s (\<lambda>sm. sm\<lparr>s_cnt := f sm\<rparr>) k) = k_ok k"
  by (simp add: k_ok_def)

text \<open>The state in which a thread has joined the queue of a semaphore and is about to be switched out.\<close>

definition sem_joined :: "nat \<Rightarrow> 'a kernel_scheme \<Rightarrow> 'a kernel_scheme" where
  "sem_joined s k = upd_sem s (\<lambda>sm. sm\<lparr>s_queue := queue_insert (currp k) (s_queue sm)\<rparr>)
      (upd_sem s (\<lambda>sm. sm\<lparr>s_cnt := s_cnt sm - 1\<rparr>) k)"

lemma sem_ok_sems: "sems k' = sems k \<Longrightarrow> sem_ok k' = sem_ok k"
  by (simp add: sem_ok_def)

lemma upd_sem_keeps: "keeps k (upd_sem s f k)"
  by (simp add: keeps_def)

lemma sem_joined_ok:
  assumes "k_ok k" "sem_ok k" "s_cnt (sems k s) \<le> 0"
  shows "cur_ok (sem_joined s k)" "link_ok {} (set_state (currp k) (CH_STATE_WTSEM s) (sem_joined s k))" "sem_ok (sem_joined s k)"
    "currp (sem_joined s k) = currp k" "keeps k (sem_joined s k)"
proof -
  have "k_ok (upd_sem s (\<lambda>sm. sm\<lparr>s_cnt := s_cnt sm - 1\<rparr>) k)" using assms(1) by simp
  from enter_sem [OF this, of s] show "link_ok {} (set_state (currp k) (CH_STATE_WTSEM s) (sem_joined s k))" by (simp add: sem_joined_def)
  show "cur_ok (sem_joined s k)" "currp (sem_joined s k) = currp k" "keeps k (sem_joined s k)"
    using assms(1) by (simp_all add: sem_joined_def k_ok_def keeps_def)
  have "s_cnt (sems k s) = - int (length (s_queue (sems k s)))"
    using sem_okD [OF assms(2), of s] assms(3) by (cases "s_queue (sems k s)") auto
  then show "sem_ok (sem_joined s k)" using assms(2) by (simp add: sem_ok_def sem_joined_def queue_insert_def)
qed

lemma sem_block:
  assumes "k_ok k" "sem_ok k" "s_cnt (sems k s) \<le> 0"
    "chSchGoSleepS (CH_STATE_WTSEM s) (sem_joined s k) = Some k' \<or>
     chSchGoSleepTimeoutS now (CH_STATE_WTSEM s) time (sem_joined s k) = Some k'"
  shows "k_ok k'" "highest k'" "sem_ok k'" "blocks k k'"
proof -
  note j = sem_joined_ok [OF assms(1-3)]
  have l: "link_ok {} (set_state (currp (sem_joined s k)) (CH_STATE_WTSEM s) (sem_joined s k))" using j(2,4) by simp
  have "k_ok k' \<and> highest k' \<and> sems k' = sems (sem_joined s k) \<and> blocks (sem_joined s k) k'"
    using assms(4) go_sleep_blocks [OF j(1) l, of k'] go_sleep_timeout_blocks [OF j(1) l, of now time k'] by (auto simp: runnable_def)
  then show "k_ok k'" "highest k'" "sem_ok k'" "blocks k k'"
    using blocks_from [OF _ j(4,5)] sem_ok_sems j(3) by blast+
qed

text \<open>Taking a token: the counter is positive.\<close>

lemma sem_take_ok:
  assumes "k_ok k" "sem_ok k" "0 < s_cnt (sems k s)"
  shows "k_ok (upd_sem s (\<lambda>sm. sm\<lparr>s_cnt := s_cnt sm - 1\<rparr>) k)" "sem_ok (upd_sem s (\<lambda>sm. sm\<lparr>s_cnt := s_cnt sm - 1\<rparr>) k)"
  using assms unfolding sem_ok_def by (auto split: if_splits)

lemma sem_wait_ok:
  assumes "k_ok k" "sem_ok k" "highest k" "chSemWaitS s k = Some (m, k') \<or> chSemWaitTimeoutS now s time k = Some (m, k')"
  shows "k_ok k' \<and> highest k' \<and> sem_ok k' \<and> blocks k k'"
proof (cases "s_cnt (sems k s) \<le> 0")
  case True
  have undo: "upd_sem s (\<lambda>sm. sm\<lparr>s_cnt := s_cnt sm + 1\<rparr>) (upd_sem s (\<lambda>sm. sm\<lparr>s_cnt := s_cnt sm - 1\<rparr>) k) = k"
    by (simp add: upd_sem_def)
  from True assms(4) have "chSchGoSleepS (CH_STATE_WTSEM s) (sem_joined s k) = Some k' \<or>
     chSchGoSleepTimeoutS now (CH_STATE_WTSEM s) time (sem_joined s k) = Some k' \<or> k' = k"
    by (auto simp: chSemWaitS_def chSemWaitTimeoutS_def Let_def bind_eq_Some_conv sem_joined_def undo split: if_splits)
  then show ?thesis using sem_block [OF assms(1,2) True] assms(1-3) keeps_blocks [OF keeps_refl] by blast
next
  case False
  then have "k' = upd_sem s (\<lambda>sm. sm\<lparr>s_cnt := s_cnt sm - 1\<rparr>) k"
    using assms(4) by (auto simp: chSemWaitS_def chSemWaitTimeoutS_def)
  then show ?thesis using sem_take_ok [OF assms(1,2), of s] False assms(1,3) by (simp add: keeps_blocks upd_sem_keeps)
qed

lemma sem_first:
  assumes "k_ok k" "s_queue (sems k s) = t # q"
  shows "link_ok {t} (upd_sem s (\<lambda>sm. (sm\<lparr>s_cnt := f sm\<rparr>)\<lparr>s_queue := q\<rparr>) k)" "t \<noteq> currp k"
proof -
  have l: "link_ok {} k" "cur_ok k" using assms(1) by (simp_all add: k_ok_def)
  have t: "state_of k t = CH_STATE_WTSEM s" using link_queued [OF l(1), of t "CH_STATE_WTSEM s"] assms(2) by simp
  have "upd_sem s (\<lambda>sm. (sm\<lparr>s_cnt := f sm\<rparr>)\<lparr>s_queue := q\<rparr>) k =
      k\<lparr>sems := (sems k)(s := ((sems k s)\<lparr>s_cnt := f (sems k s)\<rparr>)\<lparr>s_queue := remove1 t (s_queue (sems k s))\<rparr>)\<rparr>"
    using assms(2) by (simp add: upd_sem_def)
  then show "link_ok {t} (upd_sem s (\<lambda>sm. (sm\<lparr>s_cnt := f sm\<rparr>)\<lparr>s_queue := q\<rparr>) k)" using unlink_sem_ok [OF l(1) t] by simp
  show "t \<noteq> currp k" using t cur_self [OF l(2)] by auto
qed

lemma upd_sem_twice: "upd_sem s g (upd_sem s f k) = upd_sem s (\<lambda>sm. g (f sm)) k"
  by (simp add: upd_sem_def)

text \<open>Signalling: the first waiting thread, if any, is taken off the queue with \<open>MSG_OK\<close>.\<close>

lemma sem_signal_cases:
  assumes "sem_ok k"
  obtains "s_queue (sems k s) = []" "\<not> s_cnt (sems k s) + 1 \<le> 0"
  | t q where "s_queue (sems k s) = t # q" "s_cnt (sems k s) + 1 \<le> 0"
  using sem_okD [OF assms, of s] by (cases "s_queue (sems k s)") auto

lemma sem_signalled: "sem_ok k \<Longrightarrow> s_queue (sems k s) = t # q \<Longrightarrow>
    sem_ok (upd_sem s (\<lambda>sm. (sm\<lparr>s_cnt := s_cnt sm + 1\<rparr>)\<lparr>s_queue := q\<rparr>) k)"
  unfolding sem_ok_def by (auto split: if_splits)

text \<open>A signal that leaves the counter positive.\<close>

lemma sem_give_ok: "sem_ok k \<Longrightarrow> s_queue (sems k s) = [] \<Longrightarrow> sem_ok (upd_sem s (\<lambda>sm. sm\<lparr>s_cnt := s_cnt sm + 1\<rparr>) k)"
  unfolding sem_ok_def by (auto split: if_splits)

lemma sem_signal_ok:
  assumes "k_ok k" "sem_ok k" "highest k"
  shows "\<exists>k'. chSemSignal s k = Some k' \<and> k_ok k' \<and> highest k' \<and> sem_ok k' \<and> keeps k k'"
  using sem_signal_cases [OF assms(2), of s]
proof cases
  case 1
  then show ?thesis using assms sem_give_ok [OF assms(2) 1(1)] by (simp add: chSemSignal_def upd_sem_keeps)
next
  case (2 t q)
  let ?k = "upd_sem s (\<lambda>sm. (sm\<lparr>s_cnt := s_cnt sm + 1\<rparr>)\<lparr>s_queue := q\<rparr>) k"
  note f = sem_first(1) [OF assms(1) 2(1), where f = "\<lambda>sm. s_cnt sm + 1"] sem_first(2) [OF assms(1) 2(1)]
  have "cur_ok ?k" "t \<noteq> currp ?k" "highest ?k" using assms(1,3) f(2) by (simp_all add: k_ok_def)
  note w = wakeupS_ok [OF f(1) this, where m = MSG_OK]
  have "chSemSignal s k = Some (chSchWakeupS t MSG_OK ?k)"
    using 2 by (simp add: chSemSignal_def queue_fifo_remove_def upd_sem_twice)
  moreover have "keeps k (chSchWakeupS t MSG_OK ?k)" by (rule keeps_trans [OF upd_sem_keeps keeps_wakeupS])
  ultimately show ?thesis using w(1-3) sem_signalled [OF assms(2) 2(1)] sem_ok_sems [of "chSchWakeupS t MSG_OK ?k" ?k] by simp
qed

lemma sem_signalI_ok:
  assumes "k_ok k" "sem_ok k"
  shows "\<exists>k'. chSemSignalI s k = Some k' \<and> k_ok k' \<and> sem_ok k' \<and> currp k' = currp k \<and> keeps k k'"
  using sem_signal_cases [OF assms(2), of s]
proof cases
  case 1
  then show ?thesis using assms sem_give_ok [OF assms(2) 1(1)] by (simp add: chSemSignalI_def upd_sem_keeps)
next
  case (2 t q)
  let ?u = "upd_sem s (\<lambda>sm. (sm\<lparr>s_cnt := s_cnt sm + 1\<rparr>)\<lparr>s_queue := q\<rparr>) k"
  let ?k = "set_msg t MSG_OK ?u"
  note f = sem_first(1) [OF assms(1) 2(1), where f = "\<lambda>sm. s_cnt sm + 1"] sem_first(2) [OF assms(1) 2(1)]
  have "k_ok (chSchReadyI t ?k)" by (rule ready_ok) (use f assms(1) in \<open>simp_all add: k_ok_def\<close>)
  moreover have "chSemSignalI s k = Some (chSchReadyI t ?k)"
    using 2 by (simp add: chSemSignalI_def queue_fifo_remove_def upd_sem_twice)
  moreover have "sem_ok (chSchReadyI t ?k)"
    using sem_signalled [OF assms(2) 2(1)] sem_ok_sems [of "chSchReadyI t ?k" ?u] by simp
  moreover have "keeps k (chSchReadyI t ?k)" by (simp add: keeps_def)
  ultimately show ?thesis by simp
qed

lemma sem_add_counter_ok:
  assumes "k_ok k" "sem_ok k"
  shows "\<exists>k'. chSemAddCounterI s n k = Some k' \<and> k_ok k' \<and> sem_ok k' \<and> currp k' = currp k \<and> keeps k k'"
  using assms
proof (induction n arbitrary: k)
  case (Suc n)
  obtain k1 where k1: "chSemSignalI s k = Some k1" "k_ok k1" "sem_ok k1" "currp k1 = currp k" "keeps k k1"
    using sem_signalI_ok [OF Suc.prems, of s] by auto
  then show ?case using Suc.IH [OF k1(2,3)] keeps_trans [OF k1(5)] by auto
qed (simp add: keeps_refl)

lemma sem_signal_wait_ok:
  assumes "k_ok k" "sem_ok k" "chSemSignalWait sps spw k = Some (m, k')"
  shows "k_ok k' \<and> highest k' \<and> sem_ok k' \<and> blocks k k'"
proof -
  obtain k1 where k1: "chSemSignalI sps k = Some k1" "k_ok k1" "sem_ok k1" "currp k1 = currp k" "keeps k k1"
    using sem_signalI_ok [OF assms(1,2), of sps] by auto
  show ?thesis
  proof (cases "s_cnt (sems k1 spw) \<le> 0")
    case True
    have "chSchGoSleepS (CH_STATE_WTSEM spw) (sem_joined spw k1) = Some k'"
      using assms(3) True by (auto simp: chSemSignalWait_def k1(1) Let_def sem_joined_def bind_eq_Some_conv)
    then show ?thesis using sem_block [OF k1(2,3) True] blocks_from [OF _ k1(4,5)] by blast
  next
    case False
    let ?k = "upd_sem spw (\<lambda>sm. sm\<lparr>s_cnt := s_cnt sm - 1\<rparr>) k1"
    have r: "chSchRescheduleS ?k = Some k'"
      using assms(3) False by (auto simp: chSemSignalWait_def k1(1) Let_def bind_eq_Some_conv)
    have t: "k_ok ?k" "sem_ok ?k" using sem_take_ok [OF k1(2,3), of spw] False by simp_all
    have "keeps k k'" by (rule keeps_trans [OF keeps_trans [OF k1(5) upd_sem_keeps] keeps_reschedule [OF r]])
    then show ?thesis using reschedule_ok(1-3) [OF t(1) r] t(2) sem_ok_sems [of k' ?k] by (simp add: keeps_blocks)
  qed
qed

section \<open>Reset\<close>

lemma sem_unlink:
  assumes "k_ok k" "t \<in> set (s_queue (sems k s))"
  shows "link_ok {t} (upd_sem s (\<lambda>sm. sm\<lparr>s_queue := remove1 t (s_queue sm)\<rparr>) k)" "t \<noteq> currp k"
proof -
  have l: "link_ok {} k" "cur_ok k" using assms(1) by (simp_all add: k_ok_def)
  have t: "state_of k t = CH_STATE_WTSEM s" using link_queued [OF l(1), of t "CH_STATE_WTSEM s"] assms(2) by simp
  show "link_ok {t} (upd_sem s (\<lambda>sm. sm\<lparr>s_queue := remove1 t (s_queue sm)\<rparr>) k)"
    using unlink_sem_ok [OF l(1) t, of "sems k s"] by (simp add: upd_sem_def)
  show "t \<noteq> currp k" using t cur_self [OF l(2)] by auto
qed

lemma butlast_remove1: "distinct xs \<Longrightarrow> xs \<noteq> [] \<Longrightarrow> butlast xs = remove1 (last xs) xs"
  by (induction xs) auto

lemma rdymsg_ready [simp]: "rdymsg (threads (chSchReadyI t k) u) = rdymsg (threads k u)"
  by (simp add: chSchReadyI_def)

lemma sem_reset_loop_ok:
  assumes "k_ok k" "if s_queue (sems k s) = [] then 0 \<le> cnt else cnt = - int (length (s_queue (sems k s)))"
  shows "\<exists>k'. sem_reset_loop s cnt k = Some k' \<and> k_ok k' \<and> keeps k k' \<and> currp k' = currp k \<and> prio_of k' = prio_of k \<and>
    sems k' = (sems k)(s := (sems k s)\<lparr>s_queue := []\<rparr>) \<and> trefs k' = trefs k \<and> tqueues k' = tqueues k \<and>
    (\<forall>t \<in> set (s_queue (sems k s)). rdymsg (threads k' t) = MSG_RESET \<and> state_of k' t = CH_STATE_READY) \<and>
    (\<forall>t. t \<notin> set (s_queue (sems k s)) \<longrightarrow> threads k' t = threads k t)"
  using assms
proof (induction "length (s_queue (sems k s))" arbitrary: cnt k)
  case 0
  then have "sem_reset_loop s cnt k = Some k" by (subst sem_reset_loop.simps) simp
  moreover have "(sems k)(s := (sems k s)\<lparr>s_queue := []\<rparr>) = sems k" using 0(1) by (auto simp: fun_eq_iff)
  ultimately show ?case using 0 by (simp add: keeps_refl)
next
  case (Suc n)
  let ?q = "s_queue (sems k s)" let ?t = "last ?q"
  have ne: "?q \<noteq> []" using Suc.hyps(2) by auto
  then have t: "?t \<in> set ?q" by simp
  have l: "link_ok {} k" using Suc.prems(1) by (simp add: k_ok_def)
  have d: "distinct ?q" by (rule link_okD(3) [OF l])
  define k1 where "k1 = set_msg ?t MSG_RESET (chSchReadyI ?t (upd_sem s (\<lambda>sm. sm\<lparr>s_queue := butlast ?q\<rparr>) k))"
  have e: "upd_sem s (\<lambda>sm. sm\<lparr>s_queue := butlast ?q\<rparr>) k = upd_sem s (\<lambda>sm. sm\<lparr>s_queue := remove1 ?t (s_queue sm)\<rparr>) k"
    using butlast_remove1 [OF d ne] by (simp add: upd_sem_def)
  note u = sem_unlink [OF Suc.prems(1) t]
  have k1: "k_ok (chSchReadyI ?t (upd_sem s (\<lambda>sm. sm\<lparr>s_queue := butlast ?q\<rparr>) k))"
    unfolding e by (rule ready_ok [OF u(1)]) (use u(2) Suc.prems(1) in \<open>simp_all add: k_ok_def\<close>)
  then have ok: "k_ok k1" by (simp add: k1_def k_ok_def)
  have q1: "s_queue (sems k1 s) = butlast ?q" by (simp add: k1_def)
  have c1: "if s_queue (sems k1 s) = [] then 0 \<le> cnt + 1 else cnt + 1 = - int (length (s_queue (sems k1 s)))"
    using Suc.prems(2) Suc.hyps(2) ne q1 by (cases ?q rule: rev_cases) auto
  have "n = length (s_queue (sems k1 s))" using Suc.hyps(2) q1 by simp
  from Suc.hyps(1) [OF this ok c1] obtain k' where k': "sem_reset_loop s (cnt + 1) k1 = Some k'" "k_ok k'" "keeps k1 k'" "currp k' = currp k1"
    "prio_of k' = prio_of k1" "sems k' = (sems k1)(s := (sems k1 s)\<lparr>s_queue := []\<rparr>)" "trefs k' = trefs k1" "tqueues k' = tqueues k1"
    "\<forall>t \<in> set (butlast ?q). rdymsg (threads k' t) = MSG_RESET \<and> state_of k' t = CH_STATE_READY"
    "\<forall>t. t \<notin> set (butlast ?q) \<longrightarrow> threads k' t = threads k1 t" unfolding q1 by blast
  have s: "sem_reset_loop s cnt k = Some k'"
    using k'(1) Suc.prems(2) Suc.hyps(2) ne by (subst sem_reset_loop.simps) (simp add: queue_lifo_remove_def k1_def)
  have sq: "set ?q = insert ?t (set (butlast ?q))" "?t \<notin> set (butlast ?q)" using ne d by (cases ?q rule: rev_cases, auto)+
  have th: "rdymsg (threads k' ?t) = MSG_RESET" "state_of k' ?t = CH_STATE_READY"
    using k'(10) sq(2) by (simp_all add: k1_def state_of_def chSchReadyI_def)
  have nt: "threads k' t = threads k t" if "t \<notin> set ?q" for t
    using k'(10) that sq(1) by (simp add: k1_def chSchReadyI_def)
  have kp: "keeps k k'"
    by (rule keeps_trans [OF _ k'(3)]) (simp add: keeps_def k1_def)
  show ?case using s k'(2,4-9) th nt kp unfolding sq(1) by (simp add: k1_def)
qed

lemma sem_resetI_ok:
  assumes "k_ok k" "sem_ok k" "0 \<le> n"
  shows "\<exists>k'. chSemResetI s n k = Some k' \<and> k_ok k' \<and> sem_ok k' \<and> keeps k k' \<and> currp k' = currp k \<and> prio_of k' = prio_of k \<and>
    sems k' = (sems k)(s := \<lparr>s_queue = [], s_cnt = n\<rparr>) \<and>
    (\<forall>t \<in> set (s_queue (sems k s)). rdymsg (threads k' t) = MSG_RESET \<and> state_of k' t = CH_STATE_READY)"
proof -
  let ?k = "upd_sem s (\<lambda>sm. sm\<lparr>s_cnt := n\<rparr>) k"
  have q: "s_queue (sems ?k s) = s_queue (sems k s)" by simp
  have sm: "(sems ?k s)\<lparr>s_queue := []\<rparr> = \<lparr>s_queue = [], s_cnt = n\<rparr>" by simp
  obtain k' where k': "sem_reset_loop s (s_cnt (sems k s)) ?k = Some k'" "k_ok k'" "keeps ?k k'" "currp k' = currp k" "prio_of k' = prio_of k"
    "sems k' = (sems ?k)(s := \<lparr>s_queue = [], s_cnt = n\<rparr>)"
    "\<forall>t \<in> set (s_queue (sems k s)). rdymsg (threads k' t) = MSG_RESET \<and> state_of k' t = CH_STATE_READY"
    using sem_reset_loop_ok [of ?k s "s_cnt (sems k s)"] sem_okD [OF assms(2), of s] assms(1) unfolding q sm by auto
  have "keeps k k'" using k'(3) by (simp add: keeps_def)
  moreover have sk: "sems k' = (sems k)(s := \<lparr>s_queue = [], s_cnt = n\<rparr>)" unfolding k'(6) by auto
  moreover have "sem_ok k'" using assms(2,3) sk by (simp add: sem_ok_def)
  ultimately show ?thesis using k' by (simp add: chSemResetI_def)
qed

end
