(* ===== verification/Mailbox.thy ===== *)
theory Mailbox
  imports Sem Ring
begin

text \<open>
  Mailboxes, \<^verbatim>\<open>os/rt/src/chmboxes.c\<close>: a ring of messages guarded by two semaphores, one that counts
  free cells and one that counts messages.  A call that blocks is split where the thread goes
  to sleep; \<open>mb_post_rest\<close>, \<open>mb_post_ahead_rest\<close> and \<open>mb_fetch_rest\<close> are what it does with the
  message it was woken with.
\<close>

record mailbox =
  mb_buffer :: "msg_t list"
  mb_wrptr :: nat
  mb_rdptr :: nat
  mb_fullsem :: nat
  mb_emptysem :: nat

record mb_system = kernel +
  mbox :: mailbox

abbreviation (input) fullsem :: "mb_system \<Rightarrow> nat" where "fullsem s \<equiv> mb_fullsem (mbox s)"
abbreviation (input) emptysem :: "mb_system \<Rightarrow> nat" where "emptysem s \<equiv> mb_emptysem (mbox s)"

definition chMBGetSizeI :: "mb_system \<Rightarrow> nat" where "chMBGetSizeI s = length (mb_buffer (mbox s))"
definition chMBGetFreeCountI :: "mb_system \<Rightarrow> int" where "chMBGetFreeCountI s = chSemGetCounterI (emptysem s) s"
definition chMBGetUsedCountI :: "mb_system \<Rightarrow> int" where "chMBGetUsedCountI s = chSemGetCounterI (fullsem s) s"
definition chMBPeekI :: "mb_system \<Rightarrow> msg_t" where "chMBPeekI s = mb_buffer (mbox s) ! mb_rdptr (mbox s)"

definition chMBObjectInit :: "msg_t list \<Rightarrow> mb_system \<Rightarrow> mb_system" where
  "chMBObjectInit buf s =
     chSemObjectInit (fullsem s) 0 (chSemObjectInit (emptysem s) (int (length buf))
       (s\<lparr>mbox := (mbox s)\<lparr>mb_buffer := buf, mb_rdptr := 0, mb_wrptr := 0\<rparr>\<rparr>))"

definition chMBResetI :: "mb_system \<Rightarrow> mb_system option" where
  "chMBResetI s =
     do {
       let s = s\<lparr>mbox := (mbox s)\<lparr>mb_wrptr := 0, mb_rdptr := 0\<rparr>\<rparr>;
       s \<leftarrow> chSemResetI (emptysem s) (int (length (mb_buffer (mbox s)))) s;
       chSemResetI (fullsem s) 0 s
     }"

definition chMBReset :: "mb_system \<Rightarrow> mb_system option" where
  "chMBReset s = do { s \<leftarrow> chMBResetI s; chSchRescheduleS s }"

text \<open>Storing at the write pointer, storing in front of the read pointer, taking.\<close>

definition mb_store :: "msg_t \<Rightarrow> mailbox \<Rightarrow> mailbox" where
  "mb_store msg m = m\<lparr>mb_buffer := (mb_buffer m)[mb_wrptr m := msg], mb_wrptr := ptr_next (length (mb_buffer m)) (mb_wrptr m)\<rparr>"

definition mb_store_ahead :: "msg_t \<Rightarrow> mailbox \<Rightarrow> mailbox" where
  "mb_store_ahead msg m =
     (let p = ptr_prev (length (mb_buffer m)) (mb_rdptr m) in m\<lparr>mb_rdptr := p, mb_buffer := (mb_buffer m)[p := msg]\<rparr>)"

definition mb_take :: "mailbox \<Rightarrow> msg_t \<times> mailbox" where
  "mb_take m = (mb_buffer m ! mb_rdptr m, m\<lparr>mb_rdptr := ptr_next (length (mb_buffer m)) (mb_rdptr m)\<rparr>)"

definition mb_post_rest :: "msg_t \<Rightarrow> msg_t \<Rightarrow> mb_system \<Rightarrow> mb_system option" where
  "mb_post_rest rmsg msg s =
     (if rmsg = MSG_OK
      then do { s \<leftarrow> chSemSignalI (fullsem s) (s\<lparr>mbox := mb_store msg (mbox s)\<rparr>); chSchRescheduleS s }
      else Some s)"

definition chMBPostS :: "systime_t \<Rightarrow> msg_t \<Rightarrow> systime_t \<Rightarrow> mb_system \<Rightarrow> (msg_t option \<times> mb_system) option" where
  "chMBPostS now msg timeout s =
     do {
       (r, s) \<leftarrow> chSemWaitTimeoutS now (emptysem s) timeout s;
       case r of None \<Rightarrow> Some (None, s) | Some rmsg \<Rightarrow> do { s \<leftarrow> mb_post_rest rmsg msg s; Some (Some rmsg, s) }
     }"

definition chMBPost :: "systime_t \<Rightarrow> msg_t \<Rightarrow> systime_t \<Rightarrow> mb_system \<Rightarrow> (msg_t option \<times> mb_system) option" where
  "chMBPost = chMBPostS"

definition chMBPostI :: "msg_t \<Rightarrow> mb_system \<Rightarrow> (msg_t \<times> mb_system) option" where
  "chMBPostI msg s =
     (if chSemGetCounterI (emptysem s) s \<le> 0 then Some (MSG_TIMEOUT, s)
      else do {
        let s = chSemFastWaitI (emptysem s) s;
        s \<leftarrow> chSemSignalI (fullsem s) (s\<lparr>mbox := mb_store msg (mbox s)\<rparr>);
        Some (MSG_OK, s)
      })"

definition mb_post_ahead_rest :: "msg_t \<Rightarrow> msg_t \<Rightarrow> mb_system \<Rightarrow> mb_system option" where
  "mb_post_ahead_rest rmsg msg s =
     (if rmsg = MSG_OK
      then do { s \<leftarrow> chSemSignalI (fullsem s) (s\<lparr>mbox := mb_store_ahead msg (mbox s)\<rparr>); chSchRescheduleS s }
      else Some s)"

definition chMBPostAheadS :: "systime_t \<Rightarrow> msg_t \<Rightarrow> systime_t \<Rightarrow> mb_system \<Rightarrow> (msg_t option \<times> mb_system) option" where
  "chMBPostAheadS now msg timeout s =
     do {
       (r, s) \<leftarrow> chSemWaitTimeoutS now (emptysem s) timeout s;
       case r of None \<Rightarrow> Some (None, s) | Some rmsg \<Rightarrow> do { s \<leftarrow> mb_post_ahead_rest rmsg msg s; Some (Some rmsg, s) }
     }"

definition chMBPostAhead :: "systime_t \<Rightarrow> msg_t \<Rightarrow> systime_t \<Rightarrow> mb_system \<Rightarrow> (msg_t option \<times> mb_system) option" where
  "chMBPostAhead = chMBPostAheadS"

definition chMBPostAheadI :: "msg_t \<Rightarrow> mb_system \<Rightarrow> (msg_t \<times> mb_system) option" where
  "chMBPostAheadI msg s =
     (if chSemGetCounterI (emptysem s) s \<le> 0 then Some (MSG_TIMEOUT, s)
      else do {
        let s = chSemFastWaitI (emptysem s) s;
        s \<leftarrow> chSemSignalI (fullsem s) (s\<lparr>mbox := mb_store_ahead msg (mbox s)\<rparr>);
        Some (MSG_OK, s)
      })"

text \<open>A fetch also yields the message it stores through its pointer argument, if it does.\<close>

definition mb_fetch_rest :: "msg_t \<Rightarrow> mb_system \<Rightarrow> (msg_t option \<times> mb_system) option" where
  "mb_fetch_rest rmsg s =
     (if rmsg = MSG_OK
      then do {
        let (msg, m) = mb_take (mbox s);
        s \<leftarrow> chSemSignalI (emptysem s) (s\<lparr>mbox := m\<rparr>);
        s \<leftarrow> chSchRescheduleS s;
        Some (Some msg, s)
      }
      else Some (None, s))"

definition chMBFetchS :: "systime_t \<Rightarrow> systime_t \<Rightarrow> mb_system \<Rightarrow> (msg_t option \<times> msg_t option \<times> mb_system) option" where
  "chMBFetchS now timeout s =
     do {
       (r, s) \<leftarrow> chSemWaitTimeoutS now (fullsem s) timeout s;
       case r of None \<Rightarrow> Some (None, None, s) | Some rmsg \<Rightarrow> do { (msg, s) \<leftarrow> mb_fetch_rest rmsg s; Some (Some rmsg, msg, s) }
     }"

definition chMBFetch :: "systime_t \<Rightarrow> systime_t \<Rightarrow> mb_system \<Rightarrow> (msg_t option \<times> msg_t option \<times> mb_system) option" where
  "chMBFetch = chMBFetchS"

definition chMBFetchI :: "mb_system \<Rightarrow> (msg_t \<times> msg_t option \<times> mb_system) option" where
  "chMBFetchI s =
     (if chSemGetCounterI (fullsem s) s \<le> 0 then Some (MSG_TIMEOUT, None, s)
      else do {
        let s = chSemFastWaitI (fullsem s) s;
        let (msg, m) = mb_take (mbox s);
        s \<leftarrow> chSemSignalI (emptysem s) (s\<lparr>mbox := m\<rparr>);
        Some (MSG_OK, Some msg, s)
      })"

section \<open>The invariant\<close>

text \<open>
  The mailbox holds \<open>c\<close>; \<open>p\<close> posting threads were given a free cell and \<open>f\<close> fetching threads a
  message, and have not run since.
\<close>

definition mb_inv :: "nat \<Rightarrow> nat \<Rightarrow> msg_t list \<Rightarrow> mb_system \<Rightarrow> bool" where
  "mb_inv p f c s \<longleftrightarrow> fullsem s \<noteq> emptysem s \<and> sem_ok s \<and> mb_rdptr (mbox s) < chMBGetSizeI s \<and>
     mb_wrptr (mbox s) = (mb_rdptr (mbox s) + length c) mod chMBGetSizeI s \<and>
     ring (mb_buffer (mbox s)) (mb_rdptr (mbox s)) (length c) = c \<and>
     nat (s_cnt (sems s (fullsem s))) + f = length c \<and> length c + nat (s_cnt (sems s (emptysem s))) + p = chMBGetSizeI s"

lemma ready_more [simp]: "mbox (chSchReadyI t s) = mbox s" "mbox (set_msg t m s) = mbox s" "mbox (upd_sem i g s) = mbox s"
  by (simp_all add: chSchReadyI_def set_msg_def set_state_def upd_thread_def upd_sem_def)

text \<open>A signal: one token more, or one waiting thread less.\<close>

lemma signalI_effect:
  fixes s :: mb_system
  assumes "sem_ok s"
  shows "\<exists>s'. chSemSignalI i s = Some s' \<and> sem_ok s' \<and> mbox s' = mbox s \<and> (\<forall>j. j \<noteq> i \<longrightarrow> sems s' j = sems s j) \<and>
    nat (s_cnt (sems s' i)) = nat (s_cnt (sems s i)) + (if s_queue (sems s i) = [] then 1 else 0) \<and>
    s_queue (sems s' i) = tl (s_queue (sems s i))"
  using sem_signal_cases [OF assms, of i]
proof cases
  case 1
  moreover have "sem_ok (upd_sem i (\<lambda>sm. sm\<lparr>s_cnt := s_cnt sm + 1\<rparr>) s)" by (rule sem_give_ok [OF assms 1(1)])
  moreover have "0 \<le> s_cnt (sems s i)" using sem_okD [OF assms, of i] 1 by simp
  ultimately show ?thesis by (simp add: chSemSignalI_def)
next
  case (2 t q)
  let ?u = "upd_sem i (\<lambda>sm. (sm\<lparr>s_cnt := s_cnt sm + 1\<rparr>)\<lparr>s_queue := q\<rparr>) s"
  have "chSemSignalI i s = Some (chSchReadyI t (set_msg t MSG_OK ?u))"
    using 2 by (simp add: chSemSignalI_def queue_fifo_remove_def upd_sem_twice)
  moreover have "sem_ok (chSchReadyI t (set_msg t MSG_OK ?u))"
    using sem_signalled [OF assms 2(1)] sem_ok_sems [of "chSchReadyI t (set_msg t MSG_OK ?u)" ?u] by simp
  ultimately show ?thesis using 2 by simp
qed

lemma fast_wait_effect:
  assumes "sem_ok s" "0 < s_cnt (sems s i)"
  shows "sem_ok (chSemFastWaitI i s)" "s_queue (sems s i) = []"
proof -
  show q: "s_queue (sems s i) = []" using sem_okD [OF assms(1), of i] assms(2) by (auto split: if_splits)
  show "sem_ok (chSemFastWaitI i s)" using assms q by (simp add: chSemFastWaitI_def sem_ok_def)
qed

lemma reschedule_mbox:
  fixes s :: mb_system
  assumes "chSchRescheduleS s = Some s'"
  shows "mbox s' = mbox s" "sems s' = sems s"
  using assms by (auto simp: chSchRescheduleS_def chSchDoRescheduleAhead_def queue_fifo_remove_def Let_def set_state_def upd_thread_def
      split: if_splits list.splits)

lemma mb_inv_cong:
  assumes "mbox s' = mbox s" "sems s' = sems s"
  shows "mb_inv p f c s' = mb_inv p f c s"
  using assms sem_ok_sems [of s' s] by (simp add: mb_inv_def chMBGetSizeI_def)

text \<open>The ring part of the three accesses.\<close>

lemma mb_store_ring:
  assumes "mb_rdptr m < length (mb_buffer m)" "mb_wrptr m = (mb_rdptr m + length c) mod length (mb_buffer m)"
    "ring (mb_buffer m) (mb_rdptr m) (length c) = c" "length c < length (mb_buffer m)"
  shows "mb_wrptr (mb_store msg m) = (mb_rdptr m + length (c @ [msg])) mod length (mb_buffer m)"
    "ring (mb_buffer (mb_store msg m)) (mb_rdptr m) (length (c @ [msg])) = c @ [msg]"
    "length (mb_buffer (mb_store msg m)) = length (mb_buffer m)" "mb_rdptr (mb_store msg m) = mb_rdptr m"
    "mb_fullsem (mb_store msg m) = mb_fullsem m" "mb_emptysem (mb_store msg m) = mb_emptysem m"
proof -
  have "0 < length (mb_buffer m)" using assms(1) by linarith
  then show "mb_wrptr (mb_store msg m) = (mb_rdptr m + length (c @ [msg])) mod length (mb_buffer m)"
    using ptr_next_add [of "length (mb_buffer m)" "mb_rdptr m" "length c"] assms(2) by (simp add: mb_store_def)
  show "ring (mb_buffer (mb_store msg m)) (mb_rdptr m) (length (c @ [msg])) = c @ [msg]"
    using ring_store [OF assms(4), of "mb_rdptr m" msg] assms(2,3) by (simp add: mb_store_def)
qed (simp_all add: mb_store_def)

lemma mb_store_ahead_ring:
  assumes "mb_rdptr m < length (mb_buffer m)" "mb_wrptr m = (mb_rdptr m + length c) mod length (mb_buffer m)"
    "ring (mb_buffer m) (mb_rdptr m) (length c) = c" "length c < length (mb_buffer m)"
  shows "mb_wrptr (mb_store_ahead msg m) = (mb_rdptr (mb_store_ahead msg m) + length (msg # c)) mod length (mb_buffer m)"
    "ring (mb_buffer (mb_store_ahead msg m)) (mb_rdptr (mb_store_ahead msg m)) (length (msg # c)) = msg # c"
    "length (mb_buffer (mb_store_ahead msg m)) = length (mb_buffer m)" "mb_rdptr (mb_store_ahead msg m) < length (mb_buffer m)"
    "mb_fullsem (mb_store_ahead msg m) = mb_fullsem m" "mb_emptysem (mb_store_ahead msg m) = mb_emptysem m"
proof -
  let ?p = "ptr_prev (length (mb_buffer m)) (mb_rdptr m)"
  have "(?p + 1) mod length (mb_buffer m) = mb_rdptr m"
    using ptr_next_prev [OF assms(1)] ptr_next_mod [of ?p "length (mb_buffer m)"] assms(1) by simp
  then have "(?p + Suc (length c)) mod length (mb_buffer m) = (mb_rdptr m + length c) mod length (mb_buffer m)"
    by (metis add.assoc mod_add_left_eq plus_1_eq_Suc)
  then show "mb_wrptr (mb_store_ahead msg m) = (mb_rdptr (mb_store_ahead msg m) + length (msg # c)) mod length (mb_buffer m)"
    using assms(2) by (simp add: mb_store_ahead_def Let_def)
  show "ring (mb_buffer (mb_store_ahead msg m)) (mb_rdptr (mb_store_ahead msg m)) (length (msg # c)) = msg # c"
    using ring_push_front [OF assms(1,4), of msg] assms(3) by (simp add: mb_store_ahead_def Let_def)
qed (use assms(1) in \<open>simp_all add: mb_store_ahead_def Let_def\<close>)

lemma mb_take_ring:
  assumes "mb_rdptr m < length (mb_buffer m)" "mb_wrptr m = (mb_rdptr m + length (x # c)) mod length (mb_buffer m)"
    "ring (mb_buffer m) (mb_rdptr m) (length (x # c)) = x # c"
  defines "m' \<equiv> snd (mb_take m)"
  shows "fst (mb_take m) = x" "mb_wrptr m' = (mb_rdptr m' + length c) mod length (mb_buffer m)"
    "ring (mb_buffer m') (mb_rdptr m') (length c) = c" "mb_buffer m' = mb_buffer m" "mb_rdptr m' < length (mb_buffer m)"
    "mb_fullsem m' = mb_fullsem m" "mb_emptysem m' = mb_emptysem m"
proof -
  have "x # c = mb_buffer m ! mb_rdptr m # ring (mb_buffer m) (ptr_next (length (mb_buffer m)) (mb_rdptr m)) (length c)"
    using assms(3) ring_take [OF assms(1), of "length c"] by simp
  then show "fst (mb_take m) = x" "ring (mb_buffer m') (mb_rdptr m') (length c) = c" by (simp_all add: mb_take_def m'_def)
  show "mb_wrptr m' = (mb_rdptr m' + length c) mod length (mb_buffer m)"
    using assms(1,2) by (simp add: mb_take_def m'_def ptr_next_mod mod_add_left_eq mod_Suc_eq)
  have "0 < length (mb_buffer m)" using assms(1) by linarith
  then show "mb_rdptr m' < length (mb_buffer m)" by (simp add: mb_take_def m'_def)
qed (simp_all add: mb_take_def m'_def)

section \<open>Operations\<close>

lemma mb_invD:
  assumes "mb_inv p f c s"
  shows "mb_rdptr (mbox s) < length (mb_buffer (mbox s))" "mb_wrptr (mbox s) = (mb_rdptr (mbox s) + length c) mod length (mb_buffer (mbox s))"
    "ring (mb_buffer (mbox s)) (mb_rdptr (mbox s)) (length c) = c" "sem_ok s" "fullsem s \<noteq> emptysem s"
    "nat (s_cnt (sems s (fullsem s))) + f = length c" "length c + nat (s_cnt (sems s (emptysem s))) + p = length (mb_buffer (mbox s))"
  using assms unfolding mb_inv_def chMBGetSizeI_def by blast+

text \<open>A thread or handler that holds a free cell stores, one that holds a message takes; then it signals.\<close>

lemma stored_signal:
  assumes "mb_inv (Suc p) f c s" "m = mb_store msg (mbox s) \<and> c' = c @ [msg] \<or> m = mb_store_ahead msg (mbox s) \<and> c' = msg # c"
  shows "\<exists>s'. chSemSignalI (fullsem s) (s\<lparr>mbox := m\<rparr>) = Some s' \<and>
    mb_inv p (f + (if s_queue (sems s (fullsem s)) = [] then 0 else 1)) c' s' \<and> sems s' (emptysem s) = sems s (emptysem s) \<and>
    s_queue (sems s' (fullsem s)) = tl (s_queue (sems s (fullsem s))) \<and> mb_fullsem (mbox s') = fullsem s \<and> mb_emptysem (mbox s') = emptysem s"
proof -
  note d = mb_invD [OF assms(1)]
  have n: "length c < length (mb_buffer (mbox s))" using d(7) by linarith
  have m: "mb_wrptr m = (mb_rdptr m + length c') mod length (mb_buffer (mbox s))" "ring (mb_buffer m) (mb_rdptr m) (length c') = c'"
    "length (mb_buffer m) = length (mb_buffer (mbox s))" "mb_rdptr m < length (mb_buffer (mbox s))"
    "mb_fullsem m = fullsem s" "mb_emptysem m = emptysem s" "length c' = Suc (length c)"
    using assms(2) mb_store_ring [OF d(1-3) n, of msg] mb_store_ahead_ring [OF d(1-3) n, of msg] d(1) by auto
  have so: "sem_ok (s\<lparr>mbox := m\<rparr>)" using d(4) by (simp add: sem_ok_def)
  from signalI_effect [OF so, of "fullsem s"] obtain s' where s': "chSemSignalI (fullsem s) (s\<lparr>mbox := m\<rparr>) = Some s'" "sem_ok s'" "mbox s' = m"
    "\<forall>j. j \<noteq> fullsem s \<longrightarrow> sems s' j = sems s j"
    "nat (s_cnt (sems s' (fullsem s))) = nat (s_cnt (sems s (fullsem s))) + (if s_queue (sems s (fullsem s)) = [] then 1 else 0)"
    "s_queue (sems s' (fullsem s)) = tl (s_queue (sems s (fullsem s)))"
    by auto
  have "mb_inv p (f + (if s_queue (sems s (fullsem s)) = [] then 0 else 1)) c' s'"
    unfolding mb_inv_def chMBGetSizeI_def s'(3) m(3,5,6) using s'(2,4,5) d(5-7) m(1,2,4,7) by auto
  then show ?thesis using s' m(5,6) d(5) by auto
qed

lemma taken_signal:
  assumes "mb_inv p (Suc f) c s"
  shows "\<exists>s' x c'. chSemSignalI (emptysem s) (s\<lparr>mbox := snd (mb_take (mbox s))\<rparr>) = Some s' \<and> c = x # c' \<and> fst (mb_take (mbox s)) = x \<and>
    mb_inv (p + (if s_queue (sems s (emptysem s)) = [] then 0 else 1)) f c' s' \<and> sems s' (fullsem s) = sems s (fullsem s) \<and>
    s_queue (sems s' (emptysem s)) = tl (s_queue (sems s (emptysem s))) \<and> mb_fullsem (mbox s') = fullsem s \<and> mb_emptysem (mbox s') = emptysem s"
proof -
  have "0 < length c" using mb_invD(6) [OF assms] by linarith
  then obtain x c' where c: "c = x # c'" by (cases c) auto
  let ?m = "snd (mb_take (mbox s))"
  have i: "mb_rdptr (mbox s) < length (mb_buffer (mbox s))" "mb_wrptr (mbox s) = (mb_rdptr (mbox s) + length (x # c')) mod length (mb_buffer (mbox s))"
    "ring (mb_buffer (mbox s)) (mb_rdptr (mbox s)) (length (x # c')) = x # c'"
    using mb_invD(1-3) [OF assms] unfolding c by blast+
  note d = mb_invD [OF assms]
  note m = mb_take_ring [OF i(1-3)]
  have so: "sem_ok (s\<lparr>mbox := ?m\<rparr>)" using d(4) by (simp add: sem_ok_def)
  from signalI_effect [OF so, of "emptysem s"] obtain s' where s': "chSemSignalI (emptysem s) (s\<lparr>mbox := ?m\<rparr>) = Some s'" "sem_ok s'" "mbox s' = ?m"
    "\<forall>j. j \<noteq> emptysem s \<longrightarrow> sems s' j = sems s j"
    "nat (s_cnt (sems s' (emptysem s))) = nat (s_cnt (sems s (emptysem s))) + (if s_queue (sems s (emptysem s)) = [] then 1 else 0)"
    "s_queue (sems s' (emptysem s)) = tl (s_queue (sems s (emptysem s)))"
    by auto
  have "mb_inv (p + (if s_queue (sems s (emptysem s)) = [] then 0 else 1)) f c' s'"
    unfolding mb_inv_def chMBGetSizeI_def s'(3) m(6,7) using s'(2,4,5) d(5-7) m(2,3,4,5) c by auto
  then show ?thesis using s' m(1,6,7) d(5) c by auto
qed

lemma fast_wait_simps [simp]: "mbox (chSemFastWaitI i s) = mbox s" "sems (chSemFastWaitI i s) = (sems s)(i := (sems s i)\<lparr>s_cnt := s_cnt (sems s i) - 1\<rparr>)"
  by (simp_all add: chSemFastWaitI_def)

lemma fast_wait_inv:
  assumes "mb_inv p f c s"
  shows "0 < s_cnt (sems s (emptysem s)) \<Longrightarrow> mb_inv (Suc p) f c (chSemFastWaitI (emptysem s) s)"
    "0 < s_cnt (sems s (fullsem s)) \<Longrightarrow> mb_inv p (Suc f) c (chSemFastWaitI (fullsem s) s)"
proof -
  note d = mb_invD [OF assms]
  have *: "mb_inv p' f' c (chSemFastWaitI i s)"
    if "0 < s_cnt (sems s i)" "nat (s_cnt (sems (chSemFastWaitI i s) (fullsem s))) + f' = length c"
      "length c + nat (s_cnt (sems (chSemFastWaitI i s) (emptysem s))) + p' = length (mb_buffer (mbox s))" for i p' f'
    unfolding mb_inv_def chMBGetSizeI_def fast_wait_simps(1)
    using d(1-3,5) that(2,3) fast_wait_effect(1) [OF d(4) that(1)] by blast
  show "mb_inv (Suc p) f c (chSemFastWaitI (emptysem s) s)" if "0 < s_cnt (sems s (emptysem s))"
    by (rule * [OF that]) (use d(5-7) that in simp_all)
  show "mb_inv p (Suc f) c (chSemFastWaitI (fullsem s) s)" if "0 < s_cnt (sems s (fullsem s))"
    by (rule * [OF that]) (use d(5-7) that in simp_all)
qed

lemma post_rest:
  assumes "mb_inv (Suc p) f c s"
  shows "\<exists>f' s'. mb_post_rest MSG_OK msg s = Some s' \<and> mb_inv p f' (c @ [msg]) s'"
    "\<exists>f' s'. mb_post_ahead_rest MSG_OK msg s = Some s' \<and> mb_inv p f' (msg # c) s'"
proof -
  have *: "\<exists>f' s' s1. chSemSignalI (fullsem s) (s\<lparr>mbox := m\<rparr>) = Some s1 \<and> chSchRescheduleS s1 = Some s' \<and> mb_inv p f' c' s'"
    if st: "m = mb_store msg (mbox s) \<and> c' = c @ [msg] \<or> m = mb_store_ahead msg (mbox s) \<and> c' = msg # c" for m :: mailbox and c'
  proof -
    obtain s1 where s1: "chSemSignalI (fullsem s) (s\<lparr>mbox := m\<rparr>) = Some s1"
      "mb_inv p (f + (if s_queue (sems s (fullsem s)) = [] then 0 else 1)) c' s1"
      using stored_signal [OF assms st] by blast
    obtain s' where s': "chSchRescheduleS s1 = Some s'" using reschedule_returns by blast
    show ?thesis using s1 s' mb_inv_cong [OF reschedule_mbox [OF s']] by blast
  qed
  show "\<exists>f' s'. mb_post_rest MSG_OK msg s = Some s' \<and> mb_inv p f' (c @ [msg]) s'"
    using * [of "mb_store msg (mbox s)" "c @ [msg]"] by (auto simp: mb_post_rest_def)
  show "\<exists>f' s'. mb_post_ahead_rest MSG_OK msg s = Some s' \<and> mb_inv p f' (msg # c) s'"
    using * [of "mb_store_ahead msg (mbox s)" "msg # c"] by (auto simp: mb_post_ahead_rest_def)
qed

lemma fetch_rest:
  assumes "mb_inv p (Suc f) c s"
  shows "\<exists>p' s' x c'. mb_fetch_rest MSG_OK s = Some (Some x, s') \<and> c = x # c' \<and> mb_inv p' f c' s'"
proof -
  obtain s1 x c' where s1: "chSemSignalI (emptysem s) (s\<lparr>mbox := snd (mb_take (mbox s))\<rparr>) = Some s1" "c = x # c'" "fst (mb_take (mbox s)) = x"
    "mb_inv (p + (if s_queue (sems s (emptysem s)) = [] then 0 else 1)) f c' s1"
    using taken_signal [OF assms] by blast
  obtain s' where s': "chSchRescheduleS s1 = Some s'" using reschedule_returns by blast
  have "mb_fetch_rest MSG_OK s = Some (Some x, s')" using s1(1,3) s' by (cases "mb_take (mbox s)") (simp add: mb_fetch_rest_def)
  then show ?thesis using s1(2,4) mb_inv_cong [OF reschedule_mbox [OF s']] by blast
qed

text \<open>The wait at the start of a call: it takes a token, gives up, or leaves the thread blocked.\<close>

lemma go_sleep_mbox:
  fixes s :: mb_system
  assumes "chSchGoSleepTimeoutS now st time s = Some s'"
  shows "mbox s' = mbox s" "sems s' = sems s"
  using assms by (auto simp: chSchGoSleepTimeoutS_def chSchGoSleepS_def queue_fifo_remove_def Let_def set_state_def upd_thread_def
      split: if_splits list.splits)

lemma sem_joined_mbox [simp]: "mbox (sem_joined i s) = mbox s"
  by (simp add: sem_joined_def)

lemma joined_inv:
  assumes "mb_inv p f c s" "s_cnt (sems s i) \<le> 0"
  shows "mb_inv p f c (sem_joined i s)"
proof -
  have so: "sem_ok s" using assms(1) by (simp add: mb_inv_def)
  have "s_cnt (sems s i) = - int (length (s_queue (sems s i)))"
    using sem_okD [OF so, of i] assms(2) by (cases "s_queue (sems s i)") auto
  then have "sem_ok (sem_joined i s)" using so by (simp add: sem_ok_def sem_joined_def queue_insert_def)
  moreover have "nat (s_cnt (sems (sem_joined i s) j)) = nat (s_cnt (sems s j))" for j using assms(2) by (simp add: sem_joined_def)
  ultimately show ?thesis using assms(1) by (simp add: mb_inv_def chMBGetSizeI_def)
qed

lemma wait_mailbox:
  assumes "mb_inv p f c s" "chSemWaitTimeoutS now i timeout s = Some (r, s')"
  shows "r = Some MSG_OK \<and> 0 < s_cnt (sems s i) \<and> s' = chSemFastWaitI i s \<or> r \<noteq> Some MSG_OK \<and> mb_inv p f c s'"
proof (cases "s_cnt (sems s i) \<le> 0")
  case True
  have undo: "upd_sem i (\<lambda>sm. sm\<lparr>s_cnt := s_cnt sm + 1\<rparr>) (upd_sem i (\<lambda>sm. sm\<lparr>s_cnt := s_cnt sm - 1\<rparr>) s) = s"
    by (simp add: upd_sem_def)
  have "r = Some MSG_TIMEOUT \<and> s' = s \<or> r = None \<and> chSchGoSleepTimeoutS now (CH_STATE_WTSEM i) timeout (sem_joined i s) = Some s'"
    using True assms(2) by (auto simp: chSemWaitTimeoutS_def Let_def bind_eq_Some_conv sem_joined_def undo split: if_splits)
  then show ?thesis
  proof
    assume "r = None \<and> chSchGoSleepTimeoutS now (CH_STATE_WTSEM i) timeout (sem_joined i s) = Some s'"
    then have g: "chSchGoSleepTimeoutS now (CH_STATE_WTSEM i) timeout (sem_joined i s) = Some s'" "r = None" by simp_all
    show ?thesis using joined_inv [OF assms(1) True] mb_inv_cong [OF go_sleep_mbox [OF g(1)]] g(2) by simp
  qed (use assms(1) in simp)
next
  case False
  then show ?thesis using assms(2) by (simp add: chSemWaitTimeoutS_def chSemFastWaitI_def)
qed

section \<open>Messages come out in order\<close>

lemma postI_inv:
  assumes "mb_inv p f c s"
  shows "if s_cnt (sems s (emptysem s)) \<le> 0 then chMBPostI msg s = Some (MSG_TIMEOUT, s) \<and> chMBPostAheadI msg s = Some (MSG_TIMEOUT, s)
    else (\<exists>f' s'. chMBPostI msg s = Some (MSG_OK, s') \<and> mb_inv p f' (c @ [msg]) s') \<and>
         (\<exists>f' s'. chMBPostAheadI msg s = Some (MSG_OK, s') \<and> mb_inv p f' (msg # c) s')"
proof (cases "s_cnt (sems s (emptysem s)) \<le> 0")
  case True
  then show ?thesis by (simp add: chMBPostI_def chMBPostAheadI_def chSemGetCounterI_def)
next
  case False
  let ?s = "chSemFastWaitI (emptysem s) s"
  have i: "mb_inv (Suc p) f c ?s" using fast_wait_inv(1) [OF assms] False by simp
  from stored_signal [OF i, of "mb_store msg (mbox s)" msg "c @ [msg]"]
  have "\<exists>f' s'. chMBPostI msg s = Some (MSG_OK, s') \<and> mb_inv p f' (c @ [msg]) s'"
    using False by (auto simp: chMBPostI_def chSemGetCounterI_def Let_def)
  moreover from stored_signal [OF i, of "mb_store_ahead msg (mbox s)" msg "msg # c"]
  have "\<exists>f' s'. chMBPostAheadI msg s = Some (MSG_OK, s') \<and> mb_inv p f' (msg # c) s'"
    using False by (auto simp: chMBPostAheadI_def chSemGetCounterI_def Let_def)
  ultimately show ?thesis using False by simp
qed

lemma fetchI_inv:
  assumes "mb_inv p f c s"
  shows "if s_cnt (sems s (fullsem s)) \<le> 0 then chMBFetchI s = Some (MSG_TIMEOUT, None, s)
    else \<exists>p' s' x c'. chMBFetchI s = Some (MSG_OK, Some x, s') \<and> c = x # c' \<and> mb_inv p' f c' s'"
proof (cases "s_cnt (sems s (fullsem s)) \<le> 0")
  case True
  then show ?thesis by (simp add: chMBFetchI_def chSemGetCounterI_def)
next
  case False
  have "mb_inv p (Suc f) c (chSemFastWaitI (fullsem s) s)" using fast_wait_inv(2) [OF assms] False by simp
  from taken_signal [OF this] show ?thesis
    using False by (cases "mb_take (mbox s)") (auto simp: chMBFetchI_def chSemGetCounterI_def Let_def)
qed

text \<open>
  C24: mailboxes.  Whatever calls are blocked or released: a post that returns \<open>MSG_OK\<close> puts its
  message last (an ahead post first), a fetch that returns \<open>MSG_OK\<close> yields the first message, and
  any other return, or blocking, leaves the messages alone.  A thread released from a full or an
  empty mailbox finds its cell or its message when it runs, even if others called in between.
\<close>

theorem mailbox_keeps_order:
  assumes "mb_inv p f c s"
  shows "(\<forall>r s'. chMBPost now msg timeout s = Some (r, s') \<longrightarrow> (\<exists>f'. mb_inv p f' (if r = Some MSG_OK then c @ [msg] else c) s')) \<and>
    (\<forall>r s'. chMBPostAhead now msg timeout s = Some (r, s') \<longrightarrow> (\<exists>f'. mb_inv p f' (if r = Some MSG_OK then msg # c else c) s')) \<and>
    (\<forall>r x s'. chMBFetch now timeout s = Some (r, x, s') \<longrightarrow>
       (if r = Some MSG_OK then \<exists>p' y c'. x = Some y \<and> c = y # c' \<and> mb_inv p' f c' s' else mb_inv p f c s')) \<and>
    (0 < p \<longrightarrow> (\<exists>f' s'. mb_post_rest MSG_OK msg s = Some s' \<and> mb_inv (p - 1) f' (c @ [msg]) s')) \<and>
    (0 < f \<longrightarrow> (\<exists>p' s' x c'. mb_fetch_rest MSG_OK s = Some (Some x, s') \<and> c = x # c' \<and> mb_inv p' (f - 1) c' s'))"
proof (intro conjI allI impI)
  fix r s' assume "chMBPost now msg timeout s = Some (r, s')"
  then obtain r1 s1 where 1: "chSemWaitTimeoutS now (emptysem s) timeout s = Some (r1, s1)"
    and 2: "case r1 of None \<Rightarrow> r = None \<and> s' = s1 | Some m \<Rightarrow> r = Some m \<and> mb_post_rest m msg s1 = Some s'"
    by (auto simp: chMBPost_def chMBPostS_def bind_eq_Some_conv split: option.splits)
  from wait_mailbox [OF assms 1] show "\<exists>f'. mb_inv p f' (if r = Some MSG_OK then c @ [msg] else c) s'"
    using 2 post_rest(1) [OF fast_wait_inv(1) [OF assms], of msg] by (cases r1) (auto simp: mb_post_rest_def split: if_splits)
next
  fix r s' assume "chMBPostAhead now msg timeout s = Some (r, s')"
  then obtain r1 s1 where 1: "chSemWaitTimeoutS now (emptysem s) timeout s = Some (r1, s1)"
    and 2: "case r1 of None \<Rightarrow> r = None \<and> s' = s1 | Some m \<Rightarrow> r = Some m \<and> mb_post_ahead_rest m msg s1 = Some s'"
    by (auto simp: chMBPostAhead_def chMBPostAheadS_def bind_eq_Some_conv split: option.splits)
  from wait_mailbox [OF assms 1] show "\<exists>f'. mb_inv p f' (if r = Some MSG_OK then msg # c else c) s'"
    using 2 post_rest(2) [OF fast_wait_inv(1) [OF assms], of msg] by (cases r1) (auto simp: mb_post_ahead_rest_def split: if_splits)
next
  fix r x s' assume "chMBFetch now timeout s = Some (r, x, s')"
  then obtain r1 s1 where 1: "chSemWaitTimeoutS now (fullsem s) timeout s = Some (r1, s1)"
    and 2: "case r1 of None \<Rightarrow> r = None \<and> s' = s1 | Some m \<Rightarrow> r = Some m \<and> mb_fetch_rest m s1 = Some (x, s')"
    by (auto simp: chMBFetch_def chMBFetchS_def bind_eq_Some_conv split: option.splits)
  from wait_mailbox [OF assms 1]
  show "if r = Some MSG_OK then \<exists>p' y c'. x = Some y \<and> c = y # c' \<and> mb_inv p' f c' s' else mb_inv p f c s'"
    using 2 fetch_rest [OF fast_wait_inv(2) [OF assms]] by (cases r1) (auto simp: mb_fetch_rest_def split: if_splits)
next
  assume "0 < p"
  then show "\<exists>f' s'. mb_post_rest MSG_OK msg s = Some s' \<and> mb_inv (p - 1) f' (c @ [msg]) s'"
    using post_rest(1) [of "p - 1" f c s msg] assms by simp
next
  assume "0 < f"
  then show "\<exists>p' s' x c'. mb_fetch_rest MSG_OK s = Some (Some x, s') \<and> c = x # c' \<and> mb_inv p' (f - 1) c' s'"
    using fetch_rest [of p "f - 1" c s] assms by simp
qed

lemma sem_ok_mbox: "sem_ok (s\<lparr>mbox := m\<rparr>) = sem_ok s"
  by (simp add: sem_ok_def)

lemma mb_init_inv:
  assumes "sem_ok s" "fullsem s \<noteq> emptysem s" "buf \<noteq> []"
  shows "mb_inv 0 0 [] (chMBObjectInit buf s)"
  using assms by (simp add: mb_inv_def chMBGetSizeI_def chMBObjectInit_def chSemObjectInit_def sem_ok_def)

text \<open>Thread 0 runs, thread 1 is idle, a mailbox of two cells.\<close>

definition sample_mb :: mb_system where
  "sample_mb = chMBObjectInit [0, 0]
     \<lparr>threads = (\<lambda>t. \<lparr>p_prio = 64, p_realprio = 64, p_state = (if t = 0 then CH_STATE_CURRENT else if t = 1 then CH_STATE_READY else CH_STATE_FINAL),
        rdymsg = 0, p_epending = 0, p_waiting = [], p_terminate = False, p_msgqueue = [], p_msg = 0, p_mtxlist = None\<rparr>), r_queue = [1], currp = 0, vtlist = vt_init, trefs = (\<lambda>_. None),
      tqueues = (\<lambda>_. []), sems = (\<lambda>_. \<lparr>s_queue = [], s_cnt = 0\<rparr>),
      mtxs = (\<lambda>_. \<lparr>m_queue = [], m_owner = None, m_next = None\<rparr>), conds = (\<lambda>_. []),
      mbox = \<lparr>mb_buffer = [], mb_wrptr = 0, mb_rdptr = 0, mb_fullsem = 0, mb_emptysem = 1\<rparr>\<rparr>"

lemma sample_mb_inv: "mb_inv 0 0 [] sample_mb"
  unfolding sample_mb_def by (rule mb_init_inv) (simp_all add: sem_ok_def)

theorem mailbox_keeps_order_witness:
  "\<exists>f' s'. chMBPost 0 7 TIME_IMMEDIATE sample_mb = Some (Some MSG_OK, s') \<and> mb_inv 0 f' [7] s'"
proof -
  have "s_cnt (sems sample_mb (emptysem sample_mb)) = 2" by (simp add: sample_mb_def chMBObjectInit_def chSemObjectInit_def)
  then have w: "chSemWaitTimeoutS 0 (emptysem sample_mb) TIME_IMMEDIATE sample_mb = Some (Some MSG_OK, chSemFastWaitI (emptysem sample_mb) sample_mb)"
    and i: "mb_inv (Suc 0) 0 [] (chSemFastWaitI (emptysem sample_mb) sample_mb)"
    using fast_wait_inv(1) [OF sample_mb_inv] by (simp_all add: chSemWaitTimeoutS_def chSemFastWaitI_def)
  obtain s' where s': "mb_post_rest MSG_OK 7 (chSemFastWaitI (emptysem sample_mb) sample_mb) = Some s'" using post_rest(1) [OF i] by blast
  have "chMBPost 0 7 TIME_IMMEDIATE sample_mb = Some (Some MSG_OK, s')" using w s' by (simp add: chMBPost_def chMBPostS_def)
  then show ?thesis using mailbox_keeps_order [OF sample_mb_inv, of 0 7 TIME_IMMEDIATE] by auto
qed

section \<open>Polling clients\<close>

text \<open>When nobody waits, the calls for interrupt handlers are the operations of a bounded queue.\<close>

definition mb_content :: "mb_system \<Rightarrow> msg_t list" where
  "mb_content s = ring (mb_buffer (mbox s)) (mb_rdptr (mbox s)) (nat (s_cnt (sems s (fullsem s))))"

definition mb_idle :: "mb_system \<Rightarrow> bool" where
  "mb_idle s \<longleftrightarrow> mb_inv 0 0 (mb_content s) s \<and> s_queue (sems s (fullsem s)) = [] \<and> s_queue (sems s (emptysem s)) = []"

lemma mb_inv_content: "mb_inv p 0 c s \<Longrightarrow> mb_content s = c"
  using mb_invD(3,6) [of p 0 c s] by (simp add: mb_content_def)

lemma mb_idle_post:
  assumes "mb_idle s" "length (mb_content s) < chMBGetSizeI s"
  shows "\<exists>s'. chMBPostI msg s = Some (MSG_OK, s') \<and> mb_idle s' \<and> mb_content s' = mb_content s @ [msg] \<and> chMBGetSizeI s' = chMBGetSizeI s"
proof -
  have i: "mb_inv 0 0 (mb_content s) s" and q: "s_queue (sems s (fullsem s)) = []" "s_queue (sems s (emptysem s)) = []"
    using assms(1) by (simp_all add: mb_idle_def)
  note d = mb_invD [OF i]
  have e: "0 < s_cnt (sems s (emptysem s))" using d(7) assms(2) by (simp add: chMBGetSizeI_def)
  let ?s = "chSemFastWaitI (emptysem s) s"
  from stored_signal [OF fast_wait_inv(1) [OF i e], of "mb_store msg (mbox s)" msg "mb_content s @ [msg]"]
  obtain s' where s': "chSemSignalI (fullsem s) (?s\<lparr>mbox := mb_store msg (mbox s)\<rparr>) = Some s'" "mb_inv 0 0 (mb_content s @ [msg]) s'"
    "s_queue (sems s' (fullsem s)) = []" "s_queue (sems s' (emptysem s)) = []" "mb_fullsem (mbox s') = fullsem s" "mb_emptysem (mbox s') = emptysem s"
    using q d(5) by auto
  have "chMBPostI msg s = Some (MSG_OK, s')" using e s'(1) by (simp add: chMBPostI_def chSemGetCounterI_def Let_def)
  moreover have "chMBGetSizeI s' = chMBGetSizeI s"
  proof -
    have "sem_ok (?s\<lparr>mbox := mb_store msg (mbox s)\<rparr>)" using mb_invD(4) [OF fast_wait_inv(1) [OF i e]] by (simp only: sem_ok_mbox)
    from signalI_effect [OF this, of "fullsem s"] have "mbox s' = mb_store msg (mbox s)" using s'(1) by auto
    then show ?thesis by (simp add: chMBGetSizeI_def mb_store_def)
  qed
  ultimately show ?thesis using s' mb_inv_content [OF s'(2)] by (simp add: mb_idle_def)
qed

lemma mb_idle_fetch:
  assumes "mb_idle s" "mb_content s \<noteq> []"
  shows "\<exists>x s'. chMBFetchI s = Some (MSG_OK, Some x, s') \<and> mb_idle s' \<and> mb_content s = x # mb_content s' \<and> chMBGetSizeI s' = chMBGetSizeI s"
proof -
  have i: "mb_inv 0 0 (mb_content s) s" and q: "s_queue (sems s (fullsem s)) = []" "s_queue (sems s (emptysem s)) = []"
    using assms(1) by (simp_all add: mb_idle_def)
  note d = mb_invD [OF i]
  have e: "0 < s_cnt (sems s (fullsem s))" using d(6) assms(2) by (cases "mb_content s") auto
  let ?s = "chSemFastWaitI (fullsem s) s"
  from taken_signal [OF fast_wait_inv(2) [OF i e]]
  obtain s' x c' where s': "chSemSignalI (emptysem s) (?s\<lparr>mbox := snd (mb_take (mbox s))\<rparr>) = Some s'" "mb_content s = x # c'" "fst (mb_take (mbox s)) = x"
    "mb_inv 0 0 c' s'" "s_queue (sems s' (fullsem s)) = []" "s_queue (sems s' (emptysem s)) = []" "mb_fullsem (mbox s') = fullsem s" "mb_emptysem (mbox s') = emptysem s"
    using q d(5) by auto
  have "chMBFetchI s = Some (MSG_OK, Some x, s')"
    using e s'(1,3) by (cases "mb_take (mbox s)") (simp add: chMBFetchI_def chSemGetCounterI_def Let_def)
  moreover have "chMBGetSizeI s' = chMBGetSizeI s"
  proof -
    have "sem_ok (?s\<lparr>mbox := snd (mb_take (mbox s))\<rparr>)" using mb_invD(4) [OF fast_wait_inv(2) [OF i e]] by (simp only: sem_ok_mbox)
    from signalI_effect [OF this, of "emptysem s"] have "mbox s' = snd (mb_take (mbox s))" using s'(1) by auto
    then show ?thesis by (simp add: chMBGetSizeI_def mb_take_def)
  qed
  ultimately show ?thesis using s' mb_inv_content [OF s'(4)] by (simp add: mb_idle_def)
qed

interpretation mb: bounded_fifo mb_idle mb_content chMBGetSizeI "\<lambda>msg s. snd (the (chMBPostI msg s))"
  "\<lambda>s. let (_, x, s') = the (chMBFetchI s) in (the x, s')"
proof unfold_locales
  fix q :: mb_system and b
  show "length (mb_content q) \<le> chMBGetSizeI q" if "mb_idle q"
    using that mb_invD(7) [of 0 0 "mb_content q" q] by (simp add: mb_idle_def chMBGetSizeI_def)
  show "mb_idle (snd (the (chMBPostI b q))) \<and> mb_content (snd (the (chMBPostI b q))) = mb_content q @ [b] \<and>
      chMBGetSizeI (snd (the (chMBPostI b q))) = chMBGetSizeI q" if "mb_idle q" "length (mb_content q) < chMBGetSizeI q"
    using mb_idle_post [OF that, of b] by auto
  show "mb_idle (snd (let (_, x, s') = the (chMBFetchI q) in (the x, s'))) \<and>
      mb_content q = fst (let (_, x, s') = the (chMBFetchI q) in (the x, s')) # mb_content (snd (let (_, x, s') = the (chMBFetchI q) in (the x, s'))) \<and>
      chMBGetSizeI (snd (let (_, x, s') = the (chMBFetchI q) in (the x, s'))) = chMBGetSizeI q" if "mb_idle q" "mb_content q \<noteq> []"
    using mb_idle_fetch [OF that] by auto
qed

section \<open>Reset\<close>

lemma reset_loop_mbox:
  fixes s :: mb_system
  assumes "sem_reset_loop i n s = Some s'"
  shows "mbox s' = mbox s"
  using assms
proof (induction "nat (- n)" arbitrary: n s)
  case 0
  then show ?case by (subst (asm) sem_reset_loop.simps) simp
next
  case (Suc m)
  have "queue_lifo_remove (s_queue (sems s i)) \<bind> (\<lambda>(t, q). sem_reset_loop i (n + 1)
      (set_msg t MSG_RESET (chSchReadyI t (upd_sem i (\<lambda>sm. sm\<lparr>s_queue := q\<rparr>) s)))) = Some s'"
    using Suc.prems Suc.hyps(2) by (subst (asm) sem_reset_loop.simps) (simp split: if_splits)
  then obtain t q where "sem_reset_loop i (n + 1) (set_msg t MSG_RESET (chSchReadyI t (upd_sem i (\<lambda>sm. sm\<lparr>s_queue := q\<rparr>) s))) = Some s'"
    by (auto simp: bind_eq_Some_conv)
  from Suc.hyps(1) [OF _ this] Suc.hyps(2) show ?case by simp
qed

lemma sem_reset_mbox:
  fixes s :: mb_system
  shows "chSemResetI i n s = Some s' \<Longrightarrow> mbox s' = mbox s"
  using reset_loop_mbox by (fastforce simp: chSemResetI_def)

lemma mbox_k_ok: "k_ok (s\<lparr>mbox := m\<rparr>) = k_ok s"
proof -
  have e: "state_of (s\<lparr>mbox := m\<rparr>) = state_of s" "waiters (s\<lparr>mbox := m\<rparr>) = waiters s" "prio_of (s\<lparr>mbox := m\<rparr>) = prio_of s"
    "msgq (s\<lparr>mbox := m\<rparr>) = msgq s" by (auto simp: state_of_def waiters_def msgq_def prio_of_def fun_eq_iff)
  have "queued (s\<lparr>mbox := m\<rparr>) u st = queued s u st" for u st by (cases st) (simp_all add: e)
  then show ?thesis by (simp add: k_ok_def link_ok_def cur_ok_def e)
qed

text \<open>
  C25: a mailbox reset forgets the posting threads that were already released.  Such a thread has a
  cell and runs after the reset: the counters of messages and of free cells then add up to one
  more than the mailbox has cells, so a later post overwrites a message.
\<close>

theorem mailbox_reset_race:
  assumes "k_ok s" "mb_inv (Suc p) f c s"
  shows "\<exists>s1 s2. chMBReset s = Some s1 \<and> mb_post_rest MSG_OK msg s1 = Some s2 \<and>
    chMBGetUsedCountI s2 + chMBGetFreeCountI s2 = int (chMBGetSizeI s2) + 1"
proof -
  note d = mb_invD [OF assms(2)]
  let ?m = "(mbox s)\<lparr>mb_wrptr := 0, mb_rdptr := 0\<rparr>" let ?s = "s\<lparr>mbox := ?m\<rparr>" let ?n = "int (length (mb_buffer (mbox s)))"
  have s: "k_ok ?s" "sem_ok ?s" using assms(1) d(4) by (simp_all only: mbox_k_ok sem_ok_mbox)
  obtain a where a: "chSemResetI (emptysem s) ?n ?s = Some a" "k_ok a" "sem_ok a" "sems a = (sems s)(emptysem s := \<lparr>s_queue = [], s_cnt = ?n\<rparr>)"
    using sem_resetI_ok [OF s, of ?n "emptysem s"] by auto
  have ma: "mbox a = ?m" using sem_reset_mbox [OF a(1)] by simp
  obtain b where b: "chSemResetI (fullsem s) 0 a = Some b" "k_ok b" "sem_ok b" "sems b = (sems a)(fullsem s := \<lparr>s_queue = [], s_cnt = 0\<rparr>)"
    using sem_resetI_ok [OF a(2,3), of 0 "fullsem s"] by auto
  have mb: "mbox b = ?m" using sem_reset_mbox [OF b(1)] ma by simp
  obtain s1 where s1: "chSchRescheduleS b = Some s1" using reschedule_returns by blast
  note r1 = reschedule_mbox [OF s1]
  have r: "chMBReset s = Some s1" using a(1) b(1) ma s1 by (simp add: chMBReset_def chMBResetI_def Let_def)
  have "sem_ok (s1\<lparr>mbox := mb_store msg (mbox s1)\<rparr>)" using b(3) r1(2) by (simp add: sem_ok_def)
  from signalI_effect [OF this, of "fullsem s"] obtain t where
    t: "chSemSignalI (fullsem s) (s1\<lparr>mbox := mb_store msg (mbox s1)\<rparr>) = Some t" "mbox t = mb_store msg (mbox s1)" "sem_ok t"
      "sems t (emptysem s) = sems s1 (emptysem s)" "nat (s_cnt (sems t (fullsem s))) = 1" "s_queue (sems t (fullsem s)) = []"
    using d(5) r1(2) b(4) by auto
  have full: "s_cnt (sems t (fullsem s)) = 1" using t(5) by simp
  obtain s2 where s2: "chSchRescheduleS t = Some s2" using reschedule_returns by blast
  note r2 = reschedule_mbox [OF s2]
  have m2: "mb_fullsem (mbox s2) = fullsem s" "mb_emptysem (mbox s2) = emptysem s" "chMBGetSizeI s2 = length (mb_buffer (mbox s))"
    by (simp_all add: r2(1) t(2) r1(1) mb mb_store_def chMBGetSizeI_def)
  have "mb_post_rest MSG_OK msg s1 = Some s2" using t(1) s2 by (simp add: mb_post_rest_def r1(1) mb)
  moreover have "chMBGetUsedCountI s2 + chMBGetFreeCountI s2 = int (chMBGetSizeI s2) + 1"
    unfolding chMBGetUsedCountI_def chMBGetFreeCountI_def chSemGetCounterI_def m2 r2(2) full t(4) r1(2) b(4) a(4) using d(5) by simp
  ultimately show ?thesis using r by blast
qed
text \<open>Thread 2 runs and has fetched from a full mailbox of two cells; the poster it released, thread 1, is ready.\<close>

definition race_mb :: mb_system where
  "race_mb = \<lparr>threads = (\<lambda>t. \<lparr>p_prio = t, p_realprio = t, p_state = (if t = 2 then CH_STATE_CURRENT else if t < 2 then CH_STATE_READY else CH_STATE_FINAL),
        rdymsg = 0, p_epending = 0, p_waiting = [], p_terminate = False, p_msgqueue = [], p_msg = 0, p_mtxlist = None\<rparr>), r_queue = [1, 0], currp = 2, vtlist = vt_init, trefs = (\<lambda>_. None),
      tqueues = (\<lambda>_. []), sems = (\<lambda>i. \<lparr>s_queue = [], s_cnt = (if i = 0 then 1 else 0)\<rparr>),
      mtxs = (\<lambda>_. \<lparr>m_queue = [], m_owner = None, m_next = None\<rparr>), conds = (\<lambda>_. []),
      mbox = \<lparr>mb_buffer = [5, 6], mb_wrptr = 0, mb_rdptr = 1, mb_fullsem = 0, mb_emptysem = 1\<rparr>\<rparr>"

lemma race_mb_ok: "k_ok race_mb" "mb_inv 1 0 [6] race_mb"
proof -
  have st: "state_of race_mb u = (if u = 2 then CH_STATE_CURRENT else if u < 2 then CH_STATE_READY else CH_STATE_FINAL)"
    "waiters race_mb u = []" "msgq race_mb u = []" "prio_of race_mb u = u" for u
    by (simp_all add: race_mb_def state_of_def waiters_def msgq_def prio_of_def)
  have f: "r_queue race_mb = [1, 0]" "currp race_mb = 2" "trefs race_mb = (\<lambda>_. None)" "tqueues race_mb = (\<lambda>_. [])"
    "s_queue (sems race_mb i) = []" "m_queue (mtxs race_mb i) = []" "conds race_mb i = []" for i by (simp_all add: race_mb_def)
  have "link_ok {} race_mb"
  proof (rule link_okI)
    fix t s
    show "queued race_mb t s \<longleftrightarrow> is_link s \<and> state_of race_mb t = s \<and> t \<notin> {}" using st f by (cases s) auto
  qed (use st f in simp_all)
  then show "k_ok race_mb" using st f by (simp add: k_ok_def cur_ok_def)
  show "mb_inv 1 0 [6] race_mb" by (simp add: race_mb_def mb_inv_def chMBGetSizeI_def sem_ok_def ring_def)
qed

theorem mailbox_reset_race_witness:
  "\<exists>s1 s2. chMBReset race_mb = Some s1 \<and> mb_post_rest MSG_OK 7 s1 = Some s2 \<and>
     chMBGetUsedCountI s2 + chMBGetFreeCountI s2 = int (chMBGetSizeI s2) + 1"
  using mailbox_reset_race [of race_mb 0 0 "[6]" 7] race_mb_ok by simp

end
