(* ===== verification/Kernel.thy ===== *)
theory Kernel
  imports Sem
begin

text \<open>
  The kernel as a transition system: \<^verbatim>\<open>chSysInit\<close>, then calls by the running thread, interrupt
  handlers, and the rest of a blocking call when its thread runs again.  Thread 0 is the main
  thread, thread 1 the idle thread, which never calls the kernel (\<^verbatim>\<open>_idle_thread\<close>).
\<close>

section \<open>Start up\<close>

abbreviation (input) NORMALPRIO :: nat where "NORMALPRIO \<equiv> 64"

text \<open>A thread that was not created yet is in the final state, a semaphore that was not is empty.\<close>

definition blank_thread :: thread where
  "blank_thread = \<lparr>p_prio = 0, p_realprio = 0, p_state = CH_STATE_FINAL, rdymsg = 0, p_epending = 0, p_waiting = [], p_terminate = False,
     p_msgqueue = [], p_msg = 0, p_mtxlist = None\<rparr>"

definition scheduler_init :: kernel where
  "scheduler_init = \<lparr>threads = (\<lambda>_. blank_thread), r_queue = [], currp = 0, vtlist = vt_init, trefs = (\<lambda>_. None),
     tqueues = (\<lambda>_. []), sems = (\<lambda>_. \<lparr>s_queue = [], s_cnt = 0\<rparr>),
     mtxs = (\<lambda>_. \<lparr>m_queue = [], m_owner = None, m_next = None\<rparr>), conds = (\<lambda>_. [])\<rparr>"

definition chSysInit :: kernel where
  "chSysInit = chThdCreateStatic 1 IDLEPRIO (set_state 0 CH_STATE_CURRENT (chThdCreateI 0 NORMALPRIO (scheduler_init\<lparr>currp := 0\<rparr>)))"

section \<open>Calls\<close>

text \<open>What a thread may ask of the kernel; \<open>now\<close> is the system time the call reads.\<close>

datatype kcall = SemWait nat | SemWaitTimeout systime_t nat systime_t | SemSignal nat | SemReset nat int | SemSignalWait nat nat
  | Sleep systime_t systime_t | SleepUntil systime_t systime_t systime_t | Yield | Suspend nat | SuspendTimeout systime_t nat systime_t
  | Resume nat msg_t | EnqueueTimeout systime_t nat systime_t | SetPriority nat | CreateStatic nat nat | Terminate nat
  | WaitExit nat | Exit msg_t

fun kcall_exec :: "kcall \<Rightarrow> kernel \<Rightarrow> kernel option" where
  "kcall_exec (SemWait s) k = map_option snd (chSemWait s k)"
| "kcall_exec (SemWaitTimeout now s time) k = map_option snd (chSemWaitTimeout now s time k)"
| "kcall_exec (SemSignal s) k = chSemSignal s k"
| "kcall_exec (SemReset s n) k = chSemReset s n k"
| "kcall_exec (SemSignalWait s w) k = map_option snd (chSemSignalWait s w k)"
| "kcall_exec (Sleep now time) k = chThdSleep now time k"
| "kcall_exec (SleepUntil now1 now2 time) k = chThdSleepUntil now1 now2 time k"
| "kcall_exec Yield k = chThdYield k"
| "kcall_exec (Suspend r) k = chThdSuspendS r k"
| "kcall_exec (SuspendTimeout now r time) k = map_option snd (chThdSuspendTimeoutS now r time k)"
| "kcall_exec (Resume r m) k = Some (chThdResume r m k)"
| "kcall_exec (EnqueueTimeout now q time) k = map_option snd (chThdEnqueueTimeoutS now q time k)"
| "kcall_exec (SetPriority p) k = chThdSetPriority p k"
| "kcall_exec (CreateStatic t p) k = Some (chThdCreateStatic t p k)"
| "kcall_exec (Terminate t) k = Some (chThdTerminate t k)"
| "kcall_exec (WaitExit t) k = chThdWait t k"
| "kcall_exec (Exit m) k = chThdExitS m k"

text \<open>The conditions the debug checks of the calls state, and a fresh working area for a new thread.\<close>

fun kcall_pre :: "kcall \<Rightarrow> kernel \<Rightarrow> bool" where
  "kcall_pre (SemReset s n) k \<longleftrightarrow> 0 \<le> n"
| "kcall_pre (Suspend r) k \<longleftrightarrow> trefs k r = None"
| "kcall_pre (SuspendTimeout now r time) k \<longleftrightarrow> trefs k r = None"
| "kcall_pre (CreateStatic t p) k \<longleftrightarrow> state_of k t = CH_STATE_FINAL \<and> waiters k t = [] \<and> msgq k t = []"
| "kcall_pre (WaitExit t) k \<longleftrightarrow> t \<noteq> currp k"
| "kcall_pre _ k \<longleftrightarrow> True"

text \<open>What an interrupt handler may ask.\<close>

datatype icall = SemSignalI nat | SemResetI nat int | SemAddCounterI nat nat | ResumeI nat msg_t | DequeueNextI nat msg_t
  | DequeueAllI nat msg_t  | Tick "nat \<Rightarrow> systime_t"

fun icall_exec :: "icall \<Rightarrow> kernel \<Rightarrow> kernel option" where
  "icall_exec (SemSignalI s) k = chSemSignalI s k"
| "icall_exec (SemResetI s n) k = chSemResetI s n k"
| "icall_exec (SemAddCounterI s n) k = chSemAddCounterI s n k"
| "icall_exec (ResumeI r m) k = Some (chThdResumeI r m k)"
| "icall_exec (DequeueNextI q m) k = tq_dequeue_next q m k"
| "icall_exec (DequeueAllI q m) k = tq_dequeue_all q m k"
| "icall_exec (Tick clk) k = kernel_tick clk k"

fun icall_pre :: "icall \<Rightarrow> bool" where
  "icall_pre (SemResetI s n) \<longleftrightarrow> 0 \<le> n"
| "icall_pre _ \<longleftrightarrow> True"

fun isr_exec :: "icall list \<Rightarrow> kernel \<Rightarrow> kernel option" where
  "isr_exec [] k = chSchPreemption k"
| "isr_exec (c # cs) k = do { k \<leftarrow> icall_exec c k; isr_exec cs k }"

text \<open>
  A thread whose timer is armed when it runs is inside \<^verbatim>\<open>chSchGoSleepTimeoutS\<close> with the kernel
  locked: the only step is to disarm the timer.
\<close>

inductive kernel_step :: "kernel \<Rightarrow> kernel \<Rightarrow> bool" where
  Call: "kernel_step k k'" if "\<not> chVTIsArmedI (currp k) (vtlist k)" "currp k \<noteq> 1" "kcall_pre c k" "kcall_exec c k = Some k'"
| Interrupt: "kernel_step k k'" if "\<not> chVTIsArmedI (currp k) (vtlist k)" "\<forall>c \<in> set cs. icall_pre c" "isr_exec cs k = Some k'"
| Resumed: "kernel_step k k'" if "chVTIsArmedI (currp k) (vtlist k)" "time \<noteq> TIME_INFINITE" "k' = snd (sleep_resumed now time k)"

inductive kernel_reach :: "kernel \<Rightarrow> bool" where
  Init: "kernel_reach chSysInit"
| Step: "kernel_reach k \<Longrightarrow> kernel_step k k' \<Longrightarrow> kernel_reach k'"

section \<open>Blocking calls\<close>

lemma current_unlinked:
  assumes "k_ok k"
  shows "link_ok {} k" "cur_ok k" "\<not> is_link (state_of k (currp k))"
  using assms cur_self [of k] by (auto simp: k_ok_def)

lemma enter_unlinked:
  assumes "k_ok k" "\<not> is_link st"
  shows "link_ok {} (set_state (currp k) st k)"
  by (rule enter_ok [OF current_unlinked(1,3) [OF assms(1)], where st = st])
    (use assms link_okD [OF current_unlinked(1) [OF assms(1)]] in simp_all)

lemma enter_ref:
  assumes "k_ok k" "trefs k r = None"
  shows "link_ok {} (set_state (currp k) (CH_STATE_SUSPENDED r) (k\<lparr>trefs := (trefs k)(r := Some (currp k))\<rparr>))"
proof (rule enter_ok [OF current_unlinked(1,3) [OF assms(1)], where st = "CH_STATE_SUSPENDED r"])
  fix u st
  show "queued (set_state (currp k) (CH_STATE_SUSPENDED r) (k\<lparr>trefs := (trefs k)(r := Some (currp k))\<rparr>)) u st \<longleftrightarrow>
      queued k u st \<or> u = currp k \<and> st = CH_STATE_SUSPENDED r \<and> is_link (CH_STATE_SUSPENDED r)"
    using assms(2) by (cases st) auto
qed (use link_okD [OF current_unlinked(1) [OF assms(1)]] in simp_all)

lemma enter_tqueue:
  assumes "k_ok k"
  shows "link_ok {} (set_state (currp k) (CH_STATE_QUEUED q) (k\<lparr>tqueues := (tqueues k)(q := queue_insert (currp k) (tqueues k q))\<rparr>))"
proof -
  note c = current_unlinked [OF assms]
  have n: "currp k \<notin> set (tqueues k q)" using link_queued [OF c(1), of "currp k" "CH_STATE_QUEUED q"] c(3) by auto
  show ?thesis
  proof (rule enter_ok [OF c(1,3), where st = "CH_STATE_QUEUED q"])
    fix u st
    show "queued (set_state (currp k) (CH_STATE_QUEUED q) (k\<lparr>tqueues := (tqueues k)(q := queue_insert (currp k) (tqueues k q))\<rparr>)) u st \<longleftrightarrow>
        queued k u st \<or> u = currp k \<and> st = CH_STATE_QUEUED q \<and> is_link (CH_STATE_QUEUED q)"
      by (cases st) (auto simp: queue_insert_def)
  qed (use n link_okD [OF c(1)] in \<open>simp_all add: queue_insert_def\<close>)
qed

lemma waiters_add [simp]:
  "waiters (upd_thread t (\<lambda>th. th\<lparr>p_waiting := f th\<rparr>) k) = (waiters k)(t := f (threads k t))"
  "state_of (upd_thread t (\<lambda>th. th\<lparr>p_waiting := f th\<rparr>) k) = state_of k"
  "prio_of (upd_thread t (\<lambda>th. th\<lparr>p_waiting := f th\<rparr>) k) = prio_of k"
  "msgq (upd_thread t (\<lambda>th. th\<lparr>p_waiting := f th\<rparr>) k) = msgq k"
  by (auto simp: waiters_def msgq_def state_of_def prio_of_def fun_eq_iff)

lemma enter_waiters:
  assumes "k_ok k"
  shows "link_ok {} (set_state (currp k) (CH_STATE_WTEXIT t) (upd_thread t (\<lambda>th. th\<lparr>p_waiting := currp k # p_waiting th\<rparr>) k))"
proof -
  note c = current_unlinked [OF assms]
  have n: "currp k \<notin> set (waiters k t)" using link_queued [OF c(1), of "currp k" "CH_STATE_WTEXIT t"] c(3) by auto
  show ?thesis
  proof (rule enter_ok [OF c(1,3), where st = "CH_STATE_WTEXIT t"])
    fix u st
    show "queued (set_state (currp k) (CH_STATE_WTEXIT t) (upd_thread t (\<lambda>th. th\<lparr>p_waiting := currp k # p_waiting th\<rparr>) k)) u st \<longleftrightarrow>
        queued k u st \<or> u = currp k \<and> st = CH_STATE_WTEXIT t \<and> is_link (CH_STATE_WTEXIT t)"
      by (cases st) (auto simp: waiters_def [symmetric])
  qed (use n link_okD [OF c(1)] in \<open>simp_all add: waiters_def [symmetric]\<close>)
qed

lemma call_blocks:
  assumes "k_ok k" "cur_ok k1" "currp k1 = currp k" "keeps k k1" "sems k1 = sems k" "link_ok {} (set_state (currp k) st k1)" "\<not> runnable st"
    "chSchGoSleepS st k1 = Some k' \<or> timed st \<and> chSchGoSleepTimeoutS now st time k1 = Some k'"
  shows "k_ok k' \<and> highest k' \<and> sems k' = sems k \<and> blocks k k'"
proof -
  have l: "link_ok {} (set_state (currp k1) st k1)" using assms(3,6) by simp
  have "k_ok k' \<and> highest k' \<and> sems k' = sems k1 \<and> blocks k1 k'"
    using assms(8) go_sleep_blocks [OF assms(2) l assms(7), of k'] go_sleep_timeout_blocks [OF assms(2) l assms(7), of now time k'] by blast
  then show ?thesis using blocks_from [OF _ assms(3,4)] assms(5) by simp
qed

lemma cur_ok_upd [simp]: "cur_ok (k\<lparr>trefs := x\<rparr>) = cur_ok k" "cur_ok (k\<lparr>tqueues := y\<rparr>) = cur_ok k" "cur_ok (k\<lparr>conds := z\<rparr>) = cur_ok k"
  "cur_ok (k\<lparr>mtxs := ms\<rparr>) = cur_ok k"
  "cur_ok (upd_thread t (\<lambda>th. th\<lparr>p_waiting := f th\<rparr>) k) = cur_ok k"
  by (simp_all add: cur_ok_def)

lemma sleep_call: "k_ok k \<Longrightarrow> chThdSleepS now time k = Some k' \<Longrightarrow> k_ok k' \<and> highest k' \<and> sems k' = sems k \<and> blocks k k'"
  by (rule call_blocks [of k k CH_STATE_SLEEPING k' now time])
    (simp_all add: enter_unlinked keeps_refl runnable_def current_unlinked(2) chThdSleepS_def)

lemma suspend_call:
  assumes "k_ok k" "trefs k r = None"
    "chThdSuspendS r k = Some k' \<or> chThdSuspendTimeoutS now r time k = Some (None, k')"
  shows "k_ok k' \<and> highest k' \<and> sems k' = sems k \<and> blocks k k'"
  by (rule call_blocks [of k "k\<lparr>trefs := (trefs k)(r := Some (currp k))\<rparr>" "CH_STATE_SUSPENDED r" k' now time])
    (use assms in \<open>auto simp: enter_ref keeps_eq runnable_def current_unlinked(2) chThdSuspendS_def chThdSuspendTimeoutS_def
       bind_eq_Some_conv split: if_splits\<close>)

lemma enqueue_call:
  assumes "k_ok k" "chThdEnqueueTimeoutS now q time k = Some (None, k')"
  shows "k_ok k' \<and> highest k' \<and> sems k' = sems k \<and> blocks k k'"
  by (rule call_blocks [of k "k\<lparr>tqueues := (tqueues k)(q := queue_insert (currp k) (tqueues k q))\<rparr>" "CH_STATE_QUEUED q" k' now time])
    (use assms in \<open>auto simp: enter_tqueue keeps_eq runnable_def current_unlinked(2) chThdEnqueueTimeoutS_def
       bind_eq_Some_conv split: if_splits\<close>)

lemma wait_exit_call:
  assumes "k_ok k" "highest k" "chThdWait t k = Some k'"
  shows "k_ok k' \<and> highest k' \<and> sems k' = sems k \<and> blocks k k'"
proof (cases "p_state (threads k t) = CH_STATE_FINAL")
  case True
  then show ?thesis using assms by (simp add: chThdWait_def keeps_blocks keeps_refl)
next
  case False
  show ?thesis
    by (rule call_blocks [of k "upd_thread t (\<lambda>th. th\<lparr>p_waiting := currp k # p_waiting th\<rparr>) k" "CH_STATE_WTEXIT t" k'])
      (use assms False in \<open>simp_all add: enter_waiters keeps_eq runnable_def current_unlinked(2) chThdWait_def\<close>)
qed

section \<open>Calls that do not block\<close>

lemma yield_call:
  assumes "k_ok k" "highest k" "chSchDoYieldS k = Some k'"
  shows "k_ok k' \<and> highest k' \<and> sems k' = sems k \<and> keeps k k'"
proof (cases "chSchCanYieldS k")
  case True
  then have "chSchDoRescheduleBehind k = Some k'" "firstprio k \<ge> prio_of k (currp k)"
    using assms(3) by (simp_all add: chSchDoYieldS_def chSchCanYieldS_def)
  then show ?thesis using yield_behind [OF assms(1)] keeps_yield [OF assms(3)] by blast
next
  case False
  then show ?thesis using assms by (simp add: chSchDoYieldS_def keeps_refl)
qed

lemma ref_unlink:
  assumes "k_ok k" "trefs k r = Some t"
  shows "link_ok {t} (k\<lparr>trefs := (trefs k)(r := None)\<rparr>)" "t \<noteq> currp k"
proof -
  note c = current_unlinked [OF assms(1)]
  have t: "state_of k t = CH_STATE_SUSPENDED r" using link_queued [OF c(1), of t "CH_STATE_SUSPENDED r"] assms(2) by simp
  then show "link_ok {t} (k\<lparr>trefs := (trefs k)(r := None)\<rparr>)" by (rule unlink_ref_ok [OF c(1)])
  show "t \<noteq> currp k" using t c(3) by auto
qed

lemma highest_upd [simp]: "highest (k\<lparr>trefs := x\<rparr>) = highest k" "highest (k\<lparr>tqueues := y\<rparr>) = highest k" "highest (k\<lparr>conds := z\<rparr>) = highest k"
  "highest (k\<lparr>mtxs := ms\<rparr>) = highest k"
  by (simp_all add: highest_def)

lemma resume_call:
  assumes "k_ok k" "highest k"
  shows "k_ok (chThdResumeS r m k) \<and> highest (chThdResumeS r m k) \<and> sems (chThdResumeS r m k) = sems k \<and> keeps k (chThdResumeS r m k)"
proof (cases "trefs k r")
  case (Some t)
  let ?k = "k\<lparr>trefs := (trefs k)(r := None)\<rparr>"
  note u = ref_unlink [OF assms(1) Some]
  have "cur_ok ?k" "t \<noteq> currp ?k" "highest ?k" using u(2) assms by (simp_all add: k_ok_def)
  note w = wakeupS_ok [OF u(1) this, where m = m]
  have "keeps k (chSchWakeupS t m ?k)" by (rule keeps_trans [OF keeps_eq keeps_wakeupS]) simp_all
  then show ?thesis using w Some by (simp add: chThdResumeS_def)
qed (use assms in \<open>simp add: chThdResumeS_def keeps_refl\<close>)

lemma ready_msg_ok: "link_ok {t} k \<Longrightarrow> cur_ok k \<Longrightarrow> t \<noteq> currp k \<Longrightarrow> k_ok (chSchReadyI t (set_msg t m k))"
  by (rule ready_ok) simp_all

lemma resumeI_call:
  assumes "k_ok k"
  shows "k_ok (chThdResumeI r m k) \<and> sems (chThdResumeI r m k) = sems k \<and> keeps k (chThdResumeI r m k) \<and> currp (chThdResumeI r m k) = currp k"
proof (cases "trefs k r")
  case (Some t)
  note u = ref_unlink [OF assms Some]
  have "k_ok (chSchReadyI t (set_msg t m (k\<lparr>trefs := (trefs k)(r := None)\<rparr>)))"
    by (rule ready_msg_ok [OF u(1)]) (use u(2) assms in \<open>simp_all add: k_ok_def\<close>)
  then show ?thesis using Some by (simp add: chThdResumeI_def keeps_def)
qed (use assms in \<open>simp add: chThdResumeI_def keeps_refl\<close>)

lemma dequeue_call:
  assumes "k_ok k" "tqueues k q = t # ts"
  shows "\<exists>k'. chThdDoDequeueNextI q m k = Some k' \<and> k_ok k' \<and> sems k' = sems k \<and> keeps k k' \<and> currp k' = currp k \<and> tqueues k' q = ts"
proof -
  note c = current_unlinked [OF assms(1)]
  have t: "state_of k t = CH_STATE_QUEUED q" using link_queued [OF c(1), of t "CH_STATE_QUEUED q"] assms(2) by simp
  have "link_ok {t} (k\<lparr>tqueues := (tqueues k)(q := ts)\<rparr>)" using unlink_tqueue_ok [OF c(1) t] assms(2) by simp
  then have "k_ok (chSchReadyI t (set_msg t m (k\<lparr>tqueues := (tqueues k)(q := ts)\<rparr>)))"
    by (rule ready_msg_ok) (use c t in auto)
  then show ?thesis using assms(2) by (simp add: chThdDoDequeueNextI_def queue_fifo_remove_def keeps_def)
qed

lemma dequeue_next_call:
  assumes "k_ok k"
  shows "\<exists>k'. tq_dequeue_next q m k = Some k' \<and> k_ok k' \<and> sems k' = sems k \<and> keeps k k' \<and> currp k' = currp k"
  using dequeue_call [OF assms, of q _ _ m] assms by (cases "tqueues k q") (auto simp: tq_dequeue_next_def keeps_refl)

lemma dequeue_all_call:
  assumes "k_ok k"
  shows "\<exists>k'. tq_dequeue_all q m k = Some k' \<and> k_ok k' \<and> sems k' = sems k \<and> keeps k k' \<and> currp k' = currp k"
  using assms
proof (induction "tqueues k q" arbitrary: k)
  case Nil
  then show ?case by (subst tq_dequeue_all.simps) (auto simp: keeps_refl)
next
  case (Cons t ts)
  obtain k1 where k1: "chThdDoDequeueNextI q m k = Some k1" "k_ok k1" "sems k1 = sems k" "keeps k k1" "currp k1 = currp k" "ts = tqueues k1 q"
    using dequeue_call [OF Cons.prems Cons.hyps(2) [symmetric], of m] by auto
  have "tq_dequeue_all q m k = tq_dequeue_all q m k1"
    using Cons.hyps(2) k1(1) by (subst tq_dequeue_all.simps) auto
  then show ?case using Cons.hyps(1) [OF k1(6,2)] k1(3,5) keeps_trans [OF k1(4)] by metis
qed

text \<open>Changing a thread that is in no ready list, without changing where it is linked.\<close>

lemma change_unlinked:
  assumes "link_ok {} k" "t \<notin> set (r_queue k)" "p_waiting (f (threads k t)) = p_waiting (threads k t)" "p_msgqueue (f (threads k t)) = p_msgqueue (threads k t)"
    "state_of k t = p_state (f (threads k t)) \<or> \<not> is_link (state_of k t) \<and> \<not> is_link (p_state (f (threads k t)))"
  shows "link_ok {} (upd_thread t f k)"
proof (rule link_okI)
  have w: "waiters (upd_thread t f k) = waiters k" "msgq (upd_thread t f k) = msgq k"
    using assms(3,4) by (auto simp: waiters_def msgq_def fun_eq_iff)
  have s: "state_of (upd_thread t f k) = (state_of k)(t := p_state (f (threads k t)))" by (auto simp: state_of_def fun_eq_iff)
  have p: "prio_of (upd_thread t f k) u = prio_of k u" if "u \<noteq> t" for u using that by (simp add: prio_of_def)
  fix u st
  have "queued (upd_thread t f k) u st = queued k u st" by (cases st) (simp_all add: w)
  then show "queued (upd_thread t f k) u st \<longleftrightarrow> is_link st \<and> state_of (upd_thread t f k) u = st \<and> u \<notin> {}"
    using link_queued [OF assms(1), of u st] assms(5) by (auto simp: s)
  show "distinct (waiters (upd_thread t f k) u)" "distinct (msgq (upd_thread t f k) u)" for u using link_okD(4,6) [OF assms(1)] by (simp_all add: w)
  have "sorted_wrt (\<lambda>a b. prio_of (upd_thread t f k) a \<ge> prio_of (upd_thread t f k) b) (r_queue k)"
    by (rule sorted_wrt_mono_rel [OF _ link_okD(5) [OF assms(1)]]) (metis assms(2) p)
  then show "sorted_wrt (\<lambda>a b. prio_of (upd_thread t f k) a \<ge> prio_of (upd_thread t f k) b) (r_queue (upd_thread t f k))" by simp
qed (use link_okD [OF assms(1)] in simp_all)

lemma set_priority_call:
  assumes "k_ok k" "chThdSetPriority p k = Some k'"
  shows "k_ok k' \<and> highest k' \<and> sems k' = sems k \<and> keeps k k'"
proof -
  let ?f = "\<lambda>th :: thread. (if p_prio th = p_realprio th \<or> p > p_prio th then th\<lparr>p_prio := p\<rparr> else th)\<lparr>p_realprio := p\<rparr>"
  let ?k = "upd_thread (currp k) ?f k"
  note c = current_unlinked [OF assms(1)]
  have n: "currp k \<notin> set (r_queue k)" using link_ready [OF c(1)] c(3) by auto
  have st: "state_of ?k = state_of k" by (auto simp: state_of_def fun_eq_iff)
  have "link_ok {} ?k" by (rule change_unlinked [OF c(1) n]) (simp_all add: state_of_def)
  then have ok: "k_ok ?k" using c(2) st by (simp add: k_ok_def cur_ok_def)
  have r: "chSchRescheduleS ?k = Some k'" using assms(2) by (simp add: chThdSetPriority_def)
  have "keeps k k'" by (rule keeps_trans [OF keeps_eq keeps_reschedule [OF r]]) (simp_all add: st)
  then show ?thesis using reschedule_ok(1-3) [OF ok r] by simp
qed

lemma create_call:
  assumes "k_ok k" "highest k" "state_of k t = CH_STATE_FINAL" "waiters k t = []" "msgq k t = []"
  shows "k_ok (chThdCreateStatic t p k) \<and> highest (chThdCreateStatic t p k) \<and> sems (chThdCreateStatic t p k) = sems k \<and>
    keeps (set_state t CH_STATE_WTSTART k) (chThdCreateStatic t p k) \<and> runnable (state_of (chThdCreateStatic t p k) t)"
proof -
  let ?k = "chThdCreateI t p k"
  note c = current_unlinked [OF assms(1)]
  have n: "t \<notin> set (r_queue k)" using link_ready [OF c(1)] assms(3) by auto
  have st: "state_of ?k = (state_of k)(t := CH_STATE_WTSTART)" by (auto simp: state_of_def chThdCreateI_def thread_init_def fun_eq_iff)
  have tc: "t \<noteq> currp k" using cur_self [OF c(2)] assms(3) by auto
  have l: "link_ok {} ?k" unfolding chThdCreateI_def
    by (rule change_unlinked [OF c(1) n]) (use assms(3-5) in \<open>simp_all add: waiters_def msgq_def thread_init_def\<close>)
  have "link_ok {t} ?k" using link_current [OF l, of t] st by simp
  moreover have "cur_ok ?k" using c(2) st tc by (auto simp: cur_ok_def chThdCreateI_def)
  moreover have "highest ?k" using assms(2) n tc by (auto simp: highest_def chThdCreateI_def prio_of_def)
  moreover have "t \<noteq> currp ?k" using tc by (simp add: chThdCreateI_def)
  ultimately have w: "k_ok (chSchWakeupS t MSG_OK ?k)" "highest (chSchWakeupS t MSG_OK ?k)" "sems (chSchWakeupS t MSG_OK ?k) = sems ?k"
    using wakeupS_ok [of t ?k] by blast+
  have "keeps (set_state t CH_STATE_WTSTART k) (chSchWakeupS t MSG_OK ?k)"
    by (rule keeps_trans [OF keeps_eq keeps_wakeupS]) (simp_all add: st, simp add: chThdCreateI_def)
  moreover have "runnable (state_of (chSchWakeupS t MSG_OK ?k) t)" by (simp add: chSchWakeupS_def Let_def)
  ultimately show ?thesis using w unfolding chThdCreateStatic_def by (simp add: chThdCreateI_def)
qed

section \<open>Exit\<close>

lemma fold_ready_simps [simp]:
  "currp (fold chSchReadyI ts k) = currp k" "sems (fold chSchReadyI ts k) = sems k" "vtlist (fold chSchReadyI ts k) = vtlist k"
  by (induction ts arbitrary: k) simp_all

lemma fold_ready_keeps: "keeps k (fold chSchReadyI ts k)"
  by (induction ts arbitrary: k) (auto intro: keeps_refl keeps_trans keeps_ready)

lemma fold_ready_ok: "link_ok (set ts) k \<Longrightarrow> cur_ok k \<Longrightarrow> currp k \<notin> set ts \<Longrightarrow> distinct ts \<Longrightarrow> k_ok (fold chSchReadyI ts k)"
proof (induction ts arbitrary: k)
  case (Cons t ts)
  have "link_ok (set ts) (chSchReadyI t k)" using ready_link [OF Cons.prems(1), of t] Cons.prems(4) by simp
  moreover have "cur_ok (chSchReadyI t k)" using Cons.prems(2,3) by (intro ready_cur) auto
  ultimately show ?case using Cons.IH [of "chSchReadyI t k"] Cons.prems(3,4) by simp
qed (simp add: k_ok_def)

text \<open>Emptying the list of the threads that wait for the exit of \<open>u\<close>.\<close>

lemma waiters_unlink:
  assumes "link_ok {} k"
  shows "link_ok (set (waiters k u)) (upd_thread u (\<lambda>th. th\<lparr>p_waiting := []\<rparr>) k)"
proof (rule link_okI)
  fix t st
  have w: "t \<in> set (waiters k u) \<longleftrightarrow> state_of k t = CH_STATE_WTEXIT u" using link_queued [OF assms, of t "CH_STATE_WTEXIT u"] by simp
  show "queued (upd_thread u (\<lambda>th. th\<lparr>p_waiting := []\<rparr>) k) t st \<longleftrightarrow>
      is_link st \<and> state_of (upd_thread u (\<lambda>th. th\<lparr>p_waiting := []\<rparr>) k) t = st \<and> t \<notin> set (waiters k u)"
    using link_queued [OF assms, of t st] w by (cases st) auto
qed (use link_okD [OF assms] in simp_all)

lemma exit_call:
  assumes "k_ok k" "chThdExitS m k = Some k'"
  shows "k_ok k' \<and> highest k' \<and> sems k' = sems k \<and> blocks k k'"
proof -
  let ?c = "currp k" let ?k = "upd_thread (currp k) (\<lambda>th. th\<lparr>p_waiting := []\<rparr>) (set_msg (currp k) m k)"
  let ?r = "fold chSchReadyI (waiters k ?c) ?k"
  note c = current_unlinked [OF assms(1)]
  have "link_ok (set (waiters k ?c)) ?k" using waiters_unlink [of "set_msg ?c m k" ?c] c(1) by simp
  moreover have "?c \<notin> set (waiters k ?c)" using link_queued [OF c(1), of ?c "CH_STATE_WTEXIT ?c"] c(3) by auto
  ultimately have ok: "k_ok ?r" using fold_ready_ok [of "waiters k ?c" ?k] c(2) link_okD(4) [OF c(1)] by simp
  have s: "chSchGoSleepS CH_STATE_FINAL ?r = Some k'"
    using assms(2) by (simp add: chThdExitS_def Let_def waiters_def)
  have kp: "keeps k ?r" by (rule keeps_trans [OF keeps_eq fold_ready_keeps]) simp_all
  have "link_ok {} (set_state ?c CH_STATE_FINAL ?r)" using enter_unlinked [OF ok, of CH_STATE_FINAL] by simp
  then show ?thesis
    using call_blocks [of k ?r CH_STATE_FINAL k'] assms(1) ok kp s by (simp add: k_ok_def runnable_def)
qed

section \<open>The timer interrupt\<close>

lemma sem_leave:
  assumes "sem_ok k" "t \<in> set (s_queue (sems k s))" "distinct (s_queue (sems k s))"
  shows "sem_ok (upd_sem s (\<lambda>sm. sm\<lparr>s_cnt := s_cnt sm + 1, s_queue := remove1 t (s_queue sm)\<rparr>) k)"
proof -
  let ?q = "s_queue (sems k s)"
  have l: "length ?q = Suc (length (remove1 t ?q))" using assms(2) by (simp add: length_remove1) (metis length_pos_if_in_set Suc_pred)
  moreover have "s_cnt (sems k s) = - int (length ?q)" using sem_okD [OF assms(1), of s] assms(2) by (cases ?q) auto
  ultimately have "s_cnt (sems k s) + 1 = - int (length (remove1 t ?q))" by simp
  then show ?thesis using assms(1) by (simp add: sem_ok_def)
qed

lemma wakeup_timed:
  assumes "k_ok k" "sem_ok k" "timed (state_of k t)" "t \<noteq> currp k"
  shows "k_ok (wakeup t k)" "sem_ok (wakeup t k)" "keeps k (wakeup t k)" "currp (wakeup t k) = currp k" "state_of (wakeup t k) t = CH_STATE_READY"
proof -
  note c = current_unlinked [OF assms(1)]
  have nc: "state_of k t \<noteq> CH_STATE_CURRENT" using not_other_current [OF c(2) assms(4)] .
  have st: "p_state (threads k t) = state_of k t" by (simp add: state_of_def)
  have unlinked: "k_ok (wakeup t k) \<and> sem_ok (wakeup t k) \<and> keeps k (wakeup t k) \<and> currp (wakeup t k) = currp k \<and> state_of (wakeup t k) t = CH_STATE_READY"
    if "state_of k t = st" "st = CH_STATE_SLEEPING \<or> (\<exists>m. st = CH_STATE_WTOREVT m \<or> st = CH_STATE_WTANDEVT m)" for st
  proof -
    have "link_ok {t} k" using link_current [OF c(1), of t] that by auto
    then have "k_ok (chSchReadyI t (set_msg t MSG_TIMEOUT k))" by (rule ready_msg_ok) (use c assms(4) in simp_all)
    moreover have "wakeup t k = chSchReadyI t (set_msg t MSG_TIMEOUT k)" using that st by (auto simp: wakeup_def)
    ultimately show ?thesis using assms(2) by (simp add: keeps_def sem_ok_def)
  qed
  have "k_ok (wakeup t k) \<and> sem_ok (wakeup t k) \<and> keeps k (wakeup t k) \<and> currp (wakeup t k) = currp k \<and> state_of (wakeup t k) t = CH_STATE_READY"
  proof (cases "state_of k t")
    case CH_STATE_READY
    then show ?thesis using assms st by (simp add: wakeup_def keeps_refl)
  next
    case (CH_STATE_SUSPENDED r)
    have "k_ok (chSchReadyI t (set_msg t MSG_TIMEOUT (k\<lparr>trefs := (trefs k)(r := None)\<rparr>)))"
      by (rule ready_msg_ok [OF unlink_ref_ok [OF c(1) CH_STATE_SUSPENDED]]) (use c assms(4) in simp_all)
    then show ?thesis using CH_STATE_SUSPENDED assms(2) st by (simp add: wakeup_def keeps_def sem_ok_def)
  next
    case (CH_STATE_QUEUED q)
    have "k_ok (chSchReadyI t (set_msg t MSG_TIMEOUT (k\<lparr>tqueues := (tqueues k)(q := remove1 t (tqueues k q))\<rparr>)))"
      by (rule ready_msg_ok [OF unlink_tqueue_ok [OF c(1) CH_STATE_QUEUED]]) (use c assms(4) in simp_all)
    then show ?thesis using CH_STATE_QUEUED assms(2) st by (simp add: wakeup_def keeps_def sem_ok_def queue_dequeue_def)
  next
    case (CH_STATE_WTCOND v)
    have "k_ok (chSchReadyI t (set_msg t MSG_TIMEOUT (k\<lparr>conds := (conds k)(v := remove1 t (conds k v))\<rparr>)))"
      by (rule ready_msg_ok [OF unlink_cond_ok [OF c(1) CH_STATE_WTCOND]]) (use c assms(4) in simp_all)
    then show ?thesis using CH_STATE_WTCOND assms(2) st by (simp add: wakeup_def keeps_def sem_ok_def queue_dequeue_def)
  next
    case (CH_STATE_WTSEM s)
    have t: "t \<in> set (s_queue (sems k s))" using link_queued [OF c(1), of t "CH_STATE_WTSEM s"] CH_STATE_WTSEM by simp
    let ?k = "upd_sem s (\<lambda>sm. sm\<lparr>s_cnt := s_cnt sm + 1, s_queue := remove1 t (s_queue sm)\<rparr>) k"
    have w: "wakeup t k = chSchReadyI t (set_msg t MSG_TIMEOUT ?k)"
      using CH_STATE_WTSEM st by (simp add: wakeup_def chSemFastSignalI_def queue_dequeue_def upd_sem_def)
    have "link_ok {t} ?k" using unlink_sem_ok [OF c(1) CH_STATE_WTSEM, of "(sems k s)\<lparr>s_cnt := s_cnt (sems k s) + 1\<rparr>"] by (simp add: upd_sem_def)
    then have "k_ok (wakeup t k)" unfolding w by (rule ready_msg_ok) (use c assms(4) in simp_all)
    moreover have "sem_ok (wakeup t k)"
      using sem_leave [OF assms(2) t link_okD(3) [OF c(1)]] sem_ok_sems [of "wakeup t k" ?k] unfolding w by simp
    ultimately show ?thesis by (simp add: w keeps_def)
  next
    case CH_STATE_SLEEPING
    then show ?thesis using unlinked [of CH_STATE_SLEEPING] by simp
  next
    case (CH_STATE_WTOREVT m)
    then show ?thesis using unlinked by simp
  next
    case (CH_STATE_WTANDEVT m)
    then show ?thesis using unlinked by simp
  qed (use assms(3) nc in \<open>simp_all add: timed_def\<close>)
  then show "k_ok (wakeup t k)" "sem_ok (wakeup t k)" "keeps k (wakeup t k)" "currp (wakeup t k) = currp k"
    "state_of (wakeup t k) t = CH_STATE_READY" by auto
qed

lemma wakeups_ok:
  assumes "k_ok k" "sem_ok k" "\<forall>v \<in> set vs. timed (state_of k (vt_par v)) \<and> vt_par v \<noteq> currp k"
  shows "k_ok (fold (\<lambda>v. wakeup (vt_par v)) vs k) \<and> sem_ok (fold (\<lambda>v. wakeup (vt_par v)) vs k) \<and>
    keeps k (fold (\<lambda>v. wakeup (vt_par v)) vs k) \<and> currp (fold (\<lambda>v. wakeup (vt_par v)) vs k) = currp k"
  using assms
proof (induction vs arbitrary: k)
  case (Cons v vs)
  have v: "timed (state_of k (vt_par v))" "vt_par v \<noteq> currp k" using Cons.prems(3) by simp_all
  note w = wakeup_timed [OF Cons.prems(1,2) v]
  have "\<forall>x \<in> set vs. timed (state_of (wakeup (vt_par v) k) (vt_par x)) \<and> vt_par x \<noteq> currp (wakeup (vt_par v) k)"
    using Cons.prems(3) w(3,4) runnable_timed unfolding keeps_def by (metis list.set_intros(2))
  from Cons.IH [OF w(1,2) this] show ?case using keeps_trans [OF w(3)] w(4) by simp
qed (simp add: keeps_refl)

section \<open>The invariant of the kernel\<close>

text \<open>Armed timers are sleep timers of threads that wait with a timeout, or are being resumed from it.\<close>

definition timers_ok :: "kernel \<Rightarrow> bool" where
  "timers_ok k \<longleftrightarrow> distinct (map fst (vt_keys (vtlist k))) \<and>
     (\<forall>(i, p) \<in> set (vt_keys (vtlist k)). p = i \<and> timed (state_of k i))"

definition kinv :: "kernel \<Rightarrow> bool" where
  "kinv k \<longleftrightarrow> k_ok k \<and> sem_ok k \<and> timers_ok k \<and> runnable (state_of k 1)"

lemma kinvD: "kinv k \<Longrightarrow> k_ok k" "kinv k \<Longrightarrow> sem_ok k" "kinv k \<Longrightarrow> timers_ok k" "kinv k \<Longrightarrow> runnable (state_of k 1)"
  by (simp_all add: kinv_def)

lemma timers_keep:
  assumes "timers_ok k" "keeps k k'"
  shows "timers_ok k'"
  using assms runnable_timed unfolding timers_ok_def keeps_def by (metis (no_types, lifting) case_prodE case_prodI2 prod.inject)

lemma kinv_keeps: "kinv k \<Longrightarrow> k_ok k' \<Longrightarrow> sem_ok k' \<Longrightarrow> keeps k k' \<Longrightarrow> kinv k'"
  using timers_keep [of k k'] unfolding kinv_def keeps_def by (metis runnable_def)

lemma not_armed: "timers_ok k \<Longrightarrow> \<not> chVTIsArmedI (currp k) (vtlist k) \<Longrightarrow> (i, p) \<in> set (vt_keys (vtlist k)) \<Longrightarrow> i \<noteq> currp k"
  by (force simp: armed_keys)

lemma set_state_timers:
  assumes "timers_ok k" "\<not> chVTIsArmedI t (vtlist k)"
  shows "timers_ok (set_state t st k)"
proof -
  have "i \<noteq> t" if "(i, p) \<in> set (vt_keys (vtlist k))" for i p using that assms(2) by (force simp: armed_keys)
  then show ?thesis using assms(1) unfolding timers_ok_def by auto
qed

lemma kinv_blocks:
  assumes "kinv k" "\<not> chVTIsArmedI (currp k) (vtlist k)" "currp k \<noteq> 1" "k_ok k'" "sem_ok k'" "blocks k k'"
  shows "kinv k'"
proof -
  note t = kinvD(3) [OF assms(1)]
  have b: "state_of k' u = state_of k u \<or> runnable (state_of k' u)" if "u \<noteq> currp k" for u using assms(6) that by (simp add: blocks_def)
  have old: "p = i \<and> timed (state_of k' i)" if "(i, p) \<in> set (vt_keys (vtlist k))" for i p
    using b [OF not_armed [OF t assms(2) that]] t that runnable_timed unfolding timers_ok_def by fastforce
  have "timers_ok k'"
  proof (cases "vtlist k' = vtlist k")
    case True
    then show ?thesis using old t unfolding timers_ok_def by auto
  next
    case False
    then obtain now d where st: "timed (state_of k' (currp k))" and v: "vtlist k' = chVTDoSetI now (sleep_timer (currp k)) d (vtlist k)"
      using assms(6) by (auto simp: blocks_def)
    obtain xs ys where xy: "vt_keys (vtlist k) = xs @ ys" "vt_keys (vtlist k') = xs @ (currp k, currp k) # ys"
      using set_keys [of "vtlist k" now "sleep_timer (currp k)" d] unfolding v by (auto simp: sleep_timer_def)
    have "currp k \<notin> fst ` set (vt_keys (vtlist k))" using assms(2) by (simp add: armed_keys)
    then show ?thesis using old st t unfolding timers_ok_def xy by auto
  qed
  moreover have "runnable (state_of k' 1)" using b [of 1] assms(3) kinvD(4) [OF assms(1)] by auto
  ultimately show ?thesis using assms(4,5) by (simp add: kinv_def)
qed

lemma kinv_create:
  assumes "kinv k" "highest k" "state_of k t = CH_STATE_FINAL" "waiters k t = []" "msgq k t = []"
  shows "kinv (chThdCreateStatic t p k) \<and> highest (chThdCreateStatic t p k)"
proof -
  note c = create_call [OF kinvD(1) [OF assms(1)] assms(2-5), of p]
  have "\<not> chVTIsArmedI t (vtlist k)" using kinvD(3) [OF assms(1)] assms(3) by (fastforce simp: timers_ok_def armed_keys timed_def)
  then have "timers_ok (chThdCreateStatic t p k)" using timers_keep [OF set_state_timers] kinvD(3) [OF assms(1)] c by blast
  moreover have "t \<noteq> 1" using kinvD(4) [OF assms(1)] assms(3) by (auto simp: runnable_def)
  then have "runnable (state_of (chThdCreateStatic t p k) 1)" using keeps_set [of t CH_STATE_WTSTART k _ 1] c kinvD(4) [OF assms(1)] by metis
  moreover have "sem_ok (chThdCreateStatic t p k)" using kinvD(2) [OF assms(1)] sem_ok_sems c by blast
  ultimately show ?thesis using c by (simp add: kinv_def)
qed

lemma terminate_call:
  assumes "k_ok k" "highest k"
  shows "k_ok (chThdTerminate t k) \<and> highest (chThdTerminate t k) \<and> sems (chThdTerminate t k) = sems k \<and> keeps k (chThdTerminate t k)"
proof -
  have "state_of (chThdTerminate t k) = state_of k" "waiters (chThdTerminate t k) = waiters k" "prio_of (chThdTerminate t k) = prio_of k"
      "msgq (chThdTerminate t k) = msgq k"
    by (auto simp: chThdTerminate_def state_of_def waiters_def msgq_def prio_of_def fun_eq_iff)
  moreover from this have "queued (chThdTerminate t k) u st = queued k u st" for u st by (cases st) (simp_all add: chThdTerminate_def)
  ultimately show ?thesis using assms by (simp add: k_ok_def link_ok_def cur_ok_def highest_def keeps_def) (simp add: chThdTerminate_def)
qed

text \<open>A call by a running thread.\<close>

lemma kcall_kinv:
  assumes "kinv k" "highest k" "\<not> chVTIsArmedI (currp k) (vtlist k)" "currp k \<noteq> 1" "kcall_pre c k" "kcall_exec c k = Some k'"
  shows "kinv k' \<and> highest k'"
proof -
  note K = kinvD(1,2) [OF assms(1)]
  have B: "kinv k' \<and> highest k'" if "k_ok k' \<and> highest k' \<and> sem_ok k' \<and> blocks k k'"
    using kinv_blocks [OF assms(1,3,4)] that by blast
  have S: "kinv k' \<and> highest k'" if "k_ok k' \<and> highest k' \<and> sems k' = sems k \<and> blocks k k'"
    using B that K(2) sem_ok_sems by blast
  have N: "kinv k' \<and> highest k'" if "k_ok k' \<and> highest k' \<and> sems k' = sems k \<and> keeps k k'"
    using S that keeps_blocks by blast
  have id: "k' = k \<Longrightarrow> kinv k' \<and> highest k'" using assms(1,2) by simp
  show ?thesis
  proof (cases c)
    case (SemWait s)
    then obtain m where "chSemWaitS s k = Some (m, k')" using assms(6) by (auto simp: chSemWait_def)
    then show ?thesis using sem_wait_ok [OF K assms(2)] B by blast
  next
    case (SemWaitTimeout now s time)
    then obtain m where "chSemWaitTimeoutS now s time k = Some (m, k')" using assms(6) by (auto simp: chSemWaitTimeout_def)
    then show ?thesis using sem_wait_ok [OF K assms(2)] B by blast
  next
    case (SemSignal s)
    then show ?thesis using assms(6) sem_signal_ok [OF K assms(2), of s] B keeps_blocks by auto
  next
    case (SemReset s n)
    obtain k1 where k1: "chSemResetI s n k = Some k1" "k_ok k1" "sem_ok k1" "keeps k k1"
      using sem_resetI_ok [OF K, of n s] assms(5) SemReset by auto
    have r: "chSchRescheduleS k1 = Some k'" using SemReset assms(6) k1(1) by (simp add: chSemReset_def)
    show ?thesis using B reschedule_ok(1-3) [OF k1(2) r] sem_ok_sems [of k' k1] k1(3) keeps_trans [OF k1(4) keeps_reschedule [OF r]] keeps_blocks by blast
  next
    case (SemSignalWait s w)
    then obtain m where "chSemSignalWait s w k = Some (m, k')" using assms(6) by auto
    then show ?thesis using sem_signal_wait_ok [OF K] B by blast
  next
    case (Sleep now time)
    then show ?thesis using assms(6) sleep_call [OF K(1)] S by (simp add: chThdSleep_def)
  next
    case (SleepUntil now1 now2 time)
    then have "chThdSleepS now2 (time - now1) k = Some k' \<or> k' = k" using assms(6) by (auto simp: chThdSleepUntil_def split: if_splits)
    then show ?thesis using sleep_call [OF K(1)] S id by blast
  next
    case Yield
    then show ?thesis using assms(6) yield_call [OF K(1) assms(2)] N by (simp add: chThdYield_def)
  next
    case (Suspend r)
    then show ?thesis using assms(5,6) suspend_call [OF K(1)] S by simp
  next
    case (SuspendTimeout now r time)
    then have "chThdSuspendTimeoutS now r time k = Some (None, k') \<or> k' = k" "trefs k r = None"
      using assms(5,6) by (auto simp: chThdSuspendTimeoutS_def bind_eq_Some_conv split: if_splits)
    then show ?thesis using suspend_call [OF K(1)] S id by blast
  next
    case (Resume r m)
    then show ?thesis using assms(6) resume_call [OF K(1) assms(2)] N by (auto simp: chThdResume_def)
  next
    case (EnqueueTimeout now q time)
    then have "chThdEnqueueTimeoutS now q time k = Some (None, k') \<or> k' = k"
      using assms(6) by (auto simp: chThdEnqueueTimeoutS_def bind_eq_Some_conv split: if_splits)
    then show ?thesis using enqueue_call [OF K(1)] S id by blast
  next
    case (SetPriority p)
    then show ?thesis using assms(6) set_priority_call [OF K(1)] N by simp
  next
    case (CreateStatic t p)
    then show ?thesis using assms(5,6) kinv_create [OF assms(1,2)] by auto
  next
    case (Terminate t)
    then show ?thesis using assms(6) terminate_call [OF K(1) assms(2)] N by auto
  next
    case (WaitExit t)
    then show ?thesis using assms(6) wait_exit_call [OF K(1) assms(2)] S by simp
  next
    case (Exit m)
    then show ?thesis using assms(6) exit_call [OF K(1)] S by simp
  qed
qed

lemma kernel_tick_kinv:
  assumes "kinv k" "\<not> chVTIsArmedI (currp k) (vtlist k)" "kernel_tick clk k = Some k'"
  shows "kinv k'" "currp k' = currp k" "\<not> chVTIsArmedI (currp k') (vtlist k')"
proof -
  note K = kinvD [OF assms(1)]
  obtain l where l: "chVTDoTickI clk quiet_cb (vtlist k) = Some l"
    and k': "k' = fold (\<lambda>v. wakeup (vt_par v)) (drop (length (vt_fired (vtlist k))) (vt_fired l)) (k\<lparr>vtlist := l\<rparr>)"
    using assms(3) by (auto simp: kernel_tick_def bind_eq_Some_conv)
  obtain n where n: "vt_timers l = drop n (vt_timers (vtlist k))" "vt_fired l = vt_fired (vtlist k) @ take n (vt_timers (vtlist k))"
    using tick_splits [OF l] by blast
  have sub: "set (vt_keys l) \<subseteq> set (vt_keys (vtlist k))" using n(1) set_drop_subset by (fastforce simp: vt_keys_def)
  have t: "timers_ok (k\<lparr>vtlist := l\<rparr>)"
    using K(3) sub by (auto simp: timers_ok_def vt_keys_def n(1) drop_map [symmetric] distinct_drop)
  have "\<forall>v \<in> set (take n (vt_timers (vtlist k))). timed (state_of (k\<lparr>vtlist := l\<rparr>) (vt_par v)) \<and> vt_par v \<noteq> currp (k\<lparr>vtlist := l\<rparr>)"
  proof
    fix v assume "v \<in> set (take n (vt_timers (vtlist k)))"
    then have "vt_key v \<in> set (vt_keys (vtlist k))" using in_set_takeD by (force simp: vt_keys_def)
    then show "timed (state_of (k\<lparr>vtlist := l\<rparr>) (vt_par v)) \<and> vt_par v \<noteq> currp (k\<lparr>vtlist := l\<rparr>)"
      using K(3) not_armed [OF K(3) assms(2)] by (fastforce simp: timers_ok_def)
  qed
  from wakeups_ok [OF _ _ this] have w: "k_ok k'" "sem_ok k'" "keeps (k\<lparr>vtlist := l\<rparr>) k'" "currp k' = currp k"
    using K(1,2) unfolding k' by (simp_all add: n(2) sem_ok_def)
  have "kinv (k\<lparr>vtlist := l\<rparr>)" using K t by (simp add: kinv_def sem_ok_def)
  then show "kinv k'" using kinv_keeps w by blast
  show "currp k' = currp k" by (rule w(4))
  show "\<not> chVTIsArmedI (currp k') (vtlist k')" using w(3,4) sub assms(2) by (auto simp: keeps_def armed_keys)
qed

lemma icall_kinv:
  assumes "kinv k" "\<not> chVTIsArmedI (currp k) (vtlist k)" "icall_pre c" "icall_exec c k = Some k'"
  shows "kinv k' \<and> currp k' = currp k \<and> \<not> chVTIsArmedI (currp k') (vtlist k')"
proof -
  note K = kinvD(1,2) [OF assms(1)]
  have I: ?thesis if "k_ok k' \<and> sem_ok k' \<and> keeps k k' \<and> currp k' = currp k"
    using that kinv_keeps [OF assms(1)] assms(2) by (simp add: keeps_def)
  show ?thesis
  proof (cases c)
    case (SemSignalI s)
    then show ?thesis using I sem_signalI_ok [OF K, of s] assms(4) by auto
  next
    case (SemResetI s n)
    then show ?thesis using I sem_resetI_ok [OF K, of n s] assms(3,4) by auto
  next
    case (SemAddCounterI s n)
    then show ?thesis using I sem_add_counter_ok [OF K, of s n] assms(4) by auto
  next
    case (ResumeI r m)
    then show ?thesis using I resumeI_call [OF K(1), of r m] assms(4) sem_ok_sems [of k' k] K(2) by auto
  next
    case (DequeueNextI q m)
    then show ?thesis using I dequeue_next_call [OF K(1), of q m] assms(4) sem_ok_sems [of k' k] K(2) by auto
  next
    case (DequeueAllI q m)
    then show ?thesis using I dequeue_all_call [OF K(1), of q m] assms(4) sem_ok_sems [of k' k] K(2) by auto
  next
    case (Tick clk)
    then show ?thesis using kernel_tick_kinv [OF assms(1,2)] assms(4) by simp
  qed
qed

lemma preemption_reschedules: "chSchPreemption k = chSchRescheduleS k"
  by (simp add: chSchPreemption_def chSchRescheduleS_def chSchIsPreemptionRequired_def chSchIsRescRequiredI_def)

lemma isr_kinv:
  assumes "kinv k" "\<not> chVTIsArmedI (currp k) (vtlist k)" "\<forall>c \<in> set cs. icall_pre c" "isr_exec cs k = Some k'"
  shows "kinv k' \<and> highest k'"
  using assms
proof (induction cs arbitrary: k)
  case Nil
  then have r: "chSchRescheduleS k = Some k'" by (simp add: preemption_reschedules)
  note K = kinvD(1,2) [OF Nil.prems(1)]
  have "sem_ok k'" using K(2) sem_ok_sems [of k' k] reschedule_ok(3) [OF K(1) r] by simp
  then show ?case using kinv_keeps [OF Nil.prems(1) _ _ keeps_reschedule [OF r]] reschedule_ok(1,2) [OF K(1) r] by blast
next
  case (Cons c cs)
  then obtain k1 where k1: "icall_exec c k = Some k1" "isr_exec cs k1 = Some k'" by (auto simp: bind_eq_Some_conv)
  then have "kinv k1" "\<not> chVTIsArmedI (currp k1) (vtlist k1)" using icall_kinv [OF Cons.prems(1,2) _ k1(1)] Cons.prems(3) by auto
  then show ?case using Cons.IH k1(2) Cons.prems(3) by simp
qed

lemma resumed_kinv:
  assumes "kinv k" "highest k"
  shows "kinv (snd (sleep_resumed now time k)) \<and> highest (snd (sleep_resumed now time k))"
proof -
  have t: "timers_ok (k\<lparr>vtlist := chVTDoResetI now (currp k) (vtlist k)\<rparr>)"
    using kinvD(3) [OF assms(1)] reset_keys [of "vtlist k" now "currp k"] by (auto simp: timers_ok_def distinct_map_filter)
  then show ?thesis using assms unfolding sleep_resumed_def by (auto simp: kinv_def sem_ok_def highest_def)
qed

lemma init_kinv: "kinv chSysInit" "highest chSysInit"
proof -
  define k0 where "k0 = set_state 0 CH_STATE_CURRENT (chThdCreateI 0 NORMALPRIO scheduler_init)"
  have st: "state_of k0 u = (if u = 0 then CH_STATE_CURRENT else CH_STATE_FINAL)" "waiters k0 u = []" "msgq k0 u = []" "r_queue k0 = []" "currp k0 = 0"
    "sems k0 = (\<lambda>_. \<lparr>s_queue = [], s_cnt = 0\<rparr>)" "vtlist k0 = vt_init" "trefs k0 = (\<lambda>_. None)" "tqueues k0 = (\<lambda>_. [])"
    "m_queue (mtxs k0 u) = []" "conds k0 u = []" for u
    by (simp_all add: k0_def state_of_def waiters_def msgq_def scheduler_init_def chThdCreateI_def thread_init_def blank_thread_def)
  have l: "link_ok {} k0"
  proof (rule link_okI)
    fix t s
    show "queued k0 t s \<longleftrightarrow> is_link s \<and> state_of k0 t = s \<and> t \<notin> {}" using st by (cases s) auto
  qed (use st in simp_all)
  then have "k_ok k0" "highest k0" "sem_ok k0" using st by (simp_all add: k_ok_def cur_ok_def highest_def sem_ok_def)
  moreover have e: "chSysInit = chThdCreateStatic 1 IDLEPRIO k0" by (simp add: chSysInit_def scheduler_init_def k0_def)
  ultimately have c: "k_ok chSysInit \<and> highest chSysInit \<and> sems chSysInit = sems k0 \<and> keeps (set_state 1 CH_STATE_WTSTART k0) chSysInit \<and>
      runnable (state_of chSysInit 1)"
    using create_call [of k0 1 IDLEPRIO] st by simp
  then have "vtlist chSysInit = vt_init" using st(7) by (simp add: keeps_def)
  then show "kinv chSysInit" "highest chSysInit"
    using c st(6) by (simp_all add: kinv_def sem_ok_def timers_ok_def vt_keys_def vt_init_def)
qed

lemma kernel_step_kinv: "kernel_step k k' \<Longrightarrow> kinv k \<Longrightarrow> highest k \<Longrightarrow> kinv k' \<and> highest k'"
  by (erule kernel_step.cases) (use kcall_kinv isr_kinv resumed_kinv in blast)+

lemma reach_kinv: "kernel_reach k \<Longrightarrow> kinv k \<and> highest k"
  by (induction rule: kernel_reach.induct) (auto simp: init_kinv dest: kernel_step_kinv)

end
