(* ===== verification/Scheduling.thy ===== *)
theory Scheduling
  imports Kernel
begin

text \<open>
  What the reachable states of the kernel guarantee: priority scheduling, calls that return,
  semaphores that refine tokens served in order of arrival, timeouts that fire in time.
\<close>

section \<open>Properties\<close>

text \<open>
  C19: priority scheduling.  In every state the kernel can reach, exactly one thread is running;
  the ready list holds exactly the ready threads, each once, in order of priority; no ready
  thread has a higher priority than the running one; the queue of a semaphore holds exactly the
  threads that wait on it, and its counter is the number of free tokens or minus the number of
  waiting threads.
\<close>

theorem kernel_priority_scheduling:
  assumes "kernel_reach k"
  shows "(\<forall>t. p_state (threads k t) = CH_STATE_CURRENT \<longleftrightarrow> t = currp k) \<and>
    (\<forall>t. t \<in> set (r_queue k) \<longleftrightarrow> p_state (threads k t) = CH_STATE_READY) \<and> distinct (r_queue k) \<and>
    sorted_wrt (\<lambda>a b. p_prio (threads k a) \<ge> p_prio (threads k b)) (currp k # r_queue k) \<and>
    (\<forall>s t. t \<in> set (s_queue (sems k s)) \<longleftrightarrow> p_state (threads k t) = CH_STATE_WTSEM s) \<and>
    (\<forall>s. distinct (s_queue (sems k s)) \<and> (if s_queue (sems k s) = [] then 0 \<le> s_cnt (sems k s)
       else s_cnt (sems k s) = - int (length (s_queue (sems k s)))))"
proof (intro conjI allI)
  have K: "k_ok k" "sem_ok k" "highest k" using reach_kinv [OF assms] by (simp_all add: kinv_def)
  note c = current_unlinked(1,2) [OF K(1)]
  fix t s
  show "p_state (threads k t) = CH_STATE_CURRENT \<longleftrightarrow> t = currp k" using cur_state [OF c(2)] by (simp add: state_of_def)
  show "t \<in> set (r_queue k) \<longleftrightarrow> p_state (threads k t) = CH_STATE_READY" using link_ready [OF c(1)] by (simp add: state_of_def)
  show "t \<in> set (s_queue (sems k s)) \<longleftrightarrow> p_state (threads k t) = CH_STATE_WTSEM s"
    using link_queued [OF c(1), of t "CH_STATE_WTSEM s"] by (simp add: state_of_def)
  show "distinct (r_queue k)" "distinct (s_queue (sems k s))" using link_okD [OF c(1)] by simp_all
  show "sorted_wrt (\<lambda>a b. p_prio (threads k a) \<ge> p_prio (threads k b)) (currp k # r_queue k)"
    using link_okD(5) [OF c(1)] K(3) by (simp add: highest_def prio_of_def)
  show "if s_queue (sems k s) = [] then 0 \<le> s_cnt (sems k s) else s_cnt (sems k s) = - int (length (s_queue (sems k s)))"
    by (rule sem_okD [OF K(2)])
qed

text \<open>
  The two worker threads of the firmware are created; the main thread goes to sleep for ten
  ticks and the first worker waits on semaphore 5.
\<close>

definition sample_k1 :: kernel where "sample_k1 = chThdCreateStatic 3 NORMALPRIO (chThdCreateStatic 2 NORMALPRIO chSysInit)"
definition sample_k2 :: kernel where "sample_k2 = the (chThdSleep 100 10 sample_k1)"
definition sample_k3 :: kernel where "sample_k3 = snd (the (chSemWait 5 sample_k2))"

lemmas sample_defs = chSysInit_def scheduler_init_def blank_thread_def chThdCreateStatic_def chThdCreateI_def thread_init_def
  chSchWakeupS_def chSchReadyI_def set_state_def set_msg_def upd_thread_def prio_of_def Let_def vt_init_def

lemma sample_k1: "sample_k1 = \<lparr>threads = (\<lambda>_. blank_thread)
    (0 := blank_thread\<lparr>p_prio := 64, p_realprio := 64, p_state := CH_STATE_CURRENT\<rparr>,
     1 := blank_thread\<lparr>p_prio := 1, p_realprio := 1, p_state := CH_STATE_READY\<rparr>,
     2 := blank_thread\<lparr>p_prio := 64, p_realprio := 64, p_state := CH_STATE_READY\<rparr>,
     3 := blank_thread\<lparr>p_prio := 64, p_realprio := 64, p_state := CH_STATE_READY\<rparr>),
    r_queue = [2, 3, 1], currp = 0, vtlist = vt_init, trefs = (\<lambda>_. None), tqueues = (\<lambda>_. []), sems = (\<lambda>_. \<lparr>s_queue = [], s_cnt = 0\<rparr>),
    mtxs = (\<lambda>_. \<lparr>m_queue = [], m_owner = None, m_next = None\<rparr>), conds = (\<lambda>_. [])\<rparr>"
  by (simp add: sample_k1_def sample_defs fun_eq_iff)

lemma sample_k2: "chThdSleep 100 10 sample_k1 = Some sample_k2"
  "currp sample_k2 = 2" "r_queue sample_k2 = [3, 1]" "vt_keys (vtlist sample_k2) = [(0, 0)]" "s_cnt (sems sample_k2 5) = 0"
  "s_queue (sems sample_k2 5) = []"
  by (simp_all add: sample_k2_def sample_k1 chThdSleep_def chThdSleepS_def chSchGoSleepTimeoutS_def chSchGoSleepS_def
      queue_fifo_remove_def set_state_def upd_thread_def chVTDoSetI_def vt_init_def sleep_timer_def vt_keys_def)

lemma sample_k3: "chSemWait 5 sample_k2 = Some (None, sample_k3)"
  "currp sample_k3 = 3" "r_queue sample_k3 = [1]" "vtlist sample_k3 = vtlist sample_k2" "s_queue (sems sample_k3 5) = [2]"
  using sample_k2(2-6) by (simp_all add: sample_k3_def chSemWait_def chSemWaitS_def chSchGoSleepS_def queue_fifo_remove_def Let_def queue_insert_def)

lemma sample_reach: "kernel_reach sample_k1" "kernel_reach sample_k2" "kernel_reach sample_k3"
proof -
  have i: "\<not> chVTIsArmedI (currp chSysInit) (vtlist chSysInit)" "currp chSysInit = 0" "state_of chSysInit 2 = CH_STATE_FINAL" "waiters chSysInit 2 = []"
    "msgq chSysInit 2 = []"
    by (simp_all add: sample_defs chVTIsArmedI_def state_of_def waiters_def msgq_def)
  have "kernel_reach (chThdCreateStatic 2 NORMALPRIO chSysInit)"
    by (rule kernel_reach.Step [OF kernel_reach.Init kernel_step.Call [where c = "CreateStatic 2 NORMALPRIO"]]) (use i in simp_all)
  then show k1: "kernel_reach sample_k1" unfolding sample_k1_def
    by (rule kernel_reach.Step [OF _ kernel_step.Call [where c = "CreateStatic 3 NORMALPRIO"]])
      (simp_all add: sample_defs chVTIsArmedI_def state_of_def waiters_def msgq_def)
  show k2: "kernel_reach sample_k2"
    by (rule kernel_reach.Step [OF k1 kernel_step.Call [where c = "Sleep 100 10"]])
      (simp_all add: sample_k2, simp_all add: sample_k1 vt_init_def chVTIsArmedI_def)
  show "kernel_reach sample_k3"
    by (rule kernel_reach.Step [OF k2 kernel_step.Call [where c = "SemWait 5"]])
      (simp_all add: sample_k2 sample_k3 armed_keys)
qed

theorem kernel_priority_scheduling_witness:
  "p_state (threads sample_k3 2) = CH_STATE_WTSEM 5 \<and> p_state (threads sample_k3 3) = CH_STATE_CURRENT \<and>
   p_state (threads sample_k3 1) = CH_STATE_READY \<and> s_cnt (sems sample_k3 5) = - 1"
proof -
  note p = kernel_priority_scheduling [OF sample_reach(3)]
  have "p_state (threads sample_k3 2) = CH_STATE_WTSEM 5 \<longleftrightarrow> 2 \<in> set (s_queue (sems sample_k3 5))"
    "p_state (threads sample_k3 3) = CH_STATE_CURRENT \<longleftrightarrow> 3 = currp sample_k3"
    "p_state (threads sample_k3 1) = CH_STATE_READY \<longleftrightarrow> 1 \<in> set (r_queue sample_k3)"
    "if s_queue (sems sample_k3 5) = [] then 0 \<le> s_cnt (sems sample_k3 5) else s_cnt (sems sample_k3 5) = - int (length (s_queue (sems sample_k3 5)))"
    using p by blast+
  then show ?thesis using sample_k3(2,3,5) by simp
qed

section \<open>Calls return\<close>

lemma others_ready:
  assumes "kinv k" "currp k \<noteq> 1"
  shows "1 \<in> set (r_queue k)"
proof -
  note c = current_unlinked [OF kinvD(1) [OF assms(1)]]
  show ?thesis using kinvD(4) [OF assms(1)] not_other_current [OF c(2), of 1] assms(2) link_ready [OF c(1), of 1] by (simp add: runnable_def)
qed

lemma sleeps: "r_queue k \<noteq> [] \<Longrightarrow> chSchGoSleepS st k \<noteq> None"
  using go_sleep_returns by fastforce

lemma sleeps_timeout: "r_queue k \<noteq> [] \<Longrightarrow> chSchGoSleepTimeoutS now st time k \<noteq> None"
  by (simp add: chSchGoSleepTimeoutS_def sleeps del: not_None_eq)

lemma fold_ready_grows: "set (r_queue k) \<subseteq> set (r_queue (fold chSchReadyI ts k))"
  by (induction ts arbitrary: k) fastforce+



section \<open>Semaphores as tokens\<close>

text \<open>The specification of a semaphore: free tokens, and the waiting threads in order of arrival.\<close>

type_synonym tokens = "nat \<times> nat list"

definition abs_sem :: "semaphore \<Rightarrow> tokens" where "abs_sem sm = (nat (s_cnt sm), s_queue sm)"

fun take_token :: "nat \<Rightarrow> tokens \<Rightarrow> tokens" where
  "take_token t (0, q) = (0, q @ [t])"
| "take_token t (Suc n, q) = (n, q)"

fun give_token :: "tokens \<Rightarrow> tokens" where
  "give_token (n, []) = (Suc n, [])"
| "give_token (n, t # q) = (n, q)"

lemma go_sleep_sems: "chSchGoSleepS st k = Some k' \<Longrightarrow> sems k' = sems k"
  by (auto simp: chSchGoSleepS_def queue_fifo_remove_def Let_def split: list.splits)

lemma abs_sem_joined:
  assumes "sem_ok k" "s_cnt (sems k s) \<le> 0"
  shows "abs_sem (sems (sem_joined s k) s) = take_token (currp k) (abs_sem (sems k s))" "fst (abs_sem (sems k s)) = 0"
  using assms(2) by (simp_all add: abs_sem_def sem_joined_def queue_insert_def)

lemma ready_threads: "threads (chSchReadyI t k) = (threads k)(t := (threads k t)\<lparr>p_state := CH_STATE_READY\<rparr>)"
  by (simp add: chSchReadyI_def)

lemma wakeupS_runs: "runnable (state_of (chSchWakeupS t m k) t)" "sems (chSchWakeupS t m k) = sems k"
  "t \<noteq> currp k \<Longrightarrow> rdymsg (threads (chSchWakeupS t m k) t) = m"
  by (simp_all add: chSchWakeupS_def Let_def chSchReadyI_def)

lemma wait_takes:
  assumes "kinv k" "currp k \<noteq> 1"
  shows "\<exists>m k'. chSemWait s k = Some (m, k') \<and> sems k' = (sems k)(s := sems k' s) \<and>
       abs_sem (sems k' s) = take_token (currp k) (abs_sem (sems k s)) \<and>
       m = (if 0 < fst (abs_sem (sems k s)) then Some MSG_OK else None) \<and>
       (0 < fst (abs_sem (sems k s)) \<longrightarrow> currp k' = currp k) \<and>
       (fst (abs_sem (sems k s)) = 0 \<longrightarrow> p_state (threads k' (currp k)) = CH_STATE_WTSEM s)"
proof (cases "s_cnt (sems k s) \<le> 0")
  note K = kinvD(1,2) [OF assms(1)]
  case True
  have q: "r_queue k \<noteq> []" using others_ready [OF assms] by auto
  note j = sem_joined_ok [OF K True] and a = abs_sem_joined [OF K(2) True]
  obtain k' where k': "chSchGoSleepS (CH_STATE_WTSEM s) (sem_joined s k) = Some k'"
    using go_sleep_returns [of "sem_joined s k" "CH_STATE_WTSEM s"] q by (auto simp: sem_joined_def)
  have "chSemWait s k = Some (None, k')"
    using True k' by (simp add: chSemWait_def chSemWaitS_def Let_def sem_joined_def)
  moreover have "state_of k' (currp k) = CH_STATE_WTSEM s"
    using go_sleep(7) [of "sem_joined s k" "CH_STATE_WTSEM s" k'] j(2,4) not_other_current [OF j(1)] k' by simp
  moreover have "sems k' = sems (sem_joined s k)" by (rule go_sleep_sems [OF k'])
  ultimately show ?thesis using a by (auto simp: state_of_def sem_joined_def fun_eq_iff)
next
  case False
  then have "nat (s_cnt (sems k s)) = Suc (nat (s_cnt (sems k s) - 1))" by simp
  then show ?thesis using False by (simp add: chSemWait_def chSemWaitS_def abs_sem_def)
qed

lemma give_no_waiter:
  assumes "sem_ok k" "s_queue (sems k s) = []"
  shows "abs_sem ((sems k s)\<lparr>s_cnt := s_cnt (sems k s) + 1\<rparr>) = give_token (abs_sem (sems k s))"
proof -
  have "nat (s_cnt (sems k s) + 1) = Suc (nat (s_cnt (sems k s)))" using sem_okD [OF assms(1), of s] assms(2) by simp
  then show ?thesis using assms(2) by (simp add: abs_sem_def)
qed

lemma give_waiter: "s_queue sm = t # q \<Longrightarrow> s_cnt sm + 1 \<le> 0 \<Longrightarrow>
    abs_sem (sm\<lparr>s_cnt := s_cnt sm + 1, s_queue := q\<rparr>) = give_token (abs_sem sm)"
  by (simp add: abs_sem_def)

lemma signal_gives:
  assumes "kinv k"
  shows "\<exists>k'. chSemSignal s k = Some k' \<and> sems k' = (sems k)(s := sems k' s) \<and>
       abs_sem (sems k' s) = give_token (abs_sem (sems k s)) \<and>
       (case s_queue (sems k s) of [] \<Rightarrow> threads k' = threads k
        | t # q \<Rightarrow> runnable (p_state (threads k' t)) \<and> rdymsg (threads k' t) = MSG_OK)"
  using sem_signal_cases [OF kinvD(2) [OF assms], of s]
proof cases
  case 1
  then show ?thesis using give_no_waiter [OF kinvD(2) [OF assms] 1(1)] by (simp add: chSemSignal_def)
next
  case (2 t q)
  let ?k = "upd_sem s (\<lambda>sm. (sm\<lparr>s_cnt := s_cnt sm + 1\<rparr>)\<lparr>s_queue := q\<rparr>) k"
  have "chSemSignal s k = Some (chSchWakeupS t MSG_OK ?k)"
    using 2 by (simp add: chSemSignal_def queue_fifo_remove_def upd_sem_twice)
  moreover have "t \<noteq> currp k" by (rule sem_first(2) [OF kinvD(1) [OF assms] 2(1)])
  ultimately show ?thesis
    using 2(1) wakeupS_runs [where t = t and m = MSG_OK and k = ?k] give_waiter [OF 2] by (simp add: state_of_def)
qed

lemma signalI_gives:
  assumes "kinv k"
  shows "\<exists>k'. chSemSignalI s k = Some k' \<and> kinv k' \<and> abs_sem (sems k' s) = give_token (abs_sem (sems k s)) \<and>
       (case s_queue (sems k s) of [] \<Rightarrow> threads k' = threads k
        | t # q \<Rightarrow> threads k' = (threads k)(t := (threads k t)\<lparr>rdymsg := MSG_OK, p_state := CH_STATE_READY\<rparr>))"
proof -
  obtain k1 where k1: "chSemSignalI s k = Some k1" "kinv k1"
    using sem_signalI_ok [OF kinvD(1,2) [OF assms], of s] kinv_keeps [OF assms] by auto
  show ?thesis using sem_signal_cases [OF kinvD(2) [OF assms], of s]
  proof cases
    case 1
    then have "k1 = upd_sem s (\<lambda>sm. sm\<lparr>s_cnt := s_cnt sm + 1\<rparr>) k" using k1(1) by (simp add: chSemSignalI_def)
    then have "abs_sem (sems k1 s) = give_token (abs_sem (sems k s))" "threads k1 = threads k"
      using give_no_waiter [OF kinvD(2) [OF assms] 1(1)] by simp_all
    then show ?thesis using k1 1(1) by simp
  next
    case (2 t q)
    have "k1 = chSchReadyI t (set_msg t MSG_OK (upd_sem s (\<lambda>sm. (sm\<lparr>s_cnt := s_cnt sm + 1\<rparr>)\<lparr>s_queue := q\<rparr>) k))"
      using 2 k1(1) by (simp add: chSemSignalI_def queue_fifo_remove_def upd_sem_twice)
    then show ?thesis using k1 2(1) give_waiter [OF 2] by (simp add: ready_threads)
  qed
qed

section \<open>Giving tokens\<close>

text \<open>
  What the clients of a semaphore rely on when they signal it: each signal gives one token, and
  a thread that was released stays released while others are.  Used for the signal a thread
  makes and for the one an interrupt handler makes.
\<close>

locale token_giver =
  fixes inv :: "'k \<Rightarrow> bool"
    and tok :: "'k \<Rightarrow> tokens"
    and released :: "'k \<Rightarrow> nat \<Rightarrow> bool"
    and give :: "'k \<Rightarrow> 'k option"
  assumes give_law: "inv k \<Longrightarrow> \<exists>k'. give k = Some k' \<and> inv k' \<and> tok k' = give_token (tok k)"
    and give_releases: "inv k \<Longrightarrow> give k = Some k' \<Longrightarrow> tok k = (n, t # q) \<Longrightarrow> released k' t"
    and give_keeps: "inv k \<Longrightarrow> give k = Some k' \<Longrightarrow> released k u \<Longrightarrow> released k' u"
begin

lemma give_many:
  "inv k \<Longrightarrow> \<exists>k'. repeat_opt n give k = Some k' \<and> inv k' \<and>
     tok k' = (fst (tok k) + (n - length (snd (tok k))), drop n (snd (tok k))) \<and>
     (\<forall>u. released k u \<longrightarrow> released k' u) \<and> (\<forall>u \<in> set (take n (snd (tok k))). released k' u)"
proof (induction n arbitrary: k)
  case (Suc n)
  obtain k1 where k1: "give k = Some k1" "inv k1" "tok k1 = give_token (tok k)" using give_law [OF Suc.prems] by blast
  obtain k' where k': "repeat_opt n give k1 = Some k'" "inv k'" "tok k' = (fst (tok k1) + (n - length (snd (tok k1))), drop n (snd (tok k1)))"
    "\<forall>u. released k1 u \<longrightarrow> released k' u" "\<forall>u \<in> set (take n (snd (tok k1))). released k' u" using Suc.IH [OF k1(2)] by blast
  obtain m q where t: "tok k = (m, q)" by fastforce
  have "released k' u" if "released k u" for u using k'(4) give_keeps [OF Suc.prems k1(1) that] by blast
  moreover have "tok k' = (m + (Suc n - length q), drop (Suc n) q)" using k'(3) k1(3) t by (cases q) auto
  moreover have "released k' u" if "u \<in> set (take (Suc n) q)" for u
    using that k'(4,5) k1(3) t give_releases [OF Suc.prems k1(1)] by (cases q) auto
  ultimately show ?case using k1(1) k'(1,2) t by simp
qed simp

end

lemma released_signalI:
  assumes "kinv k" "chSemSignalI s k = Some k'" "p_state (threads k u) = CH_STATE_READY \<and> rdymsg (threads k u) = MSG_OK"
  shows "p_state (threads k' u) = CH_STATE_READY \<and> rdymsg (threads k' u) = MSG_OK"
  using signalI_gives [OF assms(1), of s] assms(2,3) by (auto split: list.splits)

interpretation isr_signal: token_giver kinv "\<lambda>k. abs_sem (sems k s)"
  "\<lambda>k u. p_state (threads k u) = CH_STATE_READY \<and> rdymsg (threads k u) = MSG_OK" "chSemSignalI s" for s
proof unfold_locales
  fix k k' n t q u
  show "\<exists>k'. chSemSignalI s k = Some k' \<and> kinv k' \<and> abs_sem (sems k' s) = give_token (abs_sem (sems k s))" if "kinv k"
    using signalI_gives [OF that] by blast
  show "p_state (threads k' t) = CH_STATE_READY \<and> rdymsg (threads k' t) = MSG_OK"
    if "kinv k" "chSemSignalI s k = Some k'" "abs_sem (sems k s) = (n, t # q)"
    using signalI_gives [OF that(1), of s] that(2,3) by (auto simp: abs_sem_def)
qed (rule released_signalI)

text \<open>
  C21: semaphores.  In a reachable state a wait takes a token if there is one, and returns at once
  with \<open>MSG_OK\<close>; otherwise the caller joins the end of the queue and blocks.  A signal with nobody
  waiting adds a token; otherwise the thread that has waited longest becomes runnable, its wait
  returning \<open>MSG_OK\<close>.  A wait or a signal leaves every other semaphore alone.
\<close>

theorem semaphore_refines_tokens:
  assumes "kernel_reach k" "currp k \<noteq> 1"
  shows "(\<exists>m k'. chSemWait s k = Some (m, k') \<and> sems k' = (sems k)(s := sems k' s) \<and>
       abs_sem (sems k' s) = take_token (currp k) (abs_sem (sems k s)) \<and>
       m = (if 0 < fst (abs_sem (sems k s)) then Some MSG_OK else None) \<and>
       (0 < fst (abs_sem (sems k s)) \<longrightarrow> currp k' = currp k) \<and>
       (fst (abs_sem (sems k s)) = 0 \<longrightarrow> p_state (threads k' (currp k)) = CH_STATE_WTSEM s)) \<and>
    (\<exists>k'. chSemSignal s k = Some k' \<and> sems k' = (sems k)(s := sems k' s) \<and>
       abs_sem (sems k' s) = give_token (abs_sem (sems k s)) \<and>
       (case s_queue (sems k s) of [] \<Rightarrow> threads k' = threads k
        | t # q \<Rightarrow> runnable (p_state (threads k' t)) \<and> rdymsg (threads k' t) = MSG_OK))"
proof -
  have "kinv k" using reach_kinv [OF assms(1)] by simp
  then show ?thesis using wait_takes [OF _ assms(2)] signal_gives by blast
qed

theorem semaphore_refines_tokens_witness:
  "abs_sem (sems sample_k3 5) = (0, [2]) \<and>
   (\<exists>k'. chSemSignal 5 sample_k3 = Some k' \<and> abs_sem (sems k' 5) = (0, []) \<and> rdymsg (threads k' 2) = MSG_OK)"
proof -
  have "s_cnt (sems sample_k3 5) \<le> 0" using sem_okD [of sample_k3 5] reach_kinv [OF sample_reach(3)] sample_k3(5) by (simp add: kinv_def)
  then have "abs_sem (sems sample_k3 5) = (0, [2])" using sample_k3(5) by (simp add: abs_sem_def)
  then show ?thesis using semaphore_refines_tokens [OF sample_reach(3), of 5] sample_k3(2,5) by auto
qed

section \<open>Timeouts\<close>

lemma wakeup_threads:
  "threads (wakeup t k) = (if state_of k t = CH_STATE_READY then threads k
     else (threads k)(t := (threads k t)\<lparr>rdymsg := MSG_TIMEOUT, p_state := CH_STATE_READY\<rparr>))"
  "vtlist (wakeup t k) = vtlist k"
  unfolding wakeup_def chSemFastSignalI_def Let_def state_of_def
  by (cases "p_state (threads k t)"; simp add: ready_threads)+

lemma wakeups_other: "i \<notin> vt_par ` set vs \<Longrightarrow> threads (fold (\<lambda>v. wakeup (vt_par v)) vs k) i = threads k i"
  by (induction vs arbitrary: k) (simp_all add: wakeup_threads(1))

lemma wakeups_self: "i \<in> vt_par ` set vs \<Longrightarrow> distinct (map vt_par vs) \<Longrightarrow>
    p_state (threads (fold (\<lambda>v. wakeup (vt_par v)) vs k) i) = CH_STATE_READY \<and>
    (state_of k i \<noteq> CH_STATE_READY \<longrightarrow> rdymsg (threads (fold (\<lambda>v. wakeup (vt_par v)) vs k) i) = MSG_TIMEOUT)"
proof (induction vs arbitrary: k)
  case (Cons v vs)
  show ?case
  proof (cases "i = vt_par v")
    case True
    then show ?thesis using Cons.prems wakeups_other [of i vs "wakeup i k"] by (simp add: wakeup_threads(1) state_of_def)
  next
    case False
    then show ?thesis using Cons by (simp add: wakeup_threads(1) state_of_def)
  qed
qed simp

lemma wakeups_vtlist: "vtlist (fold (\<lambda>v. wakeup (vt_par v)) vs k) = vtlist k"
  by (induction vs arbitrary: k) (simp_all add: wakeup_threads(2))

lemma take_drop_disjoint: "distinct (map fst xs) \<Longrightarrow> i \<in> fst ` set (take n xs) \<Longrightarrow> i \<notin> fst ` set (drop n xs)"
  by (metis append_take_drop_id disjoint_iff distinct_append list.set_map map_append)

text \<open>
  C20: timeouts.  The timer interrupt always ends.  A thread that sleeps or waits with a timeout
  whose deadline has come is made ready with \<open>MSG_TIMEOUT\<close> and its timer is gone; a thread whose
  deadline lies in the future is not touched and its timer stays armed.
\<close>

theorem timeout_wakes_thread:
  fixes T :: "nat \<Rightarrow> nat"
  defines "n k \<equiv> length (vt_timers (vtlist k))"
  assumes "kernel_reach k" "\<not> chVTIsArmedI (currp k) (vtlist k)" "vt_lasttime (vtlist k) = of_nat L" "mono T" "L \<le> T 0" "T (n k) - L < 2 ^ 32 - 1"
    "(i, D) \<in> set (deadlines L (vt_timers (vtlist k)))"
  shows "\<exists>k'. kernel_tick (\<lambda>i. of_nat (T i)) k = Some k' \<and>
    (D \<le> T 0 \<longrightarrow> p_state (threads k' i) = CH_STATE_READY \<and> \<not> chVTIsArmedI i (vtlist k') \<and>
       (p_state (threads k i) \<noteq> CH_STATE_READY \<longrightarrow> rdymsg (threads k' i) = MSG_TIMEOUT)) \<and>
    (T (n k) < D \<longrightarrow> threads k' i = threads k i \<and> chVTIsArmedI i (vtlist k'))"
proof -
  let ?l = "vtlist k" let ?ds = "deadlines L (vt_timers (vtlist k))"
  have K: "kinv k" "timers_ok k" using reach_kinv [OF assms(2)] by (simp_all add: kinv_def)
  have ne: "vt_timers ?l \<noteq> []" using assms(8) by auto
  obtain m l' where m: "chVTDoTickI (\<lambda>i. of_nat (T i)) quiet_cb ?l = Some l'" "m \<le> n k" "vt_fired l' = vt_fired ?l @ take m (vt_timers ?l)"
    "vt_timers l' = drop m (vt_timers ?l)" "\<forall>x \<in> set (take m ?ds). snd x \<le> T m" "\<forall>x \<in> set (drop m ?ds). T m < snd x"
    using tick_fires [OF assms(4-6) _ ne] assms(7) unfolding n_def by blast
  let ?vs = "take m (vt_timers ?l)"
  define k' where "k' = fold (\<lambda>v. wakeup (vt_par v)) ?vs (k\<lparr>vtlist := l'\<rparr>)"
  have k': "kernel_tick (\<lambda>i. of_nat (T i)) k = Some k'" by (simp add: kernel_tick_def m(1,3) k'_def)
  have par: "map vt_par (vt_timers ?l) = map vt_id (vt_timers ?l)" using K(2) by (auto simp: timers_ok_def vt_keys_def)
  have dist: "distinct (map vt_id (vt_timers ?l))" using K(2) by (simp add: timers_ok_def vt_keys_def comp_def)
  have ids: "fst ` set (take m ?ds) = vt_id ` set ?vs" "fst ` set (drop m ?ds) = vt_id ` set (vt_timers l')"
    by (metis list.set_map map_fst_deadlines take_map, metis list.set_map map_fst_deadlines drop_map m(4))
  have dd: "distinct (map fst ?ds)" using dist by simp
  have pvs: "vt_par ` set ?vs = vt_id ` set ?vs" using par by (metis list.set_map take_map)
  have vl: "vtlist k' = l'" by (simp add: k'_def wakeups_vtlist)
  have arm: "chVTIsArmedI i (vtlist k') \<longleftrightarrow> i \<in> fst ` set (drop m ?ds)" unfolding vl ids(2) by (simp add: chVTIsArmedI_def)
  have split: "(i, D) \<in> set (take m ?ds) \<or> (i, D) \<in> set (drop m ?ds)" using assms(8) by (metis append_take_drop_id Un_iff set_append)
  have T0: "T 0 \<le> T m" "T m \<le> T (n k)" using assms(5) m(2) by (simp_all add: mono_def)
  show ?thesis
  proof (intro exI conjI impI)
    show "kernel_tick (\<lambda>i. of_nat (T i)) k = Some k'" by (rule k')
  next
    assume "D \<le> T 0"
    then have "(i, D) \<in> set (take m ?ds)" using split m(6) T0 by force
    then have it: "i \<in> fst ` set (take m ?ds)" by force
    then show "\<not> chVTIsArmedI i (vtlist k')" using arm take_drop_disjoint [OF dd] by blast
    have iv: "i \<in> vt_par ` set ?vs" using it ids(1) pvs by simp
    have "distinct (map vt_par ?vs)" using dist par by (metis distinct_take take_map)
    note w = wakeups_self [OF iv this, of "k\<lparr>vtlist := l'\<rparr>"]
    show "rdymsg (threads k' i) = MSG_TIMEOUT" if "p_state (threads k i) \<noteq> CH_STATE_READY"
      using w that by (simp add: k'_def state_of_def)
    show "p_state (threads k' i) = CH_STATE_READY" using w by (simp add: k'_def)
  next
    assume "T (n k) < D"
    then have "(i, D) \<notin> set (take m ?ds)" using m(5) T0 by force
    then have d: "(i, D) \<in> set (drop m ?ds)" using split by simp
    then have id: "i \<in> fst ` set (drop m ?ds)" by (metis fst_conv image_eqI)
    then show "chVTIsArmedI i (vtlist k')" by (simp only: arm)
    have "i \<notin> fst ` set (take m ?ds)" using id take_drop_disjoint [OF dd] by blast
    then have "i \<notin> vt_par ` set ?vs" by (simp only: ids(1) pvs simp_thms)
    then show "threads k' i = threads k i" using wakeups_other [of i ?vs "k\<lparr>vtlist := l'\<rparr>"] by (simp add: k'_def)
  qed
qed
text \<open>The main thread of the sample, asleep until tick 110, is ready after the interrupt at tick 110.\<close>

theorem timeout_wakes_thread_witness:
  "\<exists>k'. kernel_tick (\<lambda>i. of_nat 110) sample_k3 = Some k' \<and> p_state (threads k' 0) = CH_STATE_READY \<and>
     rdymsg (threads k' 0) = MSG_TIMEOUT"
proof -
  have l: "vtlist sample_k3 = \<lparr>vt_timers = [sleep_timer 0\<lparr>vt_delta := 10\<rparr>], vt_lasttime = 100, vt_alarm = Some 110, vt_fired = []\<rparr>"
    by (simp add: sample_k3(4) sample_k2_def sample_k1 chThdSleep_def chThdSleepS_def chSchGoSleepTimeoutS_def chSchGoSleepS_def
        queue_fifo_remove_def set_state_def upd_thread_def chVTDoSetI_def vt_init_def)
  have p: "p_state (threads sample_k3 0) \<noteq> CH_STATE_READY"
    using reach_kinv [OF sample_reach(3)] link_ready [of "{}" sample_k3 0] sample_k3(3) by (simp add: kinv_def k_ok_def state_of_def)
  have m: "mono (\<lambda>i :: nat. 110 :: nat)" by (simp add: mono_def)
  have a: "\<not> chVTIsArmedI (currp sample_k3) (vtlist sample_k3)" by (simp add: sample_k3(2) l chVTIsArmedI_def sleep_timer_def)
  have "\<exists>k'. kernel_tick (\<lambda>i. of_nat 110) sample_k3 = Some k' \<and>
      (110 \<le> (110 :: nat) \<longrightarrow> p_state (threads k' 0) = CH_STATE_READY \<and> \<not> chVTIsArmedI 0 (vtlist k') \<and>
        (p_state (threads sample_k3 0) \<noteq> CH_STATE_READY \<longrightarrow> rdymsg (threads k' 0) = MSG_TIMEOUT)) \<and>
      (110 < (110 :: nat) \<longrightarrow> threads k' 0 = threads sample_k3 0 \<and> chVTIsArmedI 0 (vtlist k'))"
    by (rule timeout_wakes_thread [OF sample_reach(3) a _ m, where L = 100]) (simp_all add: l sleep_timer_def)
  then show ?thesis using p by auto
qed

section \<open>Adding to the counter\<close>

lemma add_counter_repeats: "chSemAddCounterI s n k = repeat_opt n (chSemSignalI s) (k :: kernel)"
proof (induction n arbitrary: k)
  case (Suc n)
  have "chSemAddCounterI s n = (repeat_opt n (chSemSignalI s) :: kernel \<Rightarrow> kernel option)" using Suc.IH by (intro ext)
  then show ?case by simp
qed simp

text \<open>
  Adding \<open>n\<close> to a semaphore.  In a reachable state the first \<open>n\<close> waiting threads, in order of
  arrival, become ready with \<open>MSG_OK\<close>; what is left of \<open>n\<close> becomes free tokens.
\<close>

lemma add_counter_releases:
  assumes "kernel_reach k"
  shows "\<exists>k'. chSemAddCounterI s n k = Some k' \<and> s_queue (sems k' s) = drop n (s_queue (sems k s)) \<and>
    nat (s_cnt (sems k' s)) = nat (s_cnt (sems k s)) + (n - length (s_queue (sems k s))) \<and>
    (\<forall>t \<in> set (take n (s_queue (sems k s))). p_state (threads k' t) = CH_STATE_READY \<and> rdymsg (threads k' t) = MSG_OK)"
proof -
  have "kinv k" using reach_kinv [OF assms] by simp
  from isr_signal.give_many [OF this, of n s] show ?thesis unfolding add_counter_repeats by (auto simp: abs_sem_def)
qed

end
