(* ===== verification/Frame.thy ===== *)
theory Frame
  imports Scheduling
begin

text \<open>
  What the calls of the base kernel leave alone.  Events, messages and mutexes add waits of their own
  to the kernel; each has an invariant over fields that the calls of \<open>Kernel\<close> do not write.  The
  locale \<open>kernel_frame\<close> says that once: a relation between states that holds for the elementary
  updates holds for every call, interrupt handler and resumption of the base kernel.
\<close>

text \<open>The states the calls of the base kernel put threads in.\<close>

fun plain :: "tstate \<Rightarrow> bool" where
  "plain (CH_STATE_WTOREVT m) = False"
| "plain (CH_STATE_WTANDEVT m) = False"
| "plain (CH_STATE_SNDMSGQ t) = False"
| "plain CH_STATE_SNDMSG = False"
| "plain CH_STATE_WTMSG = False"
| "plain (CH_STATE_WTMTX m) = False"
| "plain (CH_STATE_WTCOND c) = False"
| "plain _ = True"

text \<open>Calls that write the priority of a thread.\<close>

fun sets_prio :: "kcall \<Rightarrow> bool" where
  "sets_prio (SetPriority p) = True"
| "sets_prio (CreateStatic t p) = True"
| "sets_prio _ = False"

locale kernel_frame =
  fixes R :: "kernel \<Rightarrow> kernel \<Rightarrow> bool"
  assumes fr_refl: "R k k"
    and fr_trans: "R k k1 \<Longrightarrow> R k1 k2 \<Longrightarrow> R k k2"
    and fr_state: "plain st \<Longrightarrow> R k (set_state t st k)"
    and fr_msg: "R k (set_msg t m k)"
    and fr_field: "R k (k\<lparr>r_queue := q\<rparr>)" "R k (k\<lparr>currp := c\<rparr>)" "R k (k\<lparr>vtlist := l\<rparr>)" "R k (k\<lparr>trefs := r\<rparr>)"
      "R k (k\<lparr>tqueues := tq\<rparr>)" "R k (k\<lparr>sems := s\<rparr>)"
    and fr_cond: "R k (k\<lparr>conds := (conds k)(v := remove1 t (conds k v))\<rparr>)"
    and fr_waiting: "R k (upd_thread t (\<lambda>th. th\<lparr>p_waiting := f th\<rparr>) k)"
    and fr_terminate: "R k (chThdTerminate t k)"
begin

lemma fr_upd: "R k (k\<lparr>r_queue := q, currp := c\<rparr>)" "R k (upd_sem s f k)"
  using fr_trans [OF fr_field(1,2)] fr_field(6) by (simp_all add: upd_sem_def)

lemma fr_ready: "R k (chSchReadyI t k)"
  unfolding chSchReadyI_def by (rule fr_trans [OF fr_state fr_field(1)]) simp

lemma fr_ready_msg: "R k (chSchReadyI t (set_msg t m k))"
  by (rule fr_trans [OF fr_msg fr_ready])

lemma fr_run: "R k (set_state t CH_STATE_CURRENT (k\<lparr>r_queue := q, currp := t\<rparr>))"
  by (rule fr_trans [OF fr_upd(1) fr_state]) simp

lemma fr_wakeupS: "R k (chSchWakeupS t m k)"
proof -
  let ?k = "set_msg t m k"
  have "R k (set_state t CH_STATE_CURRENT ((chSchReadyI (currp ?k) ?k)\<lparr>currp := t\<rparr>))"
    by (rule fr_trans [OF fr_trans [OF fr_trans [OF fr_msg fr_ready] fr_field(2)] fr_state]) simp
  then show ?thesis using fr_ready_msg by (simp add: chSchWakeupS_def Let_def)
qed

lemma fr_reschedule:
  assumes "chSchRescheduleS k = Some k'"
  shows "R k k'"
proof (cases "k' = k")
  case False
  then obtain t ts where k': "k' = (set_state (currp k) CH_STATE_READY (set_state t CH_STATE_CURRENT (k\<lparr>r_queue := ts, currp := t\<rparr>)))
      \<lparr>r_queue := prio_insert_ahead (prio_of k) (currp k) ts\<rparr>"
    using assms by (auto simp: chSchRescheduleS_def chSchDoRescheduleAhead_def queue_fifo_remove_def Let_def split: if_splits list.splits)
  show ?thesis unfolding k' by (rule fr_trans [OF fr_trans [OF fr_run fr_state] fr_field(1)]) simp
qed (simp add: fr_refl)

lemma fr_yield:
  assumes "chSchDoYieldS k = Some k'"
  shows "R k k'"
proof (cases "k' = k")
  case False
  then obtain t ts where k': "k' = chSchReadyI (currp k) (set_state t CH_STATE_CURRENT (k\<lparr>r_queue := ts, currp := t\<rparr>))"
    using assms by (auto simp: chSchDoYieldS_def chSchDoRescheduleBehind_def queue_fifo_remove_def Let_def split: if_splits list.splits)
  show ?thesis unfolding k' by (rule fr_trans [OF fr_run fr_ready])
qed (simp add: fr_refl)

text \<open>A sleep, given what it does to the caller's state.\<close>

lemma fr_sleep:
  assumes "R k0 (set_state (currp k) st k)" "chSchGoSleepS st k = Some k'"
  shows "R k0 k'"
proof -
  obtain t ts where "k' = set_state t CH_STATE_CURRENT ((set_state (currp k) st k)\<lparr>r_queue := ts, currp := t\<rparr>)"
    using assms(2) by (auto simp: chSchGoSleepS_def queue_fifo_remove_def Let_def split: list.splits)
  then show ?thesis using fr_trans [OF assms(1) fr_run] by simp
qed

lemma fr_go_sleep: "plain st \<Longrightarrow> R k0 k \<Longrightarrow> chSchGoSleepS st k = Some k' \<Longrightarrow> R k0 k'"
  by (erule fr_sleep [rotated]) (rule fr_trans [OF _ fr_state])

lemma fr_go_sleep_timeout:
  assumes "plain st" "R k0 k" "chSchGoSleepTimeoutS now st time k = Some k'"
  shows "R k0 k'"
  using assms fr_go_sleep [OF assms(1,2)] fr_go_sleep [OF assms(1) fr_trans [OF assms(2) fr_field(3)]]
  by (auto simp: chSchGoSleepTimeoutS_def split: if_splits)

lemma fr_wakeup: "R k (wakeup t k)"
proof -
  have "R k (chSchReadyI t (set_msg t MSG_TIMEOUT k1))" if "R k k1" for k1 by (rule fr_trans [OF that fr_ready_msg])
  then show ?thesis
    unfolding wakeup_def Let_def using fr_refl fr_field fr_cond
    by (cases "p_state (threads k t)") (simp_all add: chSemFastSignalI_def queue_dequeue_def)
qed

lemma fr_wakeups: "R k (fold (\<lambda>v. wakeup (vt_par v)) vs k)"
  by (induction vs arbitrary: k) (auto intro: fr_refl fr_trans fr_wakeup)

lemma fr_fold_ready: "R k (fold chSchReadyI ts k)"
  by (induction ts arbitrary: k) (auto intro: fr_refl fr_trans fr_ready)

lemma fr_signalI:
  assumes "chSemSignalI s k = Some k'"
  shows "R k k'"
proof -
  have "R k (chSchReadyI t (set_msg t MSG_OK (upd_sem s g (upd_sem s f k))))" for t f g
    by (rule fr_trans [OF fr_trans [OF fr_upd(2) fr_upd(2)] fr_ready_msg])
  then show ?thesis
    using assms fr_upd(2) by (auto simp: chSemSignalI_def queue_fifo_remove_def Let_def split: if_splits list.splits)
qed

lemma fr_add_counter: "chSemAddCounterI s n k = Some k' \<Longrightarrow> R k k'"
  by (induction n arbitrary: k) (auto simp: bind_eq_Some_conv intro: fr_refl fr_trans fr_signalI)

lemma fr_reset_loop:
  assumes "sem_reset_loop s n k = Some k'"
  shows "R k k'"
  using assms
proof (induction "nat (- n)" arbitrary: n k)
  case 0
  then show ?case by (subst (asm) sem_reset_loop.simps) (simp add: fr_refl)
next
  case (Suc m)
  have "queue_lifo_remove (s_queue (sems k s)) \<bind> (\<lambda>(t, q). sem_reset_loop s (n + 1)
      (set_msg t MSG_RESET (chSchReadyI t (upd_sem s (\<lambda>sm. sm\<lparr>s_queue := q\<rparr>) k)))) = Some k'"
    using Suc.prems Suc.hyps(2) by (subst (asm) sem_reset_loop.simps) (simp split: if_splits)
  then obtain t q where r: "sem_reset_loop s (n + 1) (set_msg t MSG_RESET (chSchReadyI t (upd_sem s (\<lambda>sm. sm\<lparr>s_queue := q\<rparr>) k))) = Some k'"
    by (auto simp: bind_eq_Some_conv)
  have "R k (set_msg t MSG_RESET (chSchReadyI t (upd_sem s (\<lambda>sm. sm\<lparr>s_queue := q\<rparr>) k)))"
    by (rule fr_trans [OF fr_trans [OF fr_upd(2) fr_ready] fr_msg])
  moreover have "R (set_msg t MSG_RESET (chSchReadyI t (upd_sem s (\<lambda>sm. sm\<lparr>s_queue := q\<rparr>) k))) k'" by (rule Suc.hyps(1) [OF _ r]) (use Suc.hyps(2) in simp)
  ultimately show ?case by (rule fr_trans)
qed

lemma fr_resetI: "chSemResetI s n k = Some k' \<Longrightarrow> R k k'"
  unfolding chSemResetI_def by (erule fr_trans [OF fr_upd(2) fr_reset_loop])

lemma fr_dequeue:
  assumes "chThdDoDequeueNextI q m k = Some k'"
  shows "R k k'"
proof -
  obtain t ts where k': "k' = chSchReadyI t (set_msg t m (k\<lparr>tqueues := (tqueues k)(q := ts)\<rparr>))"
    using assms by (auto simp: chThdDoDequeueNextI_def queue_fifo_remove_def split: list.splits)
  show ?thesis unfolding k' by (rule fr_trans [OF fr_field(5) fr_ready_msg])
qed

lemma fr_dequeue_all: "tq_dequeue_all q m k = Some k' \<Longrightarrow> R k k'"
proof (induction "length (tqueues k q)" arbitrary: k rule: less_induct)
  case less
  show ?case
  proof (cases "tqueues k q")
    case Nil
    then show ?thesis using less.prems by (subst (asm) tq_dequeue_all.simps) (simp add: fr_refl)
  next
    case (Cons t ts)
    then obtain k1 where k1: "chThdDoDequeueNextI q m k = Some k1" "tq_dequeue_all q m k1 = Some k'"
      using less.prems by (subst (asm) tq_dequeue_all.simps) (auto simp: bind_eq_Some_conv)
    have "length (tqueues k1 q) < length (tqueues k q)" using k1(1) Cons by (auto simp: chThdDoDequeueNextI_def queue_fifo_remove_def)
    then show ?thesis using less.hyps k1 fr_trans fr_dequeue by blast
  qed
qed

lemma fr_joined: "R k (sem_joined s k)"
  unfolding sem_joined_def by (rule fr_trans [OF fr_upd(2) fr_upd(2)])

lemma fr_sem_wait:
  assumes "chSemWaitS s k = Some (m, k') \<or> chSemWaitTimeoutS now s time k = Some (m, k')"
  shows "R k k'"
proof -
  have "chSchGoSleepS (CH_STATE_WTSEM s) (sem_joined s k) = Some k' \<or> chSchGoSleepTimeoutS now (CH_STATE_WTSEM s) time (sem_joined s k) = Some k' \<or>
      (\<exists>f g. k' = upd_sem s f (upd_sem s g k)) \<or> (\<exists>f. k' = upd_sem s f k)"
    using assms by (auto simp: chSemWaitS_def chSemWaitTimeoutS_def Let_def bind_eq_Some_conv sem_joined_def split: if_splits)
  then show ?thesis
    using fr_go_sleep [OF _ fr_joined, of "CH_STATE_WTSEM s"] fr_go_sleep_timeout [OF _ fr_joined, of "CH_STATE_WTSEM s"]
      fr_upd(2) fr_trans [OF fr_upd(2) fr_upd(2)] by auto
qed

lemma fr_signal_wait:
  assumes "chSemSignalWait s w k = Some (m, k')"
  shows "R k k'"
proof -
  obtain k1 where k1: "chSemSignalI s k = Some k1"
    and r: "chSchGoSleepS (CH_STATE_WTSEM w) (sem_joined w k1) = Some k' \<or> chSchRescheduleS (upd_sem w (\<lambda>sm. sm\<lparr>s_cnt := s_cnt sm - 1\<rparr>) k1) = Some k'"
    using assms by (auto simp: chSemSignalWait_def Let_def bind_eq_Some_conv sem_joined_def split: if_splits)
  have "R k1 k'" using r fr_go_sleep [OF _ fr_joined, of "CH_STATE_WTSEM w"] fr_trans [OF fr_upd(2) fr_reschedule] by auto
  then show ?thesis using fr_trans fr_signalI [OF k1] by blast
qed

lemma fr_exit:
  assumes "chThdExitS m k = Some k'"
  shows "R k k'"
proof -
  let ?k = "upd_thread (currp k) (\<lambda>th. th\<lparr>p_waiting := []\<rparr>) (set_msg (currp k) m k)"
  have q: "R k (fold chSchReadyI ts ?k)" for ts by (rule fr_trans [OF fr_trans [OF fr_msg fr_waiting] fr_fold_ready])
  have "chSchGoSleepS CH_STATE_FINAL (fold chSchReadyI (p_waiting (threads k (currp k))) ?k) = Some k'"
    using assms by (simp add: chThdExitS_def Let_def)
  then show ?thesis by (intro fr_go_sleep [OF _ q]) simp_all
qed

lemma fr_kcall:
  assumes "kcall_exec c k = Some k'" "\<not> sets_prio c"
  shows "R k k'"
proof (cases c)
  case (SemWait s)
  then obtain m where "chSemWaitS s k = Some (m, k')" using assms by (auto simp: chSemWait_def)
  then show ?thesis using fr_sem_wait by blast
next
  case (SemWaitTimeout now s time)
  then obtain m where "chSemWaitTimeoutS now s time k = Some (m, k')" using assms by (auto simp: chSemWaitTimeout_def)
  then show ?thesis using fr_sem_wait by blast
next
  case (SemSignal s)
  have "R k (chSchWakeupS t MSG_OK (upd_sem s g (upd_sem s f k)))" for t f g
    by (rule fr_trans [OF fr_trans [OF fr_upd(2) fr_upd(2)] fr_wakeupS])
  then show ?thesis using SemSignal assms fr_upd(2) by (auto simp: chSemSignal_def Let_def bind_eq_Some_conv split: if_splits)
next
  case (SemReset s n)
  then show ?thesis using assms by (auto simp: chSemReset_def bind_eq_Some_conv intro: fr_trans fr_resetI fr_reschedule)
next
  case (SemSignalWait s w)
  then show ?thesis using assms fr_signal_wait by auto
next
  case (Sleep now time)
  then show ?thesis using assms fr_go_sleep_timeout [OF _ fr_refl, of CH_STATE_SLEEPING] by (simp add: chThdSleep_def chThdSleepS_def)
next
  case (SleepUntil now1 now2 time)
  then show ?thesis using assms fr_go_sleep_timeout [OF _ fr_refl, of CH_STATE_SLEEPING] fr_refl
    by (auto simp: chThdSleepUntil_def chThdSleepS_def split: if_splits)
next
  case Yield
  then show ?thesis using assms fr_yield by (simp add: chThdYield_def)
next
  case (Suspend r)
  then show ?thesis using assms fr_go_sleep [OF _ fr_field(4), of "CH_STATE_SUSPENDED r"] by (simp add: chThdSuspendS_def)
next
  case (SuspendTimeout now r time)
  then show ?thesis using assms fr_refl fr_go_sleep_timeout [OF _ fr_field(4), of "CH_STATE_SUSPENDED r"]
    by (auto simp: chThdSuspendTimeoutS_def bind_eq_Some_conv split: if_splits)
next
  case (Resume r m)
  then show ?thesis using assms fr_refl fr_trans [OF fr_field(4) fr_wakeupS] by (auto simp: chThdResume_def chThdResumeS_def split: option.splits)
next
  case (EnqueueTimeout now q time)
  then show ?thesis using assms fr_refl fr_go_sleep_timeout [OF _ fr_field(5), of "CH_STATE_QUEUED q"]
    by (auto simp: chThdEnqueueTimeoutS_def bind_eq_Some_conv split: if_splits)
next
  case (WaitExit t)
  then show ?thesis using assms fr_refl fr_go_sleep [OF _ fr_waiting, of "CH_STATE_WTEXIT t"] by (auto simp: chThdWait_def split: if_splits)
next
  case (Exit m)
  then show ?thesis using assms fr_exit by simp
qed (use assms fr_terminate in auto)

lemma fr_icall:
  assumes "icall_exec c k = Some k'"
  shows "R k k'"
proof (cases c)
  case (ResumeI r m)
  then show ?thesis using assms fr_refl fr_trans [OF fr_field(4) fr_ready_msg] by (auto simp: chThdResumeI_def split: option.splits)
next
  case (DequeueNextI q m)
  then show ?thesis using assms fr_dequeue fr_refl by (auto simp: tq_dequeue_next_def split: if_splits)
next
  case (Tick clk)
  then obtain l vs where "k' = fold (\<lambda>v. wakeup (vt_par v)) (vs :: virtual_timer list) (k\<lparr>vtlist := l\<rparr>)"
    using assms by (auto simp: kernel_tick_def bind_eq_Some_conv)
  then show ?thesis using fr_trans [OF fr_field(3) fr_wakeups] by simp
qed (use assms fr_signalI fr_resetI fr_add_counter fr_dequeue_all in auto)

lemma fr_isr: "isr_exec cs k = Some k' \<Longrightarrow> R k k'"
  by (induction cs arbitrary: k) (auto simp: preemption_reschedules bind_eq_Some_conv intro: fr_reschedule fr_trans fr_icall)

lemma fr_resumed: "R k (snd (sleep_resumed now time k))"
  using fr_refl fr_field(3) by (simp add: sleep_resumed_def)

end

lemma kinv_reschedule:
  assumes "kinv k" "chSchRescheduleS k = Some k'"
  shows "kinv k' \<and> highest k'"
proof -
  note r = reschedule_ok(1-3) [OF kinvD(1) [OF assms(1)] assms(2)]
  have "kinv k'" using kinv_keeps [OF assms(1) r(1) _ keeps_reschedule [OF assms(2)]] sem_ok_sems [OF r(3)] kinvD(2) [OF assms(1)] by simp
  then show ?thesis using r(2) by simp
qed

end
