(* ===== verification/Events.thy ===== *)
theory Events
  imports Frame
begin

unbundle bit_operations_syntax

text \<open>
  Events, \<^verbatim>\<open>os/rt/src/chevents.c\<close>, and the kernel with event calls.  The pending events of a thread
  are a field of the thread; the mask it waits for is part of its state.  Event sources keep the
  list of their listeners, last registered first; sources and listeners are numbered.  A wait
  returns \<open>Some\<close> mask when it does not block; the rest of a blocked wait is \<open>evt_one_rest\<close>,
  \<open>evt_any_rest\<close> or \<open>evt_all_rest\<close>, run with the message the thread was woken with.
\<close>

record event_listener =
  el_listener :: nat
  el_events :: u32
  el_flags :: u32
  el_wflags :: u32

record event_sources =
  es_next :: "nat \<Rightarrow> nat list"
  listeners :: "nat \<Rightarrow> event_listener"

definition EVENT_MASK :: "nat \<Rightarrow> u32" where "EVENT_MASK eid = push_bit eid 1"

definition pending :: "kernel \<Rightarrow> nat \<Rightarrow> u32" where "pending k t = p_epending (threads k t)"

definition set_pending :: "nat \<Rightarrow> u32 \<Rightarrow> kernel \<Rightarrow> kernel" where
  "set_pending t m = upd_thread t (\<lambda>th. th\<lparr>p_epending := m\<rparr>)"

section \<open>Sources\<close>

definition chEvtObjectInit :: "nat \<Rightarrow> event_sources \<Rightarrow> event_sources" where
  "chEvtObjectInit es w = w\<lparr>es_next := (es_next w)(es := [])\<rparr>"

definition chEvtRegisterMaskWithFlags :: "nat \<Rightarrow> nat \<Rightarrow> u32 \<Rightarrow> u32 \<Rightarrow> kernel \<Rightarrow> event_sources \<Rightarrow> event_sources" where
  "chEvtRegisterMaskWithFlags es el events wflags k w =
     w\<lparr>es_next := (es_next w)(es := el # es_next w es),
       listeners := (listeners w)(el := \<lparr>el_listener = currp k, el_events = events, el_flags = 0, el_wflags = wflags\<rparr>)\<rparr>"

definition chEvtRegisterMask :: "nat \<Rightarrow> nat \<Rightarrow> u32 \<Rightarrow> kernel \<Rightarrow> event_sources \<Rightarrow> event_sources" where
  "chEvtRegisterMask es el events = chEvtRegisterMaskWithFlags es el events (- 1)"

definition chEvtRegister :: "nat \<Rightarrow> nat \<Rightarrow> nat \<Rightarrow> kernel \<Rightarrow> event_sources \<Rightarrow> event_sources" where
  "chEvtRegister es el event = chEvtRegisterMask es el (EVENT_MASK event)"

definition chEvtUnregister :: "nat \<Rightarrow> nat \<Rightarrow> event_sources \<Rightarrow> event_sources" where
  "chEvtUnregister es el w = w\<lparr>es_next := (es_next w)(es := remove1 el (es_next w es))\<rparr>"

definition chEvtIsListeningI :: "nat \<Rightarrow> event_sources \<Rightarrow> bool" where "chEvtIsListeningI es w \<longleftrightarrow> es_next w es \<noteq> []"

definition chEvtGetAndClearFlagsI :: "nat \<Rightarrow> event_sources \<Rightarrow> u32 \<times> event_sources" where
  "chEvtGetAndClearFlagsI el w =
     (el_flags (listeners w el), w\<lparr>listeners := (listeners w)(el := (listeners w el)\<lparr>el_flags := 0\<rparr>)\<rparr>)"

definition chEvtGetAndClearFlags :: "nat \<Rightarrow> event_sources \<Rightarrow> u32 \<times> event_sources" where
  "chEvtGetAndClearFlags = chEvtGetAndClearFlagsI"

section \<open>Signalling\<close>

definition chEvtSignalI :: "nat \<Rightarrow> u32 \<Rightarrow> kernel \<Rightarrow> kernel" where
  "chEvtSignalI t events k0 =
     (let k = set_pending t (pending k0 t OR events) k0
      in if (case p_state (threads k t) of
               CH_STATE_WTOREVT m \<Rightarrow> pending k t AND m \<noteq> 0
             | CH_STATE_WTANDEVT m \<Rightarrow> pending k t AND m = m
             | _ \<Rightarrow> False)
         then chSchReadyI t (set_msg t MSG_OK k) else k)"

definition chEvtSignal :: "nat \<Rightarrow> u32 \<Rightarrow> kernel \<Rightarrow> kernel option" where
  "chEvtSignal t events k = chSchRescheduleS (chEvtSignalI t events k)"

text \<open>The loop over the listeners of a source.\<close>

fun broadcast_loop :: "u32 \<Rightarrow> nat list \<Rightarrow> event_sources \<times> kernel \<Rightarrow> event_sources \<times> kernel" where
  "broadcast_loop flags [] s = s"
| "broadcast_loop flags (el # els) (w, k) =
     (let w = w\<lparr>listeners := (listeners w)(el := (listeners w el)\<lparr>el_flags := el_flags (listeners w el) OR flags\<rparr>)\<rparr>;
          l = listeners w el;
          k = (if flags = 0 \<or> el_flags l AND el_wflags l \<noteq> 0 then chEvtSignalI (el_listener l) (el_events l) k else k)
      in broadcast_loop flags els (w, k))"

definition chEvtBroadcastFlagsI :: "nat \<Rightarrow> u32 \<Rightarrow> event_sources \<times> kernel \<Rightarrow> event_sources \<times> kernel" where
  "chEvtBroadcastFlagsI es flags s = broadcast_loop flags (es_next (fst s) es) s"

definition chEvtBroadcastFlags :: "nat \<Rightarrow> u32 \<Rightarrow> event_sources \<times> kernel \<Rightarrow> (event_sources \<times> kernel) option" where
  "chEvtBroadcastFlags es flags s =
     (let (w, k) = chEvtBroadcastFlagsI es flags s in do { k \<leftarrow> chSchRescheduleS k; Some (w, k) })"

definition chEvtBroadcastI :: "nat \<Rightarrow> event_sources \<times> kernel \<Rightarrow> event_sources \<times> kernel" where
  "chEvtBroadcastI es = chEvtBroadcastFlagsI es 0"

definition chEvtBroadcast :: "nat \<Rightarrow> event_sources \<times> kernel \<Rightarrow> (event_sources \<times> kernel) option" where
  "chEvtBroadcast es = chEvtBroadcastFlags es 0"

section \<open>The calling thread's events\<close>

definition chEvtGetAndClearEvents :: "u32 \<Rightarrow> kernel \<Rightarrow> u32 \<times> kernel" where
  "chEvtGetAndClearEvents events k =
     (pending k (currp k) AND events, set_pending (currp k) (pending k (currp k) AND NOT events) k)"

definition chEvtAddEvents :: "u32 \<Rightarrow> kernel \<Rightarrow> u32 \<times> kernel" where
  "chEvtAddEvents events k =
     (pending k (currp k) OR events, set_pending (currp k) (pending k (currp k) OR events) k)"

text \<open>Taking the lowest of the pending events, all of them, or the whole mask.\<close>

definition evt_one_take :: "u32 \<Rightarrow> kernel \<Rightarrow> u32 \<times> kernel" where
  "evt_one_take events k =
     (let m = pending k (currp k) AND events; m = m XOR (m AND (m - 1))
      in (m, set_pending (currp k) (pending k (currp k) AND NOT m) k))"

definition evt_any_take :: "u32 \<Rightarrow> kernel \<Rightarrow> u32 \<times> kernel" where
  "evt_any_take events k =
     (let m = pending k (currp k) AND events in (m, set_pending (currp k) (pending k (currp k) AND NOT m) k))"

definition evt_all_take :: "u32 \<Rightarrow> kernel \<Rightarrow> u32 \<times> kernel" where
  "evt_all_take events k = (events, set_pending (currp k) (pending k (currp k) AND NOT events) k)"

text \<open>The rest of a blocked wait with timeout: nothing after a timeout.\<close>

definition evt_rest :: "(u32 \<Rightarrow> kernel \<Rightarrow> u32 \<times> kernel) \<Rightarrow> msg_t \<Rightarrow> u32 \<Rightarrow> kernel \<Rightarrow> u32 \<times> kernel" where
  "evt_rest tk msg events k = (if msg < MSG_OK then (0, k) else tk events k)"

definition chEvtWaitOne :: "u32 \<Rightarrow> kernel \<Rightarrow> (u32 option \<times> kernel) option" where
  "chEvtWaitOne events k =
     (if pending k (currp k) AND events = 0
      then do { k \<leftarrow> chSchGoSleepS (CH_STATE_WTOREVT events) k; Some (None, k) }
      else let (m, k) = evt_one_take events k in Some (Some m, k))"

definition chEvtWaitAny :: "u32 \<Rightarrow> kernel \<Rightarrow> (u32 option \<times> kernel) option" where
  "chEvtWaitAny events k =
     (if pending k (currp k) AND events = 0
      then do { k \<leftarrow> chSchGoSleepS (CH_STATE_WTOREVT events) k; Some (None, k) }
      else let (m, k) = evt_any_take events k in Some (Some m, k))"

definition chEvtWaitAll :: "u32 \<Rightarrow> kernel \<Rightarrow> (u32 option \<times> kernel) option" where
  "chEvtWaitAll events k =
     (if pending k (currp k) AND events \<noteq> events
      then do { k \<leftarrow> chSchGoSleepS (CH_STATE_WTANDEVT events) k; Some (None, k) }
      else let (m, k) = evt_all_take events k in Some (Some m, k))"

definition chEvtWaitOneTimeout :: "systime_t \<Rightarrow> u32 \<Rightarrow> systime_t \<Rightarrow> kernel \<Rightarrow> (u32 option \<times> kernel) option" where
  "chEvtWaitOneTimeout now events time k =
     (if pending k (currp k) AND events = 0
      then if time = TIME_IMMEDIATE then Some (Some 0, k)
           else do { k \<leftarrow> chSchGoSleepTimeoutS now (CH_STATE_WTOREVT events) time k; Some (None, k) }
      else let (m, k) = evt_one_take events k in Some (Some m, k))"

definition chEvtWaitAnyTimeout :: "systime_t \<Rightarrow> u32 \<Rightarrow> systime_t \<Rightarrow> kernel \<Rightarrow> (u32 option \<times> kernel) option" where
  "chEvtWaitAnyTimeout now events time k =
     (if pending k (currp k) AND events = 0
      then if time = TIME_IMMEDIATE then Some (Some 0, k)
           else do { k \<leftarrow> chSchGoSleepTimeoutS now (CH_STATE_WTOREVT events) time k; Some (None, k) }
      else let (m, k) = evt_any_take events k in Some (Some m, k))"

definition chEvtWaitAllTimeout :: "systime_t \<Rightarrow> u32 \<Rightarrow> systime_t \<Rightarrow> kernel \<Rightarrow> (u32 option \<times> kernel) option" where
  "chEvtWaitAllTimeout now events time k =
     (if pending k (currp k) AND events \<noteq> events
      then if time = TIME_IMMEDIATE then Some (Some 0, k)
           else do { k \<leftarrow> chSchGoSleepTimeoutS now (CH_STATE_WTANDEVT events) time k; Some (None, k) }
      else let (m, k) = evt_all_take events k in Some (Some m, k))"

section \<open>Dispatch\<close>

text \<open>The identifiers handed to the handlers, in order; 32 events at most.\<close>

function dispatch_loop :: "nat \<Rightarrow> u32 \<Rightarrow> nat list" where
  "dispatch_loop eid events =
     (if events = 0 \<or> 32 \<le> eid then []
      else if events AND EVENT_MASK eid \<noteq> 0 then eid # dispatch_loop (Suc eid) (events AND NOT (EVENT_MASK eid))
      else dispatch_loop (Suc eid) events)"
  by pat_completeness auto
termination by (relation "measure (\<lambda>(eid, events). 32 - eid)") auto

declare dispatch_loop.simps [simp del]

definition chEvtDispatch :: "u32 \<Rightarrow> nat list" where "chEvtDispatch events = dispatch_loop 0 events"

section \<open>Calls that leave event waits alone\<close>

fun evt_wait :: "tstate \<Rightarrow> bool" where
  "evt_wait (CH_STATE_WTOREVT m) = True"
| "evt_wait (CH_STATE_WTANDEVT m) = True"
| "evt_wait _ = False"

text \<open>A thread waits for events after the call only if it did before, with the same pending events.\<close>

definition quiet :: "kernel \<Rightarrow> kernel \<Rightarrow> bool" where
  "quiet k k' \<longleftrightarrow> (\<forall>u. evt_wait (p_state (threads k' u)) \<longrightarrow>
     p_state (threads k' u) = p_state (threads k u) \<and> p_epending (threads k' u) = p_epending (threads k u))"

lemma upd_thread_quiet: "(\<And>th. evt_wait (p_state (f th)) \<Longrightarrow> p_state (f th) = p_state th \<and> p_epending (f th) = p_epending th) \<Longrightarrow> quiet k (upd_thread t f k)"
  by (auto simp: quiet_def)

lemma plain_not_evt: "plain st \<Longrightarrow> \<not> evt_wait st"
  by (cases st) simp_all

interpretation evt_frame: kernel_frame quiet
proof unfold_locales
  show "quiet k k2" if "quiet k k1" "quiet k1 k2" for k k1 k2 using that unfolding quiet_def by metis
  show "quiet k (chThdTerminate t k)" for k t unfolding chThdTerminate_def by (rule upd_thread_quiet) simp
  show "quiet k (upd_thread t (\<lambda>th. th\<lparr>p_waiting := f th\<rparr>) k)" for k t f by (rule upd_thread_quiet) simp
qed (auto simp: quiet_def dest: plain_not_evt)

lemma kcall_quiet:
  assumes "kcall_exec c k = Some k'"
  shows "quiet k k'"
proof (cases c)
  case (SetPriority p)
  let ?f = "\<lambda>th :: thread. (if p_prio th = p_realprio th \<or> p > p_prio th then th\<lparr>p_prio := p\<rparr> else th)\<lparr>p_realprio := p\<rparr>"
  have "quiet k (upd_thread (currp k) ?f k)" by (rule upd_thread_quiet) simp
  then show ?thesis using SetPriority assms evt_frame.fr_reschedule evt_frame.fr_trans by (auto simp: chThdSetPriority_def)
next
  case (CreateStatic t p)
  have "quiet k (chThdCreateI t p k)" unfolding chThdCreateI_def by (rule upd_thread_quiet) (simp add: thread_init_def)
  then show ?thesis using CreateStatic assms evt_frame.fr_wakeupS evt_frame.fr_trans by (auto simp: chThdCreateStatic_def)
qed (use evt_frame.fr_kcall [OF assms] in simp_all)

lemma kernel_step_quiet: "kernel_step k k' \<Longrightarrow> quiet k k'"
  by (erule kernel_step.cases) (auto intro: kcall_quiet evt_frame.fr_isr evt_frame.fr_resumed)

lemma go_sleep_threads:
  assumes "chSchGoSleepS st k = Some k'"
  obtains t where "threads k' = threads (set_state t CH_STATE_CURRENT (set_state (currp k) st k))"
  using assms by (auto simp: chSchGoSleepS_def queue_fifo_remove_def Let_def split: list.splits)

section \<open>No event is missed\<close>

text \<open>A thread that waits for any (for all) of the events of a mask has none (not all) of them pending.\<close>

definition ev_ok :: "kernel \<Rightarrow> bool" where
  "ev_ok k \<longleftrightarrow> (\<forall>t m. (p_state (threads k t) = CH_STATE_WTOREVT m \<longrightarrow> pending k t AND m = 0) \<and>
     (p_state (threads k t) = CH_STATE_WTANDEVT m \<longrightarrow> pending k t AND m \<noteq> m))"

lemma ev_ok_quiet: "ev_ok k \<Longrightarrow> quiet k k' \<Longrightarrow> ev_ok k'"
  unfolding ev_ok_def quiet_def pending_def by (metis evt_wait.simps(1,2))

lemma set_pending_simps [simp]:
  "state_of (set_pending t m k) = state_of k" "waiters (set_pending t m k) = waiters k" "prio_of (set_pending t m k) = prio_of k"
  "r_queue (set_pending t m k) = r_queue k" "currp (set_pending t m k) = currp k" "sems (set_pending t m k) = sems k"
  "vtlist (set_pending t m k) = vtlist k" "trefs (set_pending t m k) = trefs k" "tqueues (set_pending t m k) = tqueues k"
  "p_state (threads (set_pending t m k) u) = p_state (threads k u)" "rdymsg (threads (set_pending t m k) u) = rdymsg (threads k u)"
  "pending (set_pending t m k) = (pending k)(t := m)" "msgq (set_pending t m k) = msgq k" "mtxs (set_pending t m k) = mtxs k"
  "conds (set_pending t m k) = conds k"
  by (auto simp: set_pending_def state_of_def waiters_def msgq_def prio_of_def pending_def fun_eq_iff)

lemma set_pending_queued [simp]: "queued (set_pending t m k) u st = queued k u st"
  by (cases st) simp_all

lemma set_pending_ok [simp]: "k_ok (set_pending t m k) = k_ok k" "sem_ok (set_pending t m k) = sem_ok k"
  "highest (set_pending t m k) = highest k" "keeps k (set_pending t m k)"
  by (simp_all add: k_ok_def link_ok_def cur_ok_def sem_ok_def highest_def keeps_def)

lemma set_pending_kinv: "kinv k \<Longrightarrow> kinv (set_pending t m k)"
  using kinv_keeps [of k "set_pending t m k"] by (simp add: kinvD)

lemma ready_pending [simp]: "pending (chSchReadyI t k) = pending k" "pending (set_msg t m k) = pending k"
  by (auto simp: pending_def ready_threads fun_eq_iff)

lemma signal_ready:
  assumes "kinv k" "evt_wait (p_state (threads k t))"
  shows "kinv (chSchReadyI t (set_msg t m k))"
proof -
  note c = current_unlinked [OF kinvD(1) [OF assms(1)]]
  have st: "evt_wait (state_of k t)" using assms(2) by (simp add: state_of_def)
  have "link_ok {t} k" using link_current [OF c(1), of t] st by (cases "state_of k t") auto
  moreover have "t \<noteq> currp k" using st cur_self [OF c(2)] by auto
  ultimately have "k_ok (chSchReadyI t (set_msg t m k))" using c(2) by (intro ready_msg_ok)
  then show ?thesis
    using kinv_keeps [OF assms(1)] kinvD(2) [OF assms(1)] sem_ok_sems [of "chSchReadyI t (set_msg t m k)" k] by (simp add: keeps_def)
qed

lemma signalI_kinv:
  assumes "kinv k" "ev_ok k"
  shows "kinv (chEvtSignalI t events k)" "ev_ok (chEvtSignalI t events k)" "currp (chEvtSignalI t events k) = currp k"
    "vtlist (chEvtSignalI t events k) = vtlist k"
proof -
  let ?k = "set_pending t (pending k t OR events) k"
  have p: "kinv ?k" by (rule set_pending_kinv [OF assms(1)])
  let ?c = "case p_state (threads ?k t) of CH_STATE_WTOREVT m \<Rightarrow> pending ?k t AND m \<noteq> 0 | CH_STATE_WTANDEVT m \<Rightarrow> pending ?k t AND m = m | _ \<Rightarrow> False"
  have e: "chEvtSignalI t events k = (if ?c then chSchReadyI t (set_msg t MSG_OK ?k) else ?k)" by (simp add: chEvtSignalI_def Let_def)
  have w: "?c \<Longrightarrow> evt_wait (p_state (threads ?k t))" by (cases "p_state (threads ?k t)") simp_all
  show "kinv (chEvtSignalI t events k)" unfolding e using signal_ready [OF p] w p by simp
  show "currp (chEvtSignalI t events k) = currp k" "vtlist (chEvtSignalI t events k) = vtlist k" unfolding e by simp_all
  show "ev_ok (chEvtSignalI t events k)"
  proof (cases ?c)
    case True
    then show ?thesis using assms(2) unfolding e ev_ok_def by (auto simp: ready_threads)
  next
    case False
    then show ?thesis using assms(2) unfolding e ev_ok_def by auto
  qed
qed

lemma broadcast_kinv:
  assumes "broadcast_loop flags els (w, k) = (w', k')" "kinv k" "ev_ok k"
  shows "kinv k' \<and> ev_ok k' \<and> currp k' = currp k \<and> vtlist k' = vtlist k"
  using assms
proof (induction els arbitrary: w k)
  case (Cons el els)
  let ?w = "w\<lparr>listeners := (listeners w)(el := (listeners w el)\<lparr>el_flags := el_flags (listeners w el) OR flags\<rparr>)\<rparr>"
  let ?l = "listeners ?w el"
  define k1 where "k1 = (if flags = 0 \<or> el_flags ?l AND el_wflags ?l \<noteq> 0 then chEvtSignalI (el_listener ?l) (el_events ?l) k else k)"
  have k1: "kinv k1 \<and> ev_ok k1 \<and> currp k1 = currp k \<and> vtlist k1 = vtlist k"
    using signalI_kinv [OF Cons.prems(2,3)] Cons.prems(2,3) by (simp add: k1_def)
  have "broadcast_loop flags els (?w, k1) = (w', k')" using Cons.prems(1) by (simp only: broadcast_loop.simps Let_def k1_def)
  then show ?case using Cons.IH [of ?w k1] k1 by simp
qed simp

text \<open>Waiting: the thread sleeps only if what it waits for is not pending.\<close>

lemma evt_sleep:
  assumes "kinv k" "ev_ok k" "\<not> chVTIsArmedI (currp k) (vtlist k)" "currp k \<noteq> 1"
    "chSchGoSleepS st k = Some k' \<or> chSchGoSleepTimeoutS now st time k = Some k'"
    "(\<exists>m. st = CH_STATE_WTOREVT m \<and> pending k (currp k) AND m = 0) \<or> (\<exists>m. st = CH_STATE_WTANDEVT m \<and> pending k (currp k) AND m \<noteq> m)"
  shows "kinv k' \<and> highest k' \<and> ev_ok k'"
proof -
  note K = kinvD(1,2) [OF assms(1)]
  have st: "\<not> is_link st" "\<not> runnable st" "timed st" using assms(6) by (auto simp: runnable_def)
  have b: "k_ok k' \<and> highest k' \<and> sems k' = sems k \<and> blocks k k'"
    by (rule call_blocks [of k k st k' now time]) (use K st assms(5) enter_unlinked in \<open>auto simp: keeps_refl k_ok_def\<close>)
  then have "kinv k'" using kinv_blocks [OF assms(1,3,4)] sem_ok_sems K(2) by blast
  moreover have "ev_ok k'"
  proof -
    obtain l t where "threads k' = threads (set_state t CH_STATE_CURRENT (set_state (currp k) st (k\<lparr>vtlist := l\<rparr>)))"
      using assms(5) go_sleep_threads [of st k k'] go_sleep_threads [of st "k\<lparr>vtlist := chVTDoSetI now (sleep_timer (currp k)) time (vtlist k)\<rparr>" k']
      by (auto simp: chSchGoSleepTimeoutS_def split: if_splits) 
    then show ?thesis using assms(2,6) unfolding ev_ok_def pending_def by (auto split: if_splits)
  qed
  ultimately show ?thesis using b by blast
qed

section \<open>The kernel with events\<close>

datatype ecall = WaitOne u32 | WaitAny u32 | WaitAll u32 | WaitOneTimeout systime_t u32 systime_t | WaitAnyTimeout systime_t u32 systime_t
  | WaitAllTimeout systime_t u32 systime_t | OneRest msg_t u32 | AnyRest msg_t u32 | AllRest msg_t u32 | EvtSignal nat u32
  | EvtBroadcast nat u32 | GetAndClearEvents u32 | AddEvents u32 | RegisterMask nat nat u32 u32 | Unregister nat nat | GetAndClearFlags nat

fun ecall_exec :: "ecall \<Rightarrow> event_sources \<times> kernel \<Rightarrow> (event_sources \<times> kernel) option" where
  "ecall_exec (WaitOne m) (w, k) = do { (_, k) \<leftarrow> chEvtWaitOne m k; Some (w, k) }"
| "ecall_exec (WaitAny m) (w, k) = do { (_, k) \<leftarrow> chEvtWaitAny m k; Some (w, k) }"
| "ecall_exec (WaitAll m) (w, k) = do { (_, k) \<leftarrow> chEvtWaitAll m k; Some (w, k) }"
| "ecall_exec (WaitOneTimeout now m time) (w, k) = do { (_, k) \<leftarrow> chEvtWaitOneTimeout now m time k; Some (w, k) }"
| "ecall_exec (WaitAnyTimeout now m time) (w, k) = do { (_, k) \<leftarrow> chEvtWaitAnyTimeout now m time k; Some (w, k) }"
| "ecall_exec (WaitAllTimeout now m time) (w, k) = do { (_, k) \<leftarrow> chEvtWaitAllTimeout now m time k; Some (w, k) }"
| "ecall_exec (OneRest msg m) (w, k) = Some (w, snd (evt_rest evt_one_take msg m k))"
| "ecall_exec (AnyRest msg m) (w, k) = Some (w, snd (evt_rest evt_any_take msg m k))"
| "ecall_exec (AllRest msg m) (w, k) = Some (w, snd (evt_rest evt_all_take msg m k))"
| "ecall_exec (EvtSignal t m) (w, k) = do { k \<leftarrow> chEvtSignal t m k; Some (w, k) }"
| "ecall_exec (EvtBroadcast es flags) s = chEvtBroadcastFlags es flags s"
| "ecall_exec (GetAndClearEvents m) (w, k) = Some (w, snd (chEvtGetAndClearEvents m k))"
| "ecall_exec (AddEvents m) (w, k) = Some (w, snd (chEvtAddEvents m k))"
| "ecall_exec (RegisterMask es el m wflags) (w, k) = Some (chEvtRegisterMaskWithFlags es el m wflags k w, k)"
| "ecall_exec (Unregister es el) (w, k) = Some (chEvtUnregister es el w, k)"
| "ecall_exec (GetAndClearFlags el) (w, k) = Some (snd (chEvtGetAndClearFlags el w), k)"

text \<open>An interrupt handler broadcasts on a source, as the CAN driver does, or signals a thread.\<close>

inductive event_step :: "event_sources \<times> kernel \<Rightarrow> event_sources \<times> kernel \<Rightarrow> bool" where
  Kernel: "event_step (w, k) (w, k')" if "kernel_step k k'"
| Call: "event_step (w, k) s'" if "\<not> chVTIsArmedI (currp k) (vtlist k)" "currp k \<noteq> 1" "ecall_exec c (w, k) = Some s'"
| Broadcast: "event_step (w, k) (w', k')"
    if "\<not> chVTIsArmedI (currp k) (vtlist k)" "chEvtBroadcastFlagsI es flags (w, k) = (w', k1)" "chSchPreemption k1 = Some k'"
| Signal: "event_step (w, k) (w, k')"
    if "\<not> chVTIsArmedI (currp k) (vtlist k)" "chSchPreemption (chEvtSignalI t m k) = Some k'"

definition no_sources :: event_sources where
  "no_sources = \<lparr>es_next = (\<lambda>_. []), listeners = (\<lambda>_. \<lparr>el_listener = 0, el_events = 0, el_flags = 0, el_wflags = 0\<rparr>)\<rparr>"

inductive event_reach :: "event_sources \<times> kernel \<Rightarrow> bool" where
  Init: "event_reach (no_sources, chSysInit)"
| Step: "event_reach s \<Longrightarrow> event_step s s' \<Longrightarrow> event_reach s'"

lemma reschedule_kinv: "kinv k \<Longrightarrow> ev_ok k \<Longrightarrow> chSchRescheduleS k = Some k' \<Longrightarrow> kinv k' \<and> highest k' \<and> ev_ok k'"
  using kinv_reschedule [of k k'] ev_ok_quiet [OF _ evt_frame.fr_reschedule, of k k'] by simp

text \<open>A thread changes its own pending events while it runs.\<close>

lemma own_pending:
  assumes "kinv k" "highest k" "ev_ok k"
  shows "kinv (set_pending (currp k) m k) \<and> highest (set_pending (currp k) m k) \<and> ev_ok (set_pending (currp k) m k)"
proof -
  have "state_of k (currp k) = CH_STATE_CURRENT" using cur_self current_unlinked(2) [OF kinvD(1) [OF assms(1)]] by blast
  then have "ev_ok (set_pending (currp k) m k)" using assms(3) by (auto simp: ev_ok_def state_of_def)
  then show ?thesis using set_pending_kinv [OF assms(1)] assms(2) by simp
qed

lemma takes_own_pending:
  "\<exists>m. snd (evt_one_take events k) = set_pending (currp k) m k" "\<exists>m. snd (evt_any_take events k) = set_pending (currp k) m k"
  "\<exists>m. snd (evt_all_take events k) = set_pending (currp k) m k"
  by (auto simp: evt_one_take_def evt_any_take_def evt_all_take_def Let_def)

text \<open>A wait ends in a sleep for events that are not pending, or with the caller's events taken.\<close>

lemma wait_cases:
  assumes "chEvtWaitOne m k = Some (r, k') \<or> chEvtWaitAny m k = Some (r, k') \<or> chEvtWaitAll m k = Some (r, k') \<or>
    chEvtWaitOneTimeout now m time k = Some (r, k') \<or> chEvtWaitAnyTimeout now m time k = Some (r, k') \<or> chEvtWaitAllTimeout now m time k = Some (r, k')"
  obtains st where "chSchGoSleepS st k = Some k' \<or> chSchGoSleepTimeoutS now st time k = Some k'"
      "(\<exists>m. st = CH_STATE_WTOREVT m \<and> pending k (currp k) AND m = 0) \<or> (\<exists>m. st = CH_STATE_WTANDEVT m \<and> pending k (currp k) AND m \<noteq> m)"
  | m' where "k' = set_pending (currp k) m' k" | "k' = k"
proof -
  note defs = chEvtWaitOne_def chEvtWaitAny_def chEvtWaitAll_def chEvtWaitOneTimeout_def chEvtWaitAnyTimeout_def chEvtWaitAllTimeout_def
  from assms have "(chSchGoSleepS (CH_STATE_WTOREVT m) k = Some k' \<or> chSchGoSleepTimeoutS now (CH_STATE_WTOREVT m) time k = Some k') \<and> pending k (currp k) AND m = 0 \<or>
      (chSchGoSleepS (CH_STATE_WTANDEVT m) k = Some k' \<or> chSchGoSleepTimeoutS now (CH_STATE_WTANDEVT m) time k = Some k') \<and> pending k (currp k) AND m \<noteq> m \<or>
      k' = snd (evt_one_take m k) \<or> k' = snd (evt_any_take m k) \<or> k' = snd (evt_all_take m k) \<or> k' = k"
    by (elim disjE) (auto simp: defs bind_eq_Some_conv split: if_splits prod.splits)
  then show ?thesis using takes_own_pending [of m k] that by blast
qed

lemma wait_kinv:
  assumes "kinv k" "highest k" "ev_ok k" "\<not> chVTIsArmedI (currp k) (vtlist k)" "currp k \<noteq> 1"
    "chEvtWaitOne m k = Some (r, k') \<or> chEvtWaitAny m k = Some (r, k') \<or> chEvtWaitAll m k = Some (r, k') \<or>
    chEvtWaitOneTimeout now m time k = Some (r, k') \<or> chEvtWaitAnyTimeout now m time k = Some (r, k') \<or> chEvtWaitAllTimeout now m time k = Some (r, k')"
  shows "kinv k' \<and> highest k' \<and> ev_ok k'"
  using assms(6)
proof (cases rule: wait_cases)
  case (1 st)
  then show ?thesis by (rule evt_sleep [OF assms(1,3-5)])
next
  case (2 m')
  then show ?thesis using own_pending [OF assms(1-3)] by simp
qed (use assms in simp)

lemma rest_kinv:
  assumes "kinv k" "highest k" "ev_ok k"
  shows "kinv (snd (evt_rest evt_one_take msg m k)) \<and> highest (snd (evt_rest evt_one_take msg m k)) \<and> ev_ok (snd (evt_rest evt_one_take msg m k))"
    "kinv (snd (evt_rest evt_any_take msg m k)) \<and> highest (snd (evt_rest evt_any_take msg m k)) \<and> ev_ok (snd (evt_rest evt_any_take msg m k))"
    "kinv (snd (evt_rest evt_all_take msg m k)) \<and> highest (snd (evt_rest evt_all_take msg m k)) \<and> ev_ok (snd (evt_rest evt_all_take msg m k))"
  using takes_own_pending [of m k] own_pending [OF assms] assms by (auto simp: evt_rest_def)

lemma ecall_kinv:
  assumes "kinv k" "highest k" "ev_ok k" "\<not> chVTIsArmedI (currp k) (vtlist k)" "currp k \<noteq> 1" "ecall_exec c (w, k) = Some (w', k')"
  shows "kinv k' \<and> highest k' \<and> ev_ok k'"
proof (cases c)
  case (EvtSignal t m)
  then have "chSchRescheduleS (chEvtSignalI t m k) = Some k'" using assms(6) by (auto simp: chEvtSignal_def bind_eq_Some_conv)
  then show ?thesis using reschedule_kinv signalI_kinv(1,2) [OF assms(1,3)] by blast
next
  case (EvtBroadcast es flags)
  obtain w1 k1 where b: "broadcast_loop flags (es_next w es) (w, k) = (w1, k1)" by fastforce
  then have "chSchRescheduleS k1 = Some k'"
    using EvtBroadcast assms(6) by (auto simp: chEvtBroadcastFlags_def chEvtBroadcastFlagsI_def bind_eq_Some_conv)
  then show ?thesis using reschedule_kinv broadcast_kinv [OF b assms(1,3)] by blast
next
  case (WaitOne m)
  then obtain r where "chEvtWaitOne m k = Some (r, k')" using assms(6) by (auto simp: bind_eq_Some_conv)
  then show ?thesis using wait_kinv [OF assms(1-5)] by blast
next
  case (WaitAny m)
  then obtain r where "chEvtWaitAny m k = Some (r, k')" using assms(6) by (auto simp: bind_eq_Some_conv)
  then show ?thesis using wait_kinv [OF assms(1-5)] by blast
next
  case (WaitAll m)
  then obtain r where "chEvtWaitAll m k = Some (r, k')" using assms(6) by (auto simp: bind_eq_Some_conv)
  then show ?thesis using wait_kinv [OF assms(1-5)] by blast
next
  case (WaitOneTimeout now m time)
  then obtain r where "chEvtWaitOneTimeout now m time k = Some (r, k')" using assms(6) by (auto simp: bind_eq_Some_conv)
  then show ?thesis using wait_kinv [OF assms(1-5)] by blast
next
  case (WaitAnyTimeout now m time)
  then obtain r where "chEvtWaitAnyTimeout now m time k = Some (r, k')" using assms(6) by (auto simp: bind_eq_Some_conv)
  then show ?thesis using wait_kinv [OF assms(1-5)] by blast
next
  case (WaitAllTimeout now m time)
  then obtain r where "chEvtWaitAllTimeout now m time k = Some (r, k')" using assms(6) by (auto simp: bind_eq_Some_conv)
  then show ?thesis using wait_kinv [OF assms(1-5)] by blast
qed (use assms rest_kinv [OF assms(1-3)] own_pending [OF assms(1-3)] in \<open>auto simp: chEvtGetAndClearEvents_def chEvtAddEvents_def\<close>)

lemma event_reach_inv: "event_reach s \<Longrightarrow> kinv (snd s) \<and> highest (snd s) \<and> ev_ok (snd s)"
proof (induction rule: event_reach.induct)
  case Init
  have "\<not> evt_wait (p_state (threads chSysInit t))" for t by (simp add: sample_defs)
  then have "ev_ok chSysInit" unfolding ev_ok_def by (metis evt_wait.simps(1,2))
  then show ?case using init_kinv by simp
next
  case (Step s s')
  from Step.hyps(2) show ?case
  proof cases
    case (Kernel k k' w)
    then show ?thesis using Step.IH kernel_step_kinv [OF Kernel(3)] ev_ok_quiet [OF _ kernel_step_quiet [OF Kernel(3)]] by simp
  next
    case (Call k c w)
    then show ?thesis using Step.IH ecall_kinv [of k c w "fst s'" "snd s'"] by simp
  next
    case (Broadcast k es flags w w' k1 k')
    then show ?thesis
      using Step.IH broadcast_kinv [of flags "es_next w es" w k w' k1] reschedule_kinv [of k1 k'] by (simp add: chEvtBroadcastFlagsI_def preemption_reschedules)
  next
    case (Signal k t m k' w)
    then show ?thesis using Step.IH signalI_kinv [of k t m] reschedule_kinv [of "chEvtSignalI t m k" k'] by (simp add: preemption_reschedules)
  qed
qed

section \<open>Properties\<close>

text \<open>
  C26: no event is missed.  In every reachable state of the kernel with events, a thread that waits
  for any event of a mask has none of them pending, and one that waits for all of them lacks at
  least one: a signal that satisfies a wait always ends it.
\<close>

theorem no_event_missed:
  assumes "event_reach (w, k)"
  shows "(p_state (threads k t) = CH_STATE_WTOREVT m \<longrightarrow> p_epending (threads k t) AND m = 0) \<and>
    (p_state (threads k t) = CH_STATE_WTANDEVT m \<longrightarrow> p_epending (threads k t) AND m \<noteq> m)"
  using event_reach_inv [OF assms] by (simp add: ev_ok_def pending_def)

subsection \<open>A broadcast reaches its listeners\<close>

definition woken :: "kernel \<Rightarrow> nat \<Rightarrow> bool" where
  "woken k t \<longleftrightarrow> p_state (threads k t) = CH_STATE_READY \<and> rdymsg (threads k t) = MSG_OK"

lemma and_or_nonzero:
  assumes "(b :: u32) AND m \<noteq> 0"
  shows "(a OR b) AND m \<noteq> 0"
proof
  assume b: "(a OR b) AND m = 0"
  have "bit ((a OR b) AND m) n = False" for n using b by simp
  then have "b AND m = 0" by (intro bit_eqI) (auto simp: bit_simps)
  then show False using assms by simp
qed

lemma and_not_or: "(e :: u32) AND NOT p = 0 \<Longrightarrow> e AND NOT (p OR x) = 0"
  by (simp add: bit_eq_iff bit_simps)

lemma and_not_self: "(e :: u32) AND NOT (p OR e) = 0"
  by (simp add: bit_eq_iff bit_simps)

lemma signalI_pending: "pending (chEvtSignalI t ev k) = (pending k)(t := pending k t OR ev)"
  by (simp add: chEvtSignalI_def Let_def split: tstate.split)

lemma signalI_woken: "woken k u \<Longrightarrow> woken (chEvtSignalI t ev k) u"
  by (auto simp: chEvtSignalI_def Let_def woken_def ready_threads split: tstate.splits)

lemma signalI_waiting:
  assumes "p_state (threads k u) = CH_STATE_WTOREVT m"
  shows "woken (chEvtSignalI t ev k) u \<or> p_state (threads (chEvtSignalI t ev k) u) = CH_STATE_WTOREVT m"
    "t = u \<Longrightarrow> ev AND m \<noteq> 0 \<Longrightarrow> woken (chEvtSignalI t ev k) u"
  using assms by (auto simp: chEvtSignalI_def Let_def woken_def ready_threads and_or_nonzero split: tstate.splits)

text \<open>One round of the loop.\<close>

lemma broadcast_round:
  "\<exists>w1 k1. broadcast_loop flags (el # els) (w, k) = broadcast_loop flags els (w1, k1) \<and>
    (\<forall>l. el_listener (listeners w1 l) = el_listener (listeners w l) \<and> el_events (listeners w1 l) = el_events (listeners w l) \<and>
       el_wflags (listeners w1 l) = el_wflags (listeners w l)) \<and>
    (k1 = k \<or> k1 = chEvtSignalI (el_listener (listeners w el)) (el_events (listeners w el)) k) \<and>
    (flags = 0 \<or> flags AND el_wflags (listeners w el) \<noteq> 0 \<longrightarrow> k1 = chEvtSignalI (el_listener (listeners w el)) (el_events (listeners w el)) k)"
proof -
  let ?w = "w\<lparr>listeners := (listeners w)(el := (listeners w el)\<lparr>el_flags := el_flags (listeners w el) OR flags\<rparr>)\<rparr>"
  let ?k = "if flags = 0 \<or> (el_flags (listeners w el) OR flags) AND el_wflags (listeners w el) \<noteq> 0
    then chEvtSignalI (el_listener (listeners w el)) (el_events (listeners w el)) k else k"
  show ?thesis by (rule exI [of _ ?w], rule exI [of _ ?k]) (auto simp: Let_def and_or_nonzero)
qed

lemma broadcast_keeps_woken:
  "broadcast_loop flags els (w, k) = (w', k') \<Longrightarrow> woken k t \<Longrightarrow> ev AND NOT (pending k t) = 0 \<Longrightarrow> woken k' t \<and> ev AND NOT (pending k' t) = 0"
proof (induction els arbitrary: w k)
  case (Cons el els)
  obtain w1 k1 where r: "broadcast_loop flags (el # els) (w, k) = broadcast_loop flags els (w1, k1)"
    "k1 = k \<or> k1 = chEvtSignalI (el_listener (listeners w el)) (el_events (listeners w el)) k" using broadcast_round [of flags el els w k] by blast
  have "woken k1 t \<and> ev AND NOT (pending k1 t) = 0" using and_not_or [OF Cons.prems(3)] r(2) signalI_woken [OF Cons.prems(2)] Cons.prems(2,3) by (auto simp: signalI_pending)
  then show ?case using Cons.IH [of w1 k1] Cons.prems(1) r(1) by simp
qed simp

lemma broadcast_wakes:
  assumes "broadcast_loop flags els (w, k) = (w', k')" "el \<in> set els" "flags = 0 \<or> flags AND el_wflags (listeners w el) \<noteq> 0"
    "woken k (el_listener (listeners w el)) \<or> p_state (threads k (el_listener (listeners w el))) = CH_STATE_WTOREVT m" "el_events (listeners w el) AND m \<noteq> 0"
  shows "woken k' (el_listener (listeners w el)) \<and> el_events (listeners w el) AND NOT (pending k' (el_listener (listeners w el))) = 0"
  using assms
proof (induction els arbitrary: w k)
  case (Cons l els)
  let ?t = "el_listener (listeners w el)" let ?e = "el_events (listeners w el)"
  obtain w1 k1 where r: "broadcast_loop flags (l # els) (w, k) = broadcast_loop flags els (w1, k1)"
    "\<And>l. el_listener (listeners w1 l) = el_listener (listeners w l) \<and> el_events (listeners w1 l) = el_events (listeners w l) \<and>
       el_wflags (listeners w1 l) = el_wflags (listeners w l)"
    "k1 = k \<or> k1 = chEvtSignalI (el_listener (listeners w l)) (el_events (listeners w l)) k"
    "flags = 0 \<or> flags AND el_wflags (listeners w l) \<noteq> 0 \<Longrightarrow> k1 = chEvtSignalI (el_listener (listeners w l)) (el_events (listeners w l)) k"
    using broadcast_round [of flags l els w k] by blast
  have b: "broadcast_loop flags els (w1, k1) = (w', k')" using Cons.prems(1) r(1) by simp
  show ?case
  proof (cases "l = el")
    case True
    then have k1: "k1 = chEvtSignalI ?t ?e k" using r(4) Cons.prems(3) by simp
    have "woken k1 ?t" using Cons.prems(4,5) signalI_woken signalI_waiting(2) [of k ?t m ?t ?e] unfolding k1 by blast
    moreover have "?e AND NOT (pending k1 ?t) = 0"
      unfolding k1 signalI_pending fun_upd_same by (rule and_not_self)
    ultimately show ?thesis using broadcast_keeps_woken [OF b] by blast
  next
    case False
    have "woken k1 ?t \<or> p_state (threads k1 ?t) = CH_STATE_WTOREVT m" using r(3) Cons.prems(4) signalI_woken signalI_waiting(1) by blast
    then show ?thesis using Cons.IH [OF b] Cons.prems(2,3,5) False r(2) by simp
  qed
qed simp

text \<open>
  A broadcast reaches its listeners.  Broadcasting on a source makes ready, with \<open>MSG_OK\<close> and its
  events pending, every thread with a listener there that wants the flags and that waits for one
  of the listener's events.
\<close>

lemma broadcast_wakes_listener:
  assumes "el \<in> set (es_next w es)" "flags = 0 \<or> flags AND el_wflags (listeners w el) \<noteq> 0"
    "p_state (threads k (el_listener (listeners w el))) = CH_STATE_WTOREVT m" "el_events (listeners w el) AND m \<noteq> 0"
  shows "\<exists>w' k'. chEvtBroadcastFlagsI es flags (w, k) = (w', k') \<and>
    p_state (threads k' (el_listener (listeners w el))) = CH_STATE_READY \<and> rdymsg (threads k' (el_listener (listeners w el))) = MSG_OK \<and>
    el_events (listeners w el) AND NOT (p_epending (threads k' (el_listener (listeners w el)))) = 0"
proof -
  obtain w' k' where b: "broadcast_loop flags (es_next w es) (w, k) = (w', k')" by fastforce
  from broadcast_wakes [OF b assms(1,2) _ assms(4)] assms(3) show ?thesis
    using b by (auto simp: chEvtBroadcastFlagsI_def woken_def pending_def)
qed

subsection \<open>The receiver of the firmware\<close>

text \<open>
  Thread 2, the CAN receiver, registers listener 0 on source 0, the receive event of the CAN
  driver, and waits for any event for up to 10000 ticks; \<open>evt_k\<close> is the kernel then.
\<close>

definition evt_w :: event_sources where "evt_w = chEvtRegister 0 0 0 sample_k2 no_sources"
definition evt_k :: kernel where "evt_k = snd (the (chEvtWaitAnyTimeout 100 (- 1) 10000 sample_k2))"

lemma evt_k: "chEvtWaitAnyTimeout 100 (- 1) 10000 sample_k2 = Some (None, evt_k)" "p_state (threads evt_k 2) = CH_STATE_WTOREVT (- 1)"
  using sample_k2(2,3)
  by (simp_all add: evt_k_def chEvtWaitAnyTimeout_def chSchGoSleepTimeoutS_def chSchGoSleepS_def queue_fifo_remove_def pending_def)
    (simp_all add: sample_k2_def sample_k1 chThdSleep_def chThdSleepS_def chSchGoSleepTimeoutS_def chSchGoSleepS_def
      queue_fifo_remove_def blank_thread_def)
lemma kernel_event_reach: "kernel_reach k \<Longrightarrow> event_reach (no_sources, k)"
  by (induction rule: kernel_reach.induct) (auto intro: event_reach.intros event_step.Kernel)

lemma evt_reach: "event_reach (evt_w, evt_k)"
proof -
  have a: "\<not> chVTIsArmedI (currp sample_k2) (vtlist sample_k2)" "currp sample_k2 \<noteq> 1" by (simp_all add: sample_k2 armed_keys)
  have "event_step (no_sources, sample_k2) (evt_w, sample_k2)"
    by (rule event_step.Call [OF a, where c = "RegisterMask 0 0 (EVENT_MASK 0) (- 1)"]) (simp add: evt_w_def chEvtRegister_def chEvtRegisterMask_def)
  moreover have "event_step (evt_w, sample_k2) (evt_w, evt_k)"
    by (rule event_step.Call [OF a, where c = "WaitAnyTimeout 100 (- 1) 10000"]) (simp add: evt_k)
  ultimately show ?thesis using kernel_event_reach [OF sample_reach(2)] event_reach.Step by blast
qed

theorem no_event_missed_witness: "p_epending (threads evt_k 2) = 0"
  using no_event_missed [OF evt_reach, of 2 "- 1"] evt_k(2) by simp

subsection \<open>Dispatch\<close>

lemma event_mask_bit: "eid < 32 \<Longrightarrow> events AND EVENT_MASK eid \<noteq> 0 \<longleftrightarrow> bit (events :: u32) eid"
  by (simp add: EVENT_MASK_def and_exp_eq_0_iff_not_bit)

lemma clear_mask_bit: "eid < 32 \<Longrightarrow> bit (events AND NOT (EVENT_MASK eid)) n \<longleftrightarrow> bit (events :: u32) n \<and> n \<noteq> eid"
  by (auto simp: EVENT_MASK_def bit_simps dest: bit_imp_le_length)

lemma dispatch_loop_bits:
  "dispatch_loop eid events = filter (bit events) [eid..<32]" if "\<And>n. bit events n \<Longrightarrow> eid \<le> n" for events :: u32
  using that
proof (induction eid events rule: dispatch_loop.induct)
  case (1 eid events)
  show ?case
  proof (cases "events = 0 \<or> 32 \<le> eid")
    case True
    then show ?thesis by (subst dispatch_loop.simps) auto
  next
    case False
    then have u: "[eid..<32] = eid # [Suc eid..<32]" by (simp add: upt_conv_Cons)
    show ?thesis
    proof (cases "bit events eid")
      case True
      have l: "Suc eid \<le> n" if "bit (events AND NOT (EVENT_MASK eid)) n" for n
        using that "1.prems" [of n] False by (simp add: clear_mask_bit)
      have "filter (bit (events AND NOT (EVENT_MASK eid))) [Suc eid..<32] = filter (bit events) [Suc eid..<32]"
        using False by (intro filter_cong) (auto simp: clear_mask_bit)
      then show ?thesis using True False u "1.IH"(1) [OF False _ l] by (subst dispatch_loop.simps) (simp add: event_mask_bit)
    next
      case nb: False
      have "Suc eid \<le> n" if "bit events n" for n using "1.prems" [OF that] nb that by (cases "n = eid") auto
      then show ?thesis using nb False u "1.IH"(2) [OF False] by (subst dispatch_loop.simps) (simp add: event_mask_bit)
    qed
  qed
qed

text \<open>The handlers of exactly the events given are called, once each, lowest identifier first.\<close>

lemma chEvtDispatch_bits: "chEvtDispatch events = filter (bit events) [0..<32]"
  by (simp add: chEvtDispatch_def dispatch_loop_bits)

end
