(* ===== verification/Mutex.thy ===== *)
theory Mutex
  imports Frame
begin

text \<open>
  Mutexes with priority inheritance, \<^verbatim>\<open>os/rt/src/chmtx.c\<close>, and condition variables,
  \<^verbatim>\<open>os/rt/src/chcond.c\<close>; recursive mutexes are off.  The list of the mutexes a thread owns is
  linked as in the code, from \<open>p_mtxlist\<close> of the thread along \<open>m_next\<close> of the mutexes.  The loops
  that follow pointers are partial functions: \<open>None\<close> is a loop that does not end, a null pointer
  that is followed, or a switch with an empty ready list.
\<close>

definition upd_mtx :: "nat \<Rightarrow> (mutex \<Rightarrow> mutex) \<Rightarrow> kernel \<Rightarrow> kernel" where
  "upd_mtx m f k = k\<lparr>mtxs := (mtxs k)(m := f (mtxs k m))\<rparr>"

definition upd_cond :: "nat \<Rightarrow> (nat list \<Rightarrow> nat list) \<Rightarrow> kernel \<Rightarrow> kernel" where
  "upd_cond c f k = k\<lparr>conds := (conds k)(c := f (conds k c))\<rparr>"

definition set_prio :: "nat \<Rightarrow> nat \<Rightarrow> kernel \<Rightarrow> kernel" where "set_prio t p = upd_thread t (\<lambda>th. th\<lparr>p_prio := p\<rparr>)"
definition set_mtxlist :: "nat \<Rightarrow> nat option \<Rightarrow> kernel \<Rightarrow> kernel" where "set_mtxlist t l = upd_thread t (\<lambda>th. th\<lparr>p_mtxlist := l\<rparr>)"

section \<open>Mutexes\<close>

definition chMtxObjectInit :: "nat \<Rightarrow> kernel \<Rightarrow> kernel" where
  "chMtxObjectInit m = upd_mtx m (\<lambda>mx. mx\<lparr>m_queue := [], m_owner := None\<rparr>)"

definition chMtxQueueNotEmptyS :: "nat \<Rightarrow> kernel \<Rightarrow> bool" where "chMtxQueueNotEmptyS m k \<longleftrightarrow> m_queue (mtxs k m) \<noteq> []"
definition chMtxGetNextMutexS :: "kernel \<Rightarrow> nat option" where "chMtxGetNextMutexS k = p_mtxlist (threads k (currp k))"

text \<open>Thread \<open>t\<close> becomes the owner of mutex \<open>m\<close>, which is put in front of its list.\<close>

definition mtx_own :: "nat \<Rightarrow> nat \<Rightarrow> kernel \<Rightarrow> kernel" where
  "mtx_own t m k = set_mtxlist t (Some m) (upd_mtx m (\<lambda>mx. mx\<lparr>m_owner := Some t, m_next := p_mtxlist (threads k t)\<rparr>) k)"

text \<open>The loop of \<^verbatim>\<open>chMtxLockS\<close> that hands the priority of \<open>ctp\<close> on, from owner to owner.\<close>

partial_function (option) boost_loop :: "nat \<Rightarrow> nat \<Rightarrow> kernel \<Rightarrow> kernel option" where
  "boost_loop ctp tp k =
     (if prio_of k tp < prio_of k ctp
      then let k = set_prio tp (prio_of k ctp) k
           in case p_state (threads k tp) of
                CH_STATE_WTMTX m \<Rightarrow>
                  (let k = upd_mtx m (\<lambda>mx. mx\<lparr>m_queue := prio_insert (prio_of k) tp (queue_dequeue tp (m_queue mx))\<rparr>) k
                   in Option.bind (m_owner (mtxs k m)) (\<lambda>own. boost_loop ctp own k))
              | CH_STATE_WTCOND c \<Rightarrow> Some (upd_cond c (\<lambda>q. prio_insert (prio_of k) tp (queue_dequeue tp q)) k)
              | CH_STATE_READY \<Rightarrow> Some (chSchReadyI tp (k\<lparr>r_queue := queue_dequeue tp (r_queue k)\<rparr>))
              | _ \<Rightarrow> Some k
      else Some k)"

declare boost_loop.simps [code]

definition chMtxLockS :: "nat \<Rightarrow> kernel \<Rightarrow> kernel option" where
  "chMtxLockS m k =
     (let ctp = currp k
      in case m_owner (mtxs k m) of
           Some tp \<Rightarrow>
             do {
               k \<leftarrow> boost_loop ctp tp k;
               chSchGoSleepS (CH_STATE_WTMTX m) (upd_mtx m (\<lambda>mx. mx\<lparr>m_queue := prio_insert (prio_of k) ctp (m_queue mx)\<rparr>) k)
             }
         | None \<Rightarrow> Some (mtx_own ctp m k))"

definition chMtxLock :: "nat \<Rightarrow> kernel \<Rightarrow> kernel option" where "chMtxLock = chMtxLockS"

definition chMtxTryLockS :: "nat \<Rightarrow> kernel \<Rightarrow> bool \<times> kernel" where
  "chMtxTryLockS m k = (if m_owner (mtxs k m) \<noteq> None then (False, k) else (True, mtx_own (currp k) m k))"

definition chMtxTryLock :: "nat \<Rightarrow> kernel \<Rightarrow> bool \<times> kernel" where "chMtxTryLock = chMtxTryLockS"

text \<open>The priority the thread falls back to: the highest of its own and of those waiting on the mutexes it keeps.\<close>

partial_function (option) newprio_loop :: "kernel \<Rightarrow> nat option \<Rightarrow> nat \<Rightarrow> nat option" where
  "newprio_loop k lmp newprio =
     (case lmp of
        None \<Rightarrow> Some newprio
      | Some m \<Rightarrow> newprio_loop k (m_next (mtxs k m))
          (case m_queue (mtxs k m) of t # _ \<Rightarrow> if prio_of k t > newprio then prio_of k t else newprio | [] \<Rightarrow> newprio))"

declare newprio_loop.simps [code]

text \<open>The first waiting thread becomes the owner and ready.\<close>

definition hand_over :: "nat \<Rightarrow> kernel \<Rightarrow> kernel option" where
  "hand_over m k =
     do {
       (tp, q) \<leftarrow> queue_fifo_remove (m_queue (mtxs k m));
       Some (chSchReadyI tp (mtx_own tp m (upd_mtx m (\<lambda>mx. mx\<lparr>m_queue := q\<rparr>) k)))
     }"

text \<open>The part of an unlock with waiting threads up to the wake-up, the mutex being off the list of \<open>ctp\<close>.\<close>

definition unlock_waiting :: "nat \<Rightarrow> nat \<Rightarrow> kernel \<Rightarrow> kernel option" where
  "unlock_waiting ctp m k =
     do {
       newprio \<leftarrow> newprio_loop k (p_mtxlist (threads k ctp)) (p_realprio (threads k ctp));
       hand_over m (set_prio ctp newprio k)
     }"

definition chMtxUnlock :: "nat \<Rightarrow> kernel \<Rightarrow> kernel option" where
  "chMtxUnlock m k =
     (let ctp = currp k; k = set_mtxlist ctp (m_next (mtxs k m)) k
      in if chMtxQueueNotEmptyS m k then do { k \<leftarrow> unlock_waiting ctp m k; chSchRescheduleS k }
         else Some (upd_mtx m (\<lambda>mx. mx\<lparr>m_owner := None\<rparr>) k))"

definition chMtxUnlockS :: "nat \<Rightarrow> kernel \<Rightarrow> kernel option" where
  "chMtxUnlockS m k =
     (let ctp = currp k; k = set_mtxlist ctp (m_next (mtxs k m)) k
      in if chMtxQueueNotEmptyS m k then unlock_waiting ctp m k
         else Some (upd_mtx m (\<lambda>mx. mx\<lparr>m_owner := None\<rparr>) k))"

partial_function (option) unlock_all_loop :: "nat \<Rightarrow> kernel \<Rightarrow> kernel option" where
  "unlock_all_loop ctp k =
     (case p_mtxlist (threads k ctp) of
        None \<Rightarrow> Some k
      | Some m \<Rightarrow>
          (let k = set_mtxlist ctp (m_next (mtxs k m)) k
           in Option.bind (if chMtxQueueNotEmptyS m k then hand_over m k else Some (upd_mtx m (\<lambda>mx. mx\<lparr>m_owner := None\<rparr>) k))
                (unlock_all_loop ctp)))"

declare unlock_all_loop.simps [code]

definition chMtxUnlockAll :: "kernel \<Rightarrow> kernel option" where
  "chMtxUnlockAll k =
     (let ctp = currp k
      in if p_mtxlist (threads k ctp) \<noteq> None
         then do {
           k \<leftarrow> unlock_all_loop ctp k;
           chSchRescheduleS (set_prio ctp (p_realprio (threads k ctp)) k)
         }
         else Some k)"

section \<open>Condition variables\<close>

definition chCondObjectInit :: "nat \<Rightarrow> kernel \<Rightarrow> kernel" where "chCondObjectInit c = upd_cond c (\<lambda>_. [])"

definition chCondSignal :: "nat \<Rightarrow> kernel \<Rightarrow> kernel" where
  "chCondSignal c k = (case queue_fifo_remove (conds k c) of None \<Rightarrow> k | Some (t, q) \<Rightarrow> chSchWakeupS t MSG_OK (upd_cond c (\<lambda>_. q) k))"

definition chCondSignalI :: "nat \<Rightarrow> kernel \<Rightarrow> kernel" where
  "chCondSignalI c k = (case queue_fifo_remove (conds k c) of None \<Rightarrow> k | Some (t, q) \<Rightarrow> chSchReadyI t (set_msg t MSG_OK (upd_cond c (\<lambda>_. q) k)))"

function chCondBroadcastI :: "nat \<Rightarrow> kernel \<Rightarrow> kernel" where
  "chCondBroadcastI c k =
     (case queue_fifo_remove (conds k c) of
        None \<Rightarrow> k
      | Some (t, q) \<Rightarrow> chCondBroadcastI c (set_msg t MSG_RESET (chSchReadyI t (upd_cond c (\<lambda>_. q) k))))"
  by pat_completeness auto
termination by (relation "measure (\<lambda>(c, k). length (conds k c))") (auto simp: queue_fifo_remove_def upd_cond_def split: list.splits)

declare chCondBroadcastI.simps [simp del]

definition chCondBroadcast :: "nat \<Rightarrow> kernel \<Rightarrow> kernel option" where
  "chCondBroadcast c k = chSchRescheduleS (chCondBroadcastI c k)"

text \<open>
  The wait up to the switch: the mutex taken last is released.  \<open>cond_wait_rest\<close> and \<open>cond_timeout_rest\<close>
  are run by the thread when it is resumed, with that mutex.
\<close>

definition chCondWaitS :: "nat \<Rightarrow> kernel \<Rightarrow> kernel option" where
  "chCondWaitS c k =
     do {
       let ctp = currp k;
       mp \<leftarrow> chMtxGetNextMutexS k;
       k \<leftarrow> chMtxUnlockS mp k;
       chSchGoSleepS (CH_STATE_WTCOND c) (upd_cond c (prio_insert (prio_of k) ctp) k)
     }"

definition cond_wait_rest :: "nat \<Rightarrow> kernel \<Rightarrow> (msg_t \<times> kernel) option" where
  "cond_wait_rest mp k = (let msg = rdymsg (threads k (currp k)) in do { k \<leftarrow> chMtxLockS mp k; Some (msg, k) })"

definition chCondWait :: "nat \<Rightarrow> kernel \<Rightarrow> kernel option" where "chCondWait = chCondWaitS"

definition chCondWaitTimeoutS :: "systime_t \<Rightarrow> nat \<Rightarrow> systime_t \<Rightarrow> kernel \<Rightarrow> kernel option" where
  "chCondWaitTimeoutS now c time k =
     do {
       mp \<leftarrow> chMtxGetNextMutexS k;
       k \<leftarrow> chMtxUnlockS mp k;
       chSchGoSleepTimeoutS now (CH_STATE_WTCOND c) time (upd_cond c (prio_insert (prio_of k) (currp k)) k)
     }"

definition cond_timeout_rest :: "systime_t \<Rightarrow> systime_t \<Rightarrow> nat \<Rightarrow> kernel \<Rightarrow> (msg_t \<times> kernel) option" where
  "cond_timeout_rest now time mp k =
     (let (msg, k) = sleep_resumed now time k
      in if msg \<noteq> MSG_TIMEOUT then do { k \<leftarrow> chMtxLockS mp k; Some (msg, k) } else Some (msg, k))"

definition chCondWaitTimeout :: "systime_t \<Rightarrow> nat \<Rightarrow> systime_t \<Rightarrow> kernel \<Rightarrow> kernel option" where "chCondWaitTimeout = chCondWaitTimeoutS"

section \<open>The invariants\<close>

text \<open>The pointers from \<open>p\<close> along \<open>h\<close> visit the elements of a list and end.\<close>

fun chain :: "(nat \<Rightarrow> nat option) \<Rightarrow> nat option \<Rightarrow> nat list \<Rightarrow> bool" where
  "chain h p [] \<longleftrightarrow> p = None"
| "chain h p (m # ms) \<longleftrightarrow> p = Some m \<and> chain h (h m) ms"

definition next_mtx :: "kernel \<Rightarrow> nat \<Rightarrow> nat option" where "next_mtx k m = m_next (mtxs k m)"
definition owner :: "kernel \<Rightarrow> nat \<Rightarrow> nat option" where "owner k m = m_owner (mtxs k m)"
definition mtxq :: "kernel \<Rightarrow> nat \<Rightarrow> nat list" where "mtxq k m = m_queue (mtxs k m)"
definition mtxlist :: "kernel \<Rightarrow> nat \<Rightarrow> nat option" where "mtxlist k t = p_mtxlist (threads k t)"
definition realprio :: "kernel \<Rightarrow> nat \<Rightarrow> nat" where "realprio k t = p_realprio (threads k t)"

definition owns :: "kernel \<Rightarrow> nat \<Rightarrow> nat list \<Rightarrow> bool" where
  "owns k t ms \<longleftrightarrow> chain (next_mtx k) (mtxlist k t) ms \<and> (\<forall>m. m \<in> set ms \<longleftrightarrow> owner k m = Some t)"

definition own_ok :: "kernel \<Rightarrow> bool" where
  "own_ok k \<longleftrightarrow> (\<forall>t. \<exists>ms. owns k t ms) \<and> (\<forall>m. mtxq k m \<noteq> [] \<longrightarrow> owner k m \<noteq> None) \<and> finite (\<Union>m. set (mtxq k m))"

definition prio_sorted :: "kernel \<Rightarrow> nat list \<Rightarrow> bool" where
  "prio_sorted k q \<longleftrightarrow> sorted_wrt (\<lambda>a b. prio_of k a \<ge> prio_of k b) q"

definition queues_ok :: "kernel \<Rightarrow> bool" where
  "queues_ok k \<longleftrightarrow> (\<forall>m. prio_sorted k (mtxq k m)) \<and> (\<forall>c. prio_sorted k (conds k c))"

text \<open>The priorities of the threads that wait on the mutexes of \<open>t\<close>.\<close>

definition blocked_by :: "kernel \<Rightarrow> nat \<Rightarrow> nat set" where "blocked_by k t = (\<Union>m \<in> {m. owner k m = Some t}. set (mtxq k m))"
definition demands :: "kernel \<Rightarrow> nat \<Rightarrow> nat set" where "demands k t = prio_of k ` blocked_by k t"

text \<open>The priority of \<open>t\<close> is the highest of its own, of those in \<open>D\<close> and of those waiting on its mutexes.\<close>

definition inh :: "kernel \<Rightarrow> nat set \<Rightarrow> nat \<Rightarrow> bool" where
  "inh k D t \<longleftrightarrow> realprio k t \<le> prio_of k t \<and> (\<forall>d \<in> demands k t \<union> D. d \<le> prio_of k t) \<and>
     (prio_of k t = realprio k t \<or> prio_of k t \<in> demands k t \<union> D)"

definition inherit_ok :: "kernel \<Rightarrow> bool" where "inherit_ok k \<longleftrightarrow> (\<forall>t. inh k {} t)"

lemma chain_unique: "chain h p ms \<Longrightarrow> chain h p ms' \<Longrightarrow> ms' = ms"
proof (induction ms arbitrary: p ms')
  case Nil
  then show ?case by (cases ms') simp_all
next
  case (Cons m ms)
  then show ?case by (cases ms') auto
qed

lemma chain_append: "chain h p (xs @ m # ys) \<Longrightarrow> chain h (Some m) (m # ys)"
  by (induction xs arbitrary: p) auto

lemma chain_distinct: "chain h p ms \<Longrightarrow> distinct ms"
proof (induction ms arbitrary: p)
  case (Cons m ms)
  have "m \<notin> set ms"
  proof
    assume "m \<in> set ms"
    then obtain xs ys where ms: "ms = xs @ m # ys" by (meson split_list)
    have "chain h (h m) ms" "chain h (h m) ys" using Cons.prems chain_append [of h "h m" xs m ys] unfolding ms by auto
    then have "ys = ms" by (metis chain_unique)
    then show False using ms by simp
  qed
  then show ?case using Cons by auto
qed simp

lemma chain_upd: "m \<notin> set ms \<Longrightarrow> chain (h(m := x)) p ms = chain h p ms"
  by (induction ms arbitrary: p) auto

lemma own_okD:
  assumes "own_ok k"
  shows "\<exists>ms. owns k t ms" "mtxq k m \<noteq> [] \<Longrightarrow> \<exists>t. owner k m = Some t" "finite (\<Union>m. set (mtxq k m))"
  using assms by (auto simp: own_ok_def)

lemma ownsD: "owns k t ms \<Longrightarrow> m \<in> set ms \<longleftrightarrow> owner k m = Some t" "owns k t ms \<Longrightarrow> distinct ms"
  "owns k t ms \<Longrightarrow> chain (next_mtx k) (mtxlist k t) ms"
  by (auto simp: owns_def dest: chain_distinct)

lemma queues_okD: "queues_ok k \<Longrightarrow> prio_sorted k (mtxq k m)" "queues_ok k \<Longrightarrow> prio_sorted k (conds k c)"
  by (simp_all add: queues_ok_def)

section \<open>Calls of the base kernel\<close>

text \<open>Mutexes and priorities are untouched; the queues of the condition variables may lose threads.\<close>

definition calm :: "kernel \<Rightarrow> kernel \<Rightarrow> bool" where
  "calm k k' \<longleftrightarrow> mtxs k' = mtxs k \<and> mtxlist k' = mtxlist k \<and> prio_of k' = prio_of k \<and> realprio k' = realprio k \<and>
     (\<forall>c P. sorted_wrt P (conds k c) \<longrightarrow> sorted_wrt P (conds k' c))"

lemma sorted_wrt_remove1: "sorted_wrt P xs \<Longrightarrow> sorted_wrt P (remove1 x xs)"
  by (induction xs) (auto dest: notin_set_remove1 in_set_remove1)

lemma field_upds [simp]:
  "mtxlist (set_state t st k) = mtxlist k" "mtxlist (set_msg t m k) = mtxlist k" "realprio (set_state t st k) = realprio k"
  "realprio (set_msg t m k) = realprio k" "mtxlist (chSchReadyI t k) = mtxlist k" "realprio (chSchReadyI t k) = realprio k"
  by (auto simp: mtxlist_def realprio_def fun_eq_iff ready_threads)

lemma mtx_fields:
  "mtxs k' = mtxs k \<Longrightarrow> owner k' = owner k \<and> mtxq k' = mtxq k \<and> next_mtx k' = next_mtx k"
  by (auto simp: owner_def mtxq_def next_mtx_def)

interpretation mtx_frame: kernel_frame calm
proof unfold_locales
  fix k k1 k2 :: kernel and t v q c l r tq s f
  show "calm k k" by (simp add: calm_def)
  show "calm k k2" if "calm k k1" "calm k1 k2" using that by (simp add: calm_def)
  show "calm k (set_state t st k)" if "plain st" for st by (simp add: calm_def)
  show "calm k (set_msg t m k)" for m by (simp add: calm_def)
  show "calm k (k\<lparr>conds := (conds k)(v := remove1 t (conds k v))\<rparr>)"
    by (auto simp: calm_def sorted_wrt_remove1 mtxlist_def realprio_def fun_eq_iff)
  show "calm k (upd_thread t (\<lambda>th. th\<lparr>p_waiting := f th\<rparr>) k)"
    by (auto simp: calm_def mtxlist_def realprio_def fun_eq_iff)
  show "calm k (chThdTerminate t k)"
    by (auto simp: calm_def mtxlist_def realprio_def prio_of_def fun_eq_iff chThdTerminate_def)
qed (auto simp: calm_def mtxlist_def realprio_def fun_eq_iff)

lemma calm_ok:
  assumes "calm k k'"
  shows "own_ok k \<Longrightarrow> own_ok k'" "queues_ok k \<Longrightarrow> queues_ok k'" "inherit_ok k \<Longrightarrow> inherit_ok k'"
proof -
  have e: "owner k' = owner k" "mtxq k' = mtxq k" "next_mtx k' = next_mtx k" "mtxlist k' = mtxlist k" "prio_of k' = prio_of k" "realprio k' = realprio k"
    using assms mtx_fields [of k' k] by (simp_all add: calm_def)
  show "own_ok k \<Longrightarrow> own_ok k'" by (simp add: own_ok_def owns_def e)
  show "queues_ok k \<Longrightarrow> queues_ok k'" using assms by (simp add: queues_ok_def prio_sorted_def e calm_def)
  show "inherit_ok k \<Longrightarrow> inherit_ok k'" by (simp add: inherit_ok_def inh_def demands_def blocked_by_def e)
qed

section \<open>Priority inheritance\<close>

lemma field_update_simps [simp]:
  "mtxlist (k\<lparr>r_queue := q\<rparr>) = mtxlist k" "realprio (k\<lparr>r_queue := q\<rparr>) = realprio k"
  "owner (k\<lparr>r_queue := q\<rparr>) = owner k" "mtxq (k\<lparr>r_queue := q\<rparr>) = mtxq k" "next_mtx (k\<lparr>r_queue := q\<rparr>) = next_mtx k"
  "owner (set_state t st k) = owner k" "mtxq (set_state t st k) = mtxq k" "next_mtx (set_state t st k) = next_mtx k"
  "owner (chSchReadyI t k) = owner k" "mtxq (chSchReadyI t k) = mtxq k" "next_mtx (chSchReadyI t k) = next_mtx k"
  by (auto simp: mtxlist_def realprio_def owner_def mtxq_def next_mtx_def fun_eq_iff)

lemma upd_mtx_simps [simp]:
  "threads (upd_mtx m f k) = threads k" "r_queue (upd_mtx m f k) = r_queue k" "currp (upd_mtx m f k) = currp k" "vtlist (upd_mtx m f k) = vtlist k"
  "trefs (upd_mtx m f k) = trefs k" "tqueues (upd_mtx m f k) = tqueues k" "sems (upd_mtx m f k) = sems k" "conds (upd_mtx m f k) = conds k"
  "mtxs (upd_mtx m f k) = (mtxs k)(m := f (mtxs k m))" "state_of (upd_mtx m f k) = state_of k" "waiters (upd_mtx m f k) = waiters k"
  "msgq (upd_mtx m f k) = msgq k" "prio_of (upd_mtx m f k) = prio_of k" "realprio (upd_mtx m f k) = realprio k" "mtxlist (upd_mtx m f k) = mtxlist k"
  "owner (upd_mtx m f k) = (owner k)(m := m_owner (f (mtxs k m)))" "mtxq (upd_mtx m f k) = (mtxq k)(m := m_queue (f (mtxs k m)))"
  "next_mtx (upd_mtx m f k) = (next_mtx k)(m := m_next (f (mtxs k m)))"
  by (auto simp: upd_mtx_def mtxlist_def realprio_def owner_def mtxq_def next_mtx_def fun_eq_iff)

lemma upd_cond_simps [simp]:
  "threads (upd_cond c f k) = threads k" "r_queue (upd_cond c f k) = r_queue k" "currp (upd_cond c f k) = currp k" "vtlist (upd_cond c f k) = vtlist k"
  "trefs (upd_cond c f k) = trefs k" "tqueues (upd_cond c f k) = tqueues k" "sems (upd_cond c f k) = sems k" "mtxs (upd_cond c f k) = mtxs k"
  "conds (upd_cond c f k) = (conds k)(c := f (conds k c))" "state_of (upd_cond c f k) = state_of k" "waiters (upd_cond c f k) = waiters k"
  "msgq (upd_cond c f k) = msgq k" "prio_of (upd_cond c f k) = prio_of k" "realprio (upd_cond c f k) = realprio k" "mtxlist (upd_cond c f k) = mtxlist k"
  "owner (upd_cond c f k) = owner k" "mtxq (upd_cond c f k) = mtxq k" "next_mtx (upd_cond c f k) = next_mtx k"
  by (auto simp: upd_cond_def mtxlist_def realprio_def owner_def mtxq_def next_mtx_def fun_eq_iff)

lemma set_prio_simps [simp]:
  "r_queue (set_prio t p k) = r_queue k" "currp (set_prio t p k) = currp k" "vtlist (set_prio t p k) = vtlist k"
  "trefs (set_prio t p k) = trefs k" "tqueues (set_prio t p k) = tqueues k" "sems (set_prio t p k) = sems k" "conds (set_prio t p k) = conds k"
  "mtxs (set_prio t p k) = mtxs k" "state_of (set_prio t p k) = state_of k" "waiters (set_prio t p k) = waiters k"
  "msgq (set_prio t p k) = msgq k" "prio_of (set_prio t p k) = (prio_of k)(t := p)" "realprio (set_prio t p k) = realprio k"
  "mtxlist (set_prio t p k) = mtxlist k" "owner (set_prio t p k) = owner k" "mtxq (set_prio t p k) = mtxq k" "next_mtx (set_prio t p k) = next_mtx k"
  "p_state (threads (set_prio t p k) u) = p_state (threads k u)" "p_realprio (threads (set_prio t p k) u) = p_realprio (threads k u)"
  "p_mtxlist (threads (set_prio t p k) u) = p_mtxlist (threads k u)"
  by (auto simp: set_prio_def mtxlist_def realprio_def owner_def mtxq_def next_mtx_def state_of_def waiters_def msgq_def prio_of_def fun_eq_iff)

lemma set_mtxlist_simps [simp]:
  "r_queue (set_mtxlist t l k) = r_queue k" "currp (set_mtxlist t l k) = currp k" "vtlist (set_mtxlist t l k) = vtlist k"
  "trefs (set_mtxlist t l k) = trefs k" "tqueues (set_mtxlist t l k) = tqueues k" "sems (set_mtxlist t l k) = sems k" "conds (set_mtxlist t l k) = conds k"
  "mtxs (set_mtxlist t l k) = mtxs k" "state_of (set_mtxlist t l k) = state_of k" "waiters (set_mtxlist t l k) = waiters k"
  "msgq (set_mtxlist t l k) = msgq k" "prio_of (set_mtxlist t l k) = prio_of k" "realprio (set_mtxlist t l k) = realprio k"
  "mtxlist (set_mtxlist t l k) = (mtxlist k)(t := l)" "owner (set_mtxlist t l k) = owner k" "mtxq (set_mtxlist t l k) = mtxq k"
  "next_mtx (set_mtxlist t l k) = next_mtx k" "p_state (threads (set_mtxlist t l k) u) = p_state (threads k u)"
  "p_realprio (threads (set_mtxlist t l k) u) = p_realprio (threads k u)"
  "p_mtxlist (threads (set_mtxlist t l k) u) = (if u = t then l else p_mtxlist (threads k u))"
  by (auto simp: set_mtxlist_def mtxlist_def realprio_def owner_def mtxq_def next_mtx_def state_of_def waiters_def msgq_def prio_of_def fun_eq_iff)

text \<open>One round of the loop: the new priority and the thread's new place in its queue.\<close>

definition boosted :: "nat \<Rightarrow> nat \<Rightarrow> kernel \<Rightarrow> kernel" where
  "boosted p tp k =
     (let k = set_prio tp p k
      in case state_of k tp of
           CH_STATE_WTMTX m \<Rightarrow> upd_mtx m (\<lambda>mx. mx\<lparr>m_queue := prio_insert (prio_of k) tp (remove1 tp (m_queue mx))\<rparr>) k
         | CH_STATE_WTCOND c \<Rightarrow> upd_cond c (\<lambda>q. prio_insert (prio_of k) tp (remove1 tp q)) k
         | CH_STATE_READY \<Rightarrow> chSchReadyI tp (k\<lparr>r_queue := remove1 tp (r_queue k)\<rparr>)
         | _ \<Rightarrow> k)"

lemma boost_unfold:
  "boost_loop ctp tp k =
     (if prio_of k tp < prio_of k ctp
      then case state_of k tp of
             CH_STATE_WTMTX m \<Rightarrow> Option.bind (owner k m) (\<lambda>own. boost_loop ctp own (boosted (prio_of k ctp) tp k))
           | _ \<Rightarrow> Some (boosted (prio_of k ctp) tp k)
      else Some k)"
  by (subst boost_loop.simps) (simp add: boosted_def Let_def queue_dequeue_def state_of_def owner_def split: tstate.split)

text \<open>Only priorities, and the order of queues, differ.\<close>

definition reprio :: "kernel \<Rightarrow> kernel \<Rightarrow> bool" where
  "reprio k k' \<longleftrightarrow> state_of k' = state_of k \<and> currp k' = currp k \<and> vtlist k' = vtlist k \<and> sems k' = sems k \<and> realprio k' = realprio k \<and>
     mtxlist k' = mtxlist k \<and> owner k' = owner k \<and> next_mtx k' = next_mtx k \<and> (\<forall>m. set (mtxq k' m) = set (mtxq k m)) \<and>
     set (r_queue k') = set (r_queue k)"

lemma reprio_refl: "reprio k k" by (simp add: reprio_def)

lemma reprio_trans: "reprio k k1 \<Longrightarrow> reprio k1 k2 \<Longrightarrow> reprio k k2" by (simp add: reprio_def)

lemma reprio_own:
  assumes "reprio k k'" "own_ok k"
  shows "own_ok k'"
proof -
  have "mtxq k' m \<noteq> [] \<longleftrightarrow> mtxq k m \<noteq> []" for m using assms(1) unfolding reprio_def by (metis empty_set set_empty)
  then show ?thesis using assms by (simp add: own_ok_def owns_def reprio_def)
qed

lemma sorted_upd: "sorted_wrt (\<lambda>a b. pr a \<ge> (pr b :: nat)) q \<Longrightarrow> t \<notin> set q \<Longrightarrow> sorted_wrt (\<lambda>a b. (pr(t := p)) a \<ge> (pr(t := p)) b) q"
  by (erule sorted_wrt_mono_rel [rotated]) auto

lemma sorted_requeue:
  assumes "sorted_wrt (\<lambda>a b. pr a \<ge> (pr b :: nat)) q" "distinct q"
  shows "sorted_wrt (\<lambda>a b. (pr(t := p)) a \<ge> (pr(t := p)) b) (prio_insert (pr(t := p)) t (remove1 t q))"
  by (rule sorted_prio_insert(1) [OF sorted_upd [OF sorted_wrt_remove1 [OF assms(1)]]]) (use assms(2) in simp)

lemma set_requeue: "t \<in> set q \<Longrightarrow> distinct q \<Longrightarrow> set (prio_insert pr t (remove1 t q)) = set q \<and> distinct (prio_insert pr t (remove1 t q))"
  by auto

text \<open>What a round of the loop keeps.\<close>

definition boost_good :: "nat \<Rightarrow> nat \<Rightarrow> kernel \<Rightarrow> kernel \<Rightarrow> bool" where
  "boost_good p tp k k' \<longleftrightarrow> link_ok {} k' \<and> queues_ok k' \<and> reprio k k' \<and> prio_of k' = (prio_of k)(tp := p)"

lemma not_queued:
  assumes "link_ok {} k"
  shows "state_of k t \<noteq> CH_STATE_READY \<Longrightarrow> t \<notin> set (r_queue k)" "state_of k t \<noteq> CH_STATE_WTMTX m \<Longrightarrow> t \<notin> set (mtxq k m)"
    "state_of k t \<noteq> CH_STATE_WTCOND c \<Longrightarrow> t \<notin> set (conds k c)"
  using link_ready [OF assms, of t] link_queued [OF assms, of t "CH_STATE_WTMTX m"] link_queued [OF assms, of t "CH_STATE_WTCOND c"] by (auto simp: mtxq_def)

lemma sorted_others:
  assumes "link_ok {} k" "queues_ok k"
  shows "state_of k t \<noteq> CH_STATE_READY \<Longrightarrow> sorted_wrt (\<lambda>a b. ((prio_of k)(t := p)) a \<ge> ((prio_of k)(t := p)) b) (r_queue k)"
    "state_of k t \<noteq> CH_STATE_WTMTX m \<Longrightarrow> sorted_wrt (\<lambda>a b. ((prio_of k)(t := p)) a \<ge> ((prio_of k)(t := p)) b) (mtxq k m)"
    "state_of k t \<noteq> CH_STATE_WTCOND c \<Longrightarrow> sorted_wrt (\<lambda>a b. ((prio_of k)(t := p)) a \<ge> ((prio_of k)(t := p)) b) (conds k c)"
  using sorted_upd [where t = t and p = p] link_okD(5) [OF assms(1)] queues_okD [OF assms(2), unfolded prio_sorted_def] not_queued [OF assms(1)] by blast+

lemma boosted_other:
  assumes "link_ok {} k" "queues_ok k" "\<forall>m. state_of k t \<noteq> CH_STATE_WTMTX m" "\<forall>c. state_of k t \<noteq> CH_STATE_WTCOND c" "state_of k t \<noteq> CH_STATE_READY"
  shows "boost_good p t k (boosted p t k)"
proof -
  have b: "boosted p t k = set_prio t p k" using assms(3-5) by (cases "state_of k t") (simp_all add: boosted_def)
  have "queued (set_prio t p k) u st = queued k u st" for u st by (cases st) simp_all
  then have "link_ok {} (set_prio t p k)" using assms(1) sorted_others(1) [OF assms(1,2,5), of p] by (simp add: link_ok_def)
  moreover have "queues_ok (set_prio t p k)" using sorted_others(2,3) [OF assms(1,2), of t] assms(3,4) by (simp add: queues_ok_def prio_sorted_def)
  ultimately show ?thesis unfolding b by (simp add: boost_good_def reprio_def)
qed

lemma boosted_mtx:
  assumes "link_ok {} k" "queues_ok k" "state_of k t = CH_STATE_WTMTX m"
  shows "boost_good p t k (boosted p t k)"
proof -
  note L = link_okD [OF assms(1)]
  let ?pr = "(prio_of k)(t := p)"
  have t: "t \<in> set (m_queue (mtxs k m))" using link_queued [OF assms(1), of t "CH_STATE_WTMTX m"] assms(3) by simp
  note r = set_requeue [OF t L(7), of ?pr]
  define k' where "k' = boosted p t k"
  have b: "k' = upd_mtx m (\<lambda>mx. mx\<lparr>m_queue := prio_insert ?pr t (remove1 t (m_queue mx))\<rparr>) (set_prio t p k)"
    by (simp add: k'_def boosted_def assms(3))
  have "queued k' u st = queued k u st" for u st using r unfolding b by (cases st) auto
  moreover have "distinct (m_queue (mtxs k' m'))" for m' using r L(7) unfolding b by auto
  ultimately have "link_ok {} k'" using assms(1,3) sorted_others(1) [OF assms(1,2), of t p] by (simp add: link_ok_def) (simp add: b)
  moreover have "prio_sorted k' (mtxq k' m')" for m'
    using sorted_requeue [OF queues_okD(1) [OF assms(2), unfolded prio_sorted_def], of m t p] L(7) [of m] sorted_others(2) [OF assms(1,2), of t m' p] assms(3)
    by (cases "m' = m") (simp_all add: prio_sorted_def b mtxq_def)
  moreover have "prio_sorted k' (conds k' c)" for c using sorted_others(3) [OF assms(1,2), of t c p] assms(3) by (simp add: prio_sorted_def b)
  moreover have "reprio k k'" using r by (simp add: reprio_def b) (simp add: mtxq_def fun_eq_iff owner_def next_mtx_def)
  ultimately show ?thesis by (simp add: boost_good_def queues_ok_def k'_def [symmetric]) (simp add: b)
qed

lemma boosted_cond:
  assumes "link_ok {} k" "queues_ok k" "state_of k t = CH_STATE_WTCOND c"
  shows "boost_good p t k (boosted p t k)"
proof -
  note L = link_okD [OF assms(1)]
  let ?pr = "(prio_of k)(t := p)"
  have t: "t \<in> set (conds k c)" using link_queued [OF assms(1), of t "CH_STATE_WTCOND c"] assms(3) by simp
  note r = set_requeue [OF t L(8), of ?pr]
  define k' where "k' = boosted p t k"
  have b: "k' = upd_cond c (\<lambda>q. prio_insert ?pr t (remove1 t q)) (set_prio t p k)" by (simp add: k'_def boosted_def assms(3))
  have "queued k' u st = queued k u st" for u st using r unfolding b by (cases st) auto
  moreover have "distinct (conds k' c')" for c' using r L(8) unfolding b by auto
  ultimately have "link_ok {} k'" using assms(1,3) sorted_others(1) [OF assms(1,2), of t p] by (simp add: link_ok_def) (simp add: b)
  moreover have "prio_sorted k' (conds k' c')" for c'
    using sorted_requeue [OF queues_okD(2) [OF assms(2), unfolded prio_sorted_def] L(8), where t = t and p = p] sorted_others(3) [OF assms(1,2), of t c' p] assms(3)
    by (cases "c' = c") (simp_all add: prio_sorted_def b)
  moreover have "prio_sorted k' (mtxq k' m)" for m using sorted_others(2) [OF assms(1,2), of t m p] assms(3) by (simp add: prio_sorted_def b)
  moreover have "reprio k k'" by (simp add: reprio_def b)
  ultimately show ?thesis by (simp add: boost_good_def queues_ok_def k'_def [symmetric]) (simp add: b)
qed

lemma boosted_ready:
  assumes "link_ok {} k" "queues_ok k" "state_of k t = CH_STATE_READY"
  shows "boost_good p t k (boosted p t k)"
proof -
  note L = link_okD [OF assms(1)]
  let ?pr = "(prio_of k)(t := p)"
  have t: "t \<in> set (r_queue k)" using link_ready [OF assms(1)] assms(3) by simp
  note r = set_requeue [OF t L(1), of ?pr]
  define k' where "k' = boosted p t k"
  have b: "k' = (set_state t CH_STATE_READY (set_prio t p k))\<lparr>r_queue := prio_insert ?pr t (remove1 t (r_queue k))\<rparr>"
    by (simp add: k'_def boosted_def assms(3) chSchReadyI_def)
  have s: "state_of k' = state_of k" using assms(3) by (auto simp: b fun_eq_iff)
  have "queued (set_prio t p k) u st = queued k u st" for u st by (cases st) simp_all
  then have "queued k' u st = queued k u st" for u st using r by (cases st) (simp_all add: b)
  then have "link_ok {} k'" using assms(1) r sorted_requeue [OF L(5,1), of t p] by (simp add: link_ok_def s) (simp add: b)
  moreover have "queues_ok k'" using sorted_others(2,3) [OF assms(1,2), of t] assms(3) by (simp add: queues_ok_def prio_sorted_def b)
  moreover have "reprio k k'" using r by (simp add: reprio_def s) (simp add: b)
  ultimately show ?thesis by (simp add: boost_good_def k'_def [symmetric]) (simp add: b)
qed

lemma boosted_ok: "link_ok {} k \<Longrightarrow> queues_ok k \<Longrightarrow> boost_good p t k (boosted p t k)"
  by (cases "state_of k t") (simp_all add: boosted_other boosted_mtx boosted_cond boosted_ready)

text \<open>
  While the loop runs, the priority \<open>p\<close> of the calling thread counts as demanded from \<open>own\<close>, the owner of
  the mutex it wants; thread \<open>tp\<close>, about to be looked at, may still be below \<open>p\<close>.
\<close>

definition wanted :: "nat \<Rightarrow> nat \<Rightarrow> nat \<Rightarrow> nat set" where "wanted p own t = (if t = own then {p} else {})"

definition boosting :: "nat \<Rightarrow> nat \<Rightarrow> nat \<Rightarrow> kernel \<Rightarrow> bool" where
  "boosting p own tp k \<longleftrightarrow> (\<forall>t. t \<noteq> tp \<longrightarrow> inh k (wanted p own t) t) \<and> realprio k tp \<le> prio_of k tp \<and>
     (\<forall>d \<in> demands k tp \<union> wanted p own tp. d \<le> max (prio_of k tp) p) \<and> p \<in> demands k tp \<union> wanted p own tp \<and>
     (p \<le> prio_of k tp \<longrightarrow> prio_of k tp = realprio k tp \<or> prio_of k tp \<in> demands k tp \<union> wanted p own tp)"

lemma boosting_done: "boosting p own tp k \<Longrightarrow> p \<le> prio_of k tp \<Longrightarrow> inh k (wanted p own t) t"
  by (cases "t = tp") (auto simp: boosting_def inh_def max_def)

lemma inh_cong: "demands k' t = demands k t \<Longrightarrow> prio_of k' t = prio_of k t \<Longrightarrow> realprio k' t = realprio k t \<Longrightarrow> inh k' D t = inh k D t"
  by (simp add: inh_def)

lemma boosted_demands:
  assumes "boost_good p tp k k'"
  shows "demands k' t = (prio_of k)(tp := p) ` blocked_by k t" "realprio k' = realprio k" "tp \<notin> blocked_by k t \<Longrightarrow> demands k' t = demands k t"
proof -
  show d: "demands k' t = (prio_of k)(tp := p) ` blocked_by k t" "realprio k' = realprio k"
    using assms by (simp_all add: boost_good_def reprio_def demands_def blocked_by_def)
  show "tp \<notin> blocked_by k t \<Longrightarrow> demands k' t = demands k t" unfolding d(1) unfolding demands_def by (rule image_cong) auto
qed

lemma boosted_self:
  assumes "boosting p own tp k" "prio_of k tp < p" "boost_good p tp k k'" "demands k' tp = demands k tp"
  shows "inh k' (wanted p own tp) tp"
  using assms by (auto simp: boosting_def inh_def boost_good_def reprio_def max_def)

lemma boosting_last:
  assumes "link_ok {} k" "boosting p own tp k" "prio_of k tp < p" "boost_good p tp k k'" "\<forall>m. state_of k tp \<noteq> CH_STATE_WTMTX m"
  shows "inh k' (wanted p own t) t"
proof -
  have "tp \<notin> blocked_by k u" for u using not_queued(2) [OF assms(1)] assms(5) unfolding blocked_by_def by blast
  then have d: "demands k' u = demands k u" for u by (rule boosted_demands(3) [OF assms(4)])
  show ?thesis
  proof (cases "t = tp")
    case True
    then show ?thesis using boosted_self [OF assms(2-4) d] by simp
  next
    case False
    then have "inh k (wanted p own t) t" using assms(2) by (simp add: boosting_def)
    then show ?thesis using inh_cong [OF d, of t] False assms(4) by (simp add: boost_good_def reprio_def)
  qed
qed

lemma boosting_next:
  assumes "link_ok {} k" "boosting p own tp k" "prio_of k tp < p" "boost_good p tp k k'" "state_of k tp = CH_STATE_WTMTX m" "owner k m = Some nx"
  shows "boosting p own nx k'"
proof -
  have q: "tp \<in> set (mtxq k m)" using link_queued [OF assms(1), of tp "CH_STATE_WTMTX m"] assms(5) by (simp add: mtxq_def)
  have bl: "tp \<in> blocked_by k nx" using q assms(6) unfolding blocked_by_def by blast
  have nbl: "tp \<notin> blocked_by k u" if "u \<noteq> nx" for u
  proof
    assume "tp \<in> blocked_by k u"
    then obtain m' where m': "owner k m' = Some u" "tp \<in> set (mtxq k m')" unfolding blocked_by_def by blast
    then have "m' \<noteq> m" using that assms(6) by auto
    then show False using not_queued(2) [OF assms(1), of tp m'] m'(2) assms(5) by simp
  qed
  note b = boosted_demands [OF assms(4)]
  have pr: "prio_of k' = (prio_of k)(tp := p)" using assms(4) by (simp add: boost_good_def)
  have d: "demands k' u = demands k u" if "u \<noteq> nx" for u by (rule b(3) [OF nbl [OF that]])
  have sub: "demands k' nx \<subseteq> insert p (demands k nx)" unfolding b(1) unfolding demands_def by auto
  have sup: "x \<in> demands k' nx" if "x \<in> demands k nx" "x \<noteq> prio_of k tp" for x using that unfolding b(1) unfolding demands_def by auto
  have p: "p \<in> demands k' nx" unfolding b(1) by (rule rev_image_eqI [OF bl]) simp
  have others: "inh k' (wanted p own t) t" if "t \<noteq> nx" for t
  proof (cases "t = tp")
    case True
    then show ?thesis using boosted_self [OF assms(2-4)] d that by simp
  next
    case False
    then have "inh k (wanted p own t) t" using assms(2) by (simp add: boosting_def)
    then show ?thesis using inh_cong [OF d [OF that]] False b(2) pr by simp
  qed
  have "realprio k' nx \<le> prio_of k' nx \<and> (\<forall>d \<in> demands k' nx \<union> wanted p own nx. d \<le> max (prio_of k' nx) p) \<and>
    (p \<le> prio_of k' nx \<longrightarrow> prio_of k' nx = realprio k' nx \<or> prio_of k' nx \<in> demands k' nx \<union> wanted p own nx)"
  proof (cases "nx = tp")
    case True
    then show ?thesis using assms(2,3) sub p by (auto simp: boosting_def b(2) pr max_def)
  next
    case False
    then have i: "inh k (wanted p own nx) nx" and e: "prio_of k' nx = prio_of k nx" using assms(2) pr by (simp_all add: boosting_def)
    have "d \<le> max (prio_of k nx) p" if "d \<in> demands k' nx \<union> wanted p own nx" for d
    proof (cases "d = p")
      case False
      then have "d \<in> demands k nx \<union> wanted p own nx" using that sub by blast
      then show ?thesis using i by (auto simp: inh_def le_max_iff_disj)
    qed simp
    moreover have "prio_of k nx \<in> demands k' nx \<union> wanted p own nx" if "p \<le> prio_of k nx" "prio_of k nx \<noteq> realprio k nx"
      using that i sup assms(3) by (auto simp: inh_def)
    ultimately show ?thesis using i unfolding e b(2) inh_def by blast
  qed
  then show ?thesis using others p by (simp add: boosting_def)
qed

lemma boost_good_boosting:
  assumes "boost_good p tp k k'"
  shows "link_ok {} k'" "queues_ok k'" "reprio k k'" "prio_of k' = (prio_of k)(tp := p)"
  using assms by (simp_all add: boost_good_def)

text \<open>The loop ends, however the owners and the threads they wait for are linked, cycles included.\<close>

lemma boost_loop_ends:
  assumes "link_ok {} k" "queues_ok k" "own_ok k"
  shows "\<exists>k'. boost_loop ctp tp k = Some k' \<and> link_ok {} k' \<and> queues_ok k' \<and> reprio k k' \<and> prio_of k' ctp = prio_of k ctp \<and>
    (\<forall>own t. boosting (prio_of k ctp) own tp k \<longrightarrow> inh k' (wanted (prio_of k ctp) own t) t)"
  using assms
proof (induction "card {t \<in> \<Union>m. set (mtxq k m). prio_of k t < prio_of k ctp}" arbitrary: k tp rule: less_induct)
  case less
  let ?p = "prio_of k ctp"
  show ?case
  proof (cases "prio_of k tp < ?p")
    case False
    then have "boost_loop ctp tp k = Some k" by (subst boost_unfold) simp
    then show ?thesis using less.prems boosting_done False by (auto simp: reprio_refl)
  next
    case True
    let ?k = "boosted ?p tp k"
    note g = boosted_ok [OF less.prems(1,2), of ?p tp] and G = boost_good_boosting [OF boosted_ok [OF less.prems(1,2), of ?p tp]]
    have p: "prio_of ?k ctp = ?p" using G(4) True by auto
    show ?thesis
    proof (cases "\<exists>m. state_of k tp = CH_STATE_WTMTX m")
      case False
      then have "boost_loop ctp tp k = Some ?k" using True by (subst boost_unfold) (auto split: tstate.split)
      then show ?thesis using G(1-3) p boosting_last [OF less.prems(1) _ True g] False by auto
    next
      case w: True
      then obtain m where m: "state_of k tp = CH_STATE_WTMTX m" by blast
      then have q: "tp \<in> set (mtxq k m)" using link_queued [OF less.prems(1), of tp "CH_STATE_WTMTX m"] by (simp add: mtxq_def)
      then obtain nx where nx: "owner k m = Some nx" using own_okD(2) [OF less.prems(3), of m] by fastforce
      have u: "boost_loop ctp tp k = boost_loop ctp nx ?k" using True m nx by (subst boost_unfold) simp
      have "{t \<in> \<Union>m. set (mtxq ?k m). prio_of ?k t < prio_of ?k ctp} = {t \<in> \<Union>m. set (mtxq k m). prio_of k t < ?p} - {tp}"
        using G(3) p by (auto simp: G(4) reprio_def)
      moreover have "tp \<in> {t \<in> \<Union>m. set (mtxq k m). prio_of k t < ?p}" using q True by blast
      moreover have "finite {t \<in> \<Union>m. set (mtxq k m). prio_of k t < ?p}" using own_okD(3) [OF less.prems(3)] by (rule rev_finite_subset) blast
      ultimately have "card {t \<in> \<Union>m. set (mtxq ?k m). prio_of ?k t < prio_of ?k ctp} < card {t \<in> \<Union>m. set (mtxq k m). prio_of k t < ?p}"
        by (metis (no_types, lifting) card_Diff1_less)
      from less.hyps [OF this G(1,2) reprio_own [OF G(3) less.prems(3)], of nx] obtain k' where k': "boost_loop ctp nx ?k = Some k'" "link_ok {} k'"
        "queues_ok k'" "reprio ?k k'" "prio_of k' ctp = ?p" "\<forall>own t. boosting ?p own nx ?k \<longrightarrow> inh k' (wanted ?p own t) t" by (auto simp: p)
      then show ?thesis using u reprio_trans [OF G(3)] boosting_next [OF less.prems(1) _ True g m nx] by auto
    qed
  qed
qed

end
