(* ===== verification/Inheritance.thy ===== *)
theory Inheritance
  imports Mutex
begin

text \<open>
  The kernel with mutexes and condition variables as a transition system: ownership, priority
  inheritance, calls that return.
\<close>

section \<open>Ownership\<close>

lemma link_ok_cong:
  assumes "state_of k' = state_of k" "prio_of k' = prio_of k" "r_queue k' = r_queue k" "trefs k' = trefs k" "tqueues k' = tqueues k" "sems k' = sems k"
    "waiters k' = waiters k" "msgq k' = msgq k" "mtxq k' = mtxq k" "conds k' = conds k"
  shows "link_ok X k' = link_ok X k"
proof -
  have m: "m_queue (mtxs k' m) = m_queue (mtxs k m)" for m using assms(9) by (simp add: mtxq_def fun_eq_iff)
  have "queued k' u st = queued k u st" for u st by (cases st) (simp_all add: assms m)
  then show ?thesis by (simp add: link_ok_def assms m)
qed

text \<open>The lists of owned mutexes when mutex \<open>m\<close> is in none of them.\<close>

definition own_out :: "nat \<Rightarrow> kernel \<Rightarrow> bool" where
  "own_out m k \<longleftrightarrow> (\<forall>t. \<exists>ms. chain (next_mtx k) (mtxlist k t) ms \<and> (\<forall>m'. m' \<in> set ms \<longleftrightarrow> owner k m' = Some t \<and> m' \<noteq> m)) \<and>
     (\<forall>m'. m' \<noteq> m \<longrightarrow> mtxq k m' \<noteq> [] \<longrightarrow> owner k m' \<noteq> None) \<and> finite (\<Union>m. set (mtxq k m))"

lemma own_free: "own_ok k \<Longrightarrow> owner k m = None \<Longrightarrow> own_out m k"
  unfolding own_ok_def own_out_def owns_def by (metis option.distinct(1))

lemma own_pop:
  assumes "own_ok k" "mtxlist k c = Some m"
  shows "own_out m (set_mtxlist c (next_mtx k m) k)" "owner k m = Some c"
proof -
  obtain ms where ms: "owns k c ms" using own_okD(1) [OF assms(1)] by blast
  then obtain ms' where e: "ms = m # ms'" using assms(2) ownsD(3) [OF ms] by (cases ms) auto
  show o: "owner k m = Some c" using ownsD(1) [OF ms] e by auto
  have "\<exists>xs. chain (next_mtx k) (((mtxlist k)(c := next_mtx k m)) t) xs \<and> (\<forall>m'. m' \<in> set xs \<longleftrightarrow> owner k m' = Some t \<and> m' \<noteq> m)" for t
  proof (cases "t = c")
    case True
    have "chain (next_mtx k) (next_mtx k m) ms'" "\<forall>m'. m' \<in> set ms' \<longleftrightarrow> owner k m' = Some c \<and> m' \<noteq> m"
      using ms ownsD(2) [OF ms] unfolding owns_def e by auto
    then show ?thesis using True by auto
  next
    case False
    obtain xs where "owns k t xs" using own_okD(1) [OF assms(1)] by blast
    then show ?thesis using False o by (intro exI [of _ xs]) (auto simp: owns_def)
  qed
  then show "own_out m (set_mtxlist c (next_mtx k m) k)" using assms(1) by (auto simp: own_out_def own_ok_def)
qed

lemma mtx_own_simps [simp]:
  "r_queue (mtx_own t m k) = r_queue k" "currp (mtx_own t m k) = currp k" "vtlist (mtx_own t m k) = vtlist k" "trefs (mtx_own t m k) = trefs k"
  "tqueues (mtx_own t m k) = tqueues k" "sems (mtx_own t m k) = sems k" "conds (mtx_own t m k) = conds k" "state_of (mtx_own t m k) = state_of k"
  "waiters (mtx_own t m k) = waiters k" "msgq (mtx_own t m k) = msgq k" "prio_of (mtx_own t m k) = prio_of k" "realprio (mtx_own t m k) = realprio k"
  "mtxlist (mtx_own t m k) = (mtxlist k)(t := Some m)" "owner (mtx_own t m k) = (owner k)(m := Some t)" "mtxq (mtx_own t m k) = mtxq k"
  "next_mtx (mtx_own t m k) = (next_mtx k)(m := mtxlist k t)"
  by (auto simp: mtx_own_def fun_eq_iff mtxlist_def mtxq_def)

lemma own_take:
  assumes "own_out m k"
  shows "own_ok (mtx_own t m k)"
proof -
  have "\<exists>ms. owns (mtx_own t m k) u ms" for u
  proof -
    obtain ms where ms: "chain (next_mtx k) (mtxlist k u) ms" "\<forall>m'. m' \<in> set ms \<longleftrightarrow> owner k m' = Some u \<and> m' \<noteq> m"
      using assms unfolding own_out_def by blast
    have c: "chain ((next_mtx k)(m := x)) (mtxlist k u) ms" for x using ms chain_upd [of m ms] by simp
    show ?thesis
    proof (cases "u = t")
      case True
      then have "owns (mtx_own t m k) u (m # ms)" using c ms(2) by (auto simp: owns_def)
      then show ?thesis by blast
    next
      case False
      then have "owns (mtx_own t m k) u ms" using c ms(2) by (auto simp: owns_def)
      then show ?thesis by blast
    qed
  qed
  then show ?thesis using assms by (simp add: own_ok_def own_out_def)
qed

definition mtx_free :: "nat \<Rightarrow> kernel \<Rightarrow> kernel" where "mtx_free m = upd_mtx m (\<lambda>mx. mx\<lparr>m_owner := None\<rparr>)"

lemma mtx_free_simps [simp]:
  "r_queue (mtx_free m k) = r_queue k" "currp (mtx_free m k) = currp k" "vtlist (mtx_free m k) = vtlist k" "trefs (mtx_free m k) = trefs k"
  "tqueues (mtx_free m k) = tqueues k" "sems (mtx_free m k) = sems k" "conds (mtx_free m k) = conds k" "state_of (mtx_free m k) = state_of k"
  "waiters (mtx_free m k) = waiters k" "msgq (mtx_free m k) = msgq k" "prio_of (mtx_free m k) = prio_of k" "realprio (mtx_free m k) = realprio k"
  "mtxlist (mtx_free m k) = mtxlist k" "owner (mtx_free m k) = (owner k)(m := None)" "mtxq (mtx_free m k) = mtxq k"
  "next_mtx (mtx_free m k) = next_mtx k"
  by (auto simp: mtx_free_def fun_eq_iff mtxq_def next_mtx_def)

lemma own_release:
  assumes "own_out m k" "mtxq k m = []"
  shows "own_ok (mtx_free m k)"
proof -
  have "\<exists>ms. owns (mtx_free m k) u ms" for u
  proof -
    obtain ms where "chain (next_mtx k) (mtxlist k u) ms" "\<forall>m'. m' \<in> set ms \<longleftrightarrow> owner k m' = Some u \<and> m' \<noteq> m"
      using assms(1) unfolding own_out_def by blast
    then show ?thesis by (intro exI [of _ ms]) (auto simp: owns_def)
  qed
  then show ?thesis using assms by (auto simp: own_ok_def own_out_def)
qed

text \<open>Giving a mutex nobody waits for another owner changes nobody's demands.\<close>

lemma blocked_free: "mtxq k m = [] \<Longrightarrow> owner k' = (owner k)(m := x) \<Longrightarrow> mtxq k' = mtxq k \<Longrightarrow> blocked_by k' t = blocked_by k t"
  unfolding blocked_by_def by (auto split: if_splits) (metis empty_iff list.set(1))

lemma inherit_cong:
  assumes "inherit_ok k" "prio_of k' = prio_of k" "realprio k' = realprio k" "\<And>t. blocked_by k' t = blocked_by k t"
  shows "inherit_ok k'"
  using assms(1) by (simp add: inherit_ok_def inh_def demands_def assms(2-4))

lemma queues_cong: "queues_ok k \<Longrightarrow> prio_of k' = prio_of k \<Longrightarrow> mtxq k' = mtxq k \<Longrightarrow> conds k' = conds k \<Longrightarrow> queues_ok k'"
  by (simp add: queues_ok_def prio_sorted_def)

text \<open>States that differ only in the ownership of mutexes.\<close>

definition only_mtx :: "kernel \<Rightarrow> kernel \<Rightarrow> bool" where
  "only_mtx k k' \<longleftrightarrow> state_of k' = state_of k \<and> prio_of k' = prio_of k \<and> r_queue k' = r_queue k \<and> trefs k' = trefs k \<and> tqueues k' = tqueues k \<and>
     sems k' = sems k \<and> waiters k' = waiters k \<and> msgq k' = msgq k \<and> mtxq k' = mtxq k \<and> conds k' = conds k \<and> currp k' = currp k \<and>
     vtlist k' = vtlist k \<and> realprio k' = realprio k"

lemma only_mtx_basic [intro]: "only_mtx k (mtx_own t m k)" "only_mtx k (mtx_free m k)" "only_mtx k (set_mtxlist t l k)"
  by (simp_all add: only_mtx_def)

lemma only_mtx_trans: "only_mtx k k1 \<Longrightarrow> only_mtx k1 k2 \<Longrightarrow> only_mtx k k2"
  by (simp add: only_mtx_def)

lemma only_mtx_ok:
  assumes "only_mtx k k'"
  shows "link_ok X k' = link_ok X k" "cur_ok k' = cur_ok k" "k_ok k' = k_ok k" "sem_ok k' = sem_ok k" "keeps k k'" "highest k' = highest k"
    "queues_ok k' = queues_ok k"
proof -
  show l: "link_ok X k' = link_ok X k" for X by (rule link_ok_cong) (use assms in \<open>simp_all add: only_mtx_def\<close>)
  show c: "cur_ok k' = cur_ok k" using assms by (simp add: cur_ok_def only_mtx_def)
  show "k_ok k' = k_ok k" by (simp add: k_ok_def l c)
qed (use assms in \<open>simp_all add: sem_ok_def keeps_def highest_def queues_ok_def prio_sorted_def only_mtx_def\<close>)

lemma only_mtx_kinv: "only_mtx k k' \<Longrightarrow> kinv k \<Longrightarrow> kinv k'"
  using kinv_keeps [of k k'] only_mtx_ok [of k k'] kinvD [of k] by simp

section \<open>Locking\<close>

text \<open>The invariant of the kernel with mutexes.\<close>

definition minv :: "kernel \<Rightarrow> bool" where "minv k \<longleftrightarrow> kinv k \<and> own_ok k \<and> queues_ok k"

lemma minvD: "minv k \<Longrightarrow> kinv k" "minv k \<Longrightarrow> own_ok k" "minv k \<Longrightarrow> queues_ok k" "minv k \<Longrightarrow> k_ok k" "minv k \<Longrightarrow> link_ok {} k" "minv k \<Longrightarrow> cur_ok k"
  by (simp_all add: minv_def kinv_def k_ok_def)

lemma minv_calm: "minv k \<Longrightarrow> kinv k' \<Longrightarrow> calm k k' \<Longrightarrow> minv k'"
  using calm_ok [of k k'] by (simp add: minv_def)

lemma mtx_own_ok:
  assumes "minv k" "owner k m = None"
  shows "minv (mtx_own t m k)" "inherit_ok k \<Longrightarrow> inherit_ok (mtx_own t m k)" "highest k \<Longrightarrow> highest (mtx_own t m k)"
proof -
  note M = minvD [OF assms(1)]
  have o: "only_mtx k (mtx_own t m k)" by (rule only_mtx_basic)
  show "minv (mtx_own t m k)"
    using only_mtx_kinv [OF o M(1)] own_take [OF own_free [OF M(2) assms(2)]] only_mtx_ok(7) [OF o] M(3) by (simp add: minv_def)
  have "mtxq k m = []" using own_okD(2) [OF M(2), of m] assms(2) by fastforce
  then have "blocked_by (mtx_own t m k) u = blocked_by k u" for u by (rule blocked_free) simp_all
  then show "inherit_ok k \<Longrightarrow> inherit_ok (mtx_own t m k)" using inherit_cong [of k "mtx_own t m k"] by simp
  show "highest k \<Longrightarrow> highest (mtx_own t m k)" using only_mtx_ok(6) [OF o] by simp
qed

text \<open>Joining the queue of a mutex.\<close>

definition joined :: "nat \<Rightarrow> kernel \<Rightarrow> kernel" where
  "joined m k = upd_mtx m (\<lambda>mx. mx\<lparr>m_queue := prio_insert (prio_of k) (currp k) (m_queue mx)\<rparr>) k"

lemma joined_simps [simp]:
  "r_queue (joined m k) = r_queue k" "currp (joined m k) = currp k" "vtlist (joined m k) = vtlist k" "sems (joined m k) = sems k"
  "conds (joined m k) = conds k" "state_of (joined m k) = state_of k" "prio_of (joined m k) = prio_of k" "realprio (joined m k) = realprio k"
  "mtxlist (joined m k) = mtxlist k" "owner (joined m k) = owner k" "mtxq (joined m k) = (mtxq k)(m := prio_insert (prio_of k) (currp k) (mtxq k m))"
  "next_mtx (joined m k) = next_mtx k"
  by (auto simp: joined_def fun_eq_iff owner_def mtxq_def next_mtx_def)

lemma joined_link:
  assumes "link_ok {} k" "cur_ok k"
  shows "link_ok {} (set_state (currp k) (CH_STATE_WTMTX m) (joined m k))"
proof -
  have c: "state_of k (currp k) = CH_STATE_CURRENT" by (rule cur_self [OF assms(2)])
  have n: "currp k \<notin> set (m_queue (mtxs k m))" using link_queued [OF assms(1), of "currp k" "CH_STATE_WTMTX m"] c by simp
  show ?thesis
  proof (rule enter_ok [OF assms(1), where c = "currp k" and st = "CH_STATE_WTMTX m"])
    fix u st
    show "queued (set_state (currp k) (CH_STATE_WTMTX m) (joined m k)) u st \<longleftrightarrow> queued k u st \<or> u = currp k \<and> st = CH_STATE_WTMTX m \<and> is_link (CH_STATE_WTMTX m)"
      unfolding joined_def by (cases st) auto
  qed (use c n link_okD [OF assms(1)] in \<open>simp_all add: joined_def\<close>)
qed

lemma joined_ok:
  assumes "own_ok k" "queues_ok k" "owner k m = Some t"
  shows "own_ok (joined m k)" "queues_ok (joined m k)" "\<forall>u. inh k (wanted (prio_of k (currp k)) t u) u \<Longrightarrow> inherit_ok (joined m k)"
proof -
  have "(\<Union>m'. set (mtxq (joined m k) m')) \<subseteq> insert (currp k) (\<Union>m'. set (mtxq k m'))" by (auto split: if_splits)
  then have "finite (\<Union>m'. set (mtxq (joined m k) m'))" using own_okD(3) [OF assms(1)] by (meson finite_insert finite_subset)
  then show "own_ok (joined m k)" using assms(1,3) by (auto simp: own_ok_def owns_def)
  show "queues_ok (joined m k)" using assms(2) sorted_prio_insert(1) unfolding queues_ok_def prio_sorted_def by simp
  have "blocked_by (joined m k) u = blocked_by k u \<union> (if u = t then {currp k} else {})" for u
    using assms(3) unfolding blocked_by_def by (auto split: if_splits)
  then have "demands (joined m k) u = demands k u \<union> wanted (prio_of k (currp k)) t u" for u by (simp add: demands_def wanted_def image_Un)
  then show "\<forall>u. inh k (wanted (prio_of k (currp k)) t u) u \<Longrightarrow> inherit_ok (joined m k)" by (simp add: inherit_ok_def inh_def)
qed

lemma inherit_boosting: "inherit_ok k \<Longrightarrow> boosting p t t k"
  by (auto simp: inherit_ok_def inh_def boosting_def wanted_def le_max_iff_disj)

lemma lock_blocks:
  assumes "minv k" "\<not> chVTIsArmedI (currp k) (vtlist k)" "currp k \<noteq> 1" "owner k m = Some t"
  shows "\<exists>k'. chMtxLockS m k = Some k' \<and> minv k' \<and> highest k' \<and> (inherit_ok k \<longrightarrow> inherit_ok k') \<and> state_of k' (currp k) = CH_STATE_WTMTX m"
proof -
  note M = minvD [OF assms(1)]
  obtain k1 where k1: "boost_loop (currp k) t k = Some k1" "link_ok {} k1" "queues_ok k1" "reprio k k1" "prio_of k1 (currp k) = prio_of k (currp k)"
    "\<forall>own u. boosting (prio_of k (currp k)) own t k \<longrightarrow> inh k1 (wanted (prio_of k (currp k)) own u) u" using boost_loop_ends [OF M(5,3,2)] by blast
  have r: "currp k1 = currp k" "state_of k1 = state_of k" "vtlist k1 = vtlist k" "sems k1 = sems k" "owner k1 m = Some t" "set (r_queue k1) = set (r_queue k)"
    using k1(4) assms(4) by (simp_all add: reprio_def)
  have cu: "cur_ok k1" using M(6) by (simp add: cur_ok_def r)
  note j = joined_ok [OF reprio_own [OF k1(4) M(2)] k1(3) r(5)]
  have "r_queue (joined m k1) \<noteq> []" using others_ready [OF M(1) assms(3)] r(6) by auto
  then obtain k' where k': "chSchGoSleepS (CH_STATE_WTMTX m) (joined m k1) = Some k'" using go_sleep_returns by blast
  have l: "link_ok {} (set_state (currp k) (CH_STATE_WTMTX m) (joined m k1))" using joined_link [OF k1(2) cu, of m] r(1) by simp
  have b: "k_ok k' \<and> highest k' \<and> sems k' = sems k \<and> blocks k k'"
    by (rule call_blocks [of k "joined m k1" "CH_STATE_WTMTX m" k'])
      (use M(4) cu r l k' in \<open>simp_all add: keeps_def cur_ok_def runnable_def\<close>)
  then have "kinv k'" using kinv_blocks [OF M(1) assms(2,3)] sem_ok_sems kinvD(2) [OF M(1)] by blast
  moreover have ca: "calm (joined m k1) k'" by (rule mtx_frame.fr_sleep [OF _ k']) (simp add: calm_def)
  ultimately have "minv k'" using calm_ok(1,2) [OF ca] j(1,2) by (simp add: minv_def)
  moreover have "inherit_ok k'" if "inherit_ok k"
    using calm_ok(3) [OF ca] j(3) k1(5,6) inherit_boosting [OF that, of "prio_of k (currp k)" t] r(1) by simp
  moreover have "chMtxLockS m k = Some k'" using assms(4) k1(1) k' r(1) by (simp add: chMtxLockS_def owner_def joined_def)
  moreover have "state_of k' (currp k) = CH_STATE_WTMTX m"
    using go_sleep(7) [of "joined m k1" "CH_STATE_WTMTX m" k'] l not_other_current [OF cu] r(1) k' by simp
  ultimately show ?thesis using b by blast
qed

lemma lock_ok:
  assumes "minv k" "highest k" "\<not> chVTIsArmedI (currp k) (vtlist k)" "currp k \<noteq> 1"
  shows "\<exists>k'. chMtxLockS m k = Some k' \<and> minv k' \<and> highest k' \<and> (inherit_ok k \<longrightarrow> inherit_ok k')"
proof (cases "owner k m")
  case None
  then have "chMtxLockS m k = Some (mtx_own (currp k) m k)" by (simp add: chMtxLockS_def owner_def)
  then show ?thesis using mtx_own_ok [OF assms(1) None] assms(2) by blast
next
  case (Some t)
  then show ?thesis using lock_blocks [OF assms(1,3,4)] by blast
qed

section \<open>Unlocking\<close>

text \<open>The scan of the mutexes that are kept finds the highest priority waiting on one of them.\<close>

lemma newprio_result:
  assumes "queues_ok k" "chain (next_mtx k) l ms"
  shows "\<exists>r. newprio_loop k l n = Some r \<and> n \<le> r \<and> (\<forall>m \<in> set ms. \<forall>u \<in> set (mtxq k m). prio_of k u \<le> r) \<and>
    (r = n \<or> (\<exists>m \<in> set ms. \<exists>u \<in> set (mtxq k m). prio_of k u = r))"
  using assms(2)
proof (induction ms arbitrary: l n)
  case Nil
  then show ?case by (subst newprio_loop.simps) simp
next
  case (Cons m ms)
  define n' where "n' = (case mtxq k m of t # _ \<Rightarrow> if prio_of k t > n then prio_of k t else n | [] \<Rightarrow> n)"
  have "newprio_loop k l n = newprio_loop k (next_mtx k m) n'"
    using Cons.prems by (subst newprio_loop.simps) (simp add: n'_def next_mtx_def mtxq_def)
  moreover have "chain (next_mtx k) (next_mtx k m) ms" using Cons.prems by simp
  from Cons.IH [OF this, of n'] obtain r where r: "newprio_loop k (next_mtx k m) n' = Some r" "n' \<le> r" "\<forall>m \<in> set ms. \<forall>u \<in> set (mtxq k m). prio_of k u \<le> r"
    "r = n' \<or> (\<exists>m \<in> set ms. \<exists>u \<in> set (mtxq k m). prio_of k u = r)" by blast
  moreover have "n \<le> n'" "\<forall>u \<in> set (mtxq k m). prio_of k u \<le> n'" "n' = n \<or> (\<exists>u \<in> set (mtxq k m). prio_of k u = n')"
    using queues_okD(1) [OF assms(1), of m] by (cases "mtxq k m"; force simp: n'_def prio_sorted_def)+
  ultimately have "newprio_loop k l n = Some r" "n \<le> r" "\<forall>m' \<in> set (m # ms). \<forall>u \<in> set (mtxq k m'). prio_of k u \<le> r"
    "r = n \<or> (\<exists>m' \<in> set (m # ms). \<exists>u \<in> set (mtxq k m'). prio_of k u = r)" by (auto dest: order_trans)
  then show ?case by blast
qed

text \<open>Handing a mutex to the first thread that waits for it.\<close>

definition handed :: "nat \<Rightarrow> nat \<Rightarrow> nat list \<Rightarrow> kernel \<Rightarrow> kernel" where
  "handed m t q k = mtx_own t m (upd_mtx m (\<lambda>mx. mx\<lparr>m_queue := q\<rparr>) k)"

lemma hand_over_handed: "mtxq k m = t # q \<Longrightarrow> hand_over m k = Some (chSchReadyI t (handed m t q k))"
  by (simp add: hand_over_def queue_fifo_remove_def mtxq_def handed_def)

lemma handed_simps [simp]:
  "r_queue (handed m t q k) = r_queue k" "currp (handed m t q k) = currp k" "vtlist (handed m t q k) = vtlist k" "sems (handed m t q k) = sems k"
  "conds (handed m t q k) = conds k" "state_of (handed m t q k) = state_of k" "prio_of (handed m t q k) = prio_of k" "realprio (handed m t q k) = realprio k"
  "mtxlist (handed m t q k) = (mtxlist k)(t := Some m)" "owner (handed m t q k) = (owner k)(m := Some t)" "mtxq (handed m t q k) = (mtxq k)(m := q)"
  "next_mtx (handed m t q k) = (next_mtx k)(m := mtxlist k t)" "tqueues (handed m t q k) = tqueues k" "trefs (handed m t q k) = trefs k"
  "waiters (handed m t q k) = waiters k" "msgq (handed m t q k) = msgq k"
  by (auto simp: handed_def fun_eq_iff owner_def mtxq_def next_mtx_def)

lemma handed_link:
  assumes "link_ok {} k" "mtxq k m = t # q"
  shows "link_ok {t} (handed m t q k)" "state_of k t = CH_STATE_WTMTX m"
proof -
  have d: "distinct (t # q)" using link_okD(7) [OF assms(1), of m] assms(2) by (simp add: mtxq_def)
  show st: "state_of k t = CH_STATE_WTMTX m" using link_queued [OF assms(1), of t "CH_STATE_WTMTX m"] assms(2) by (simp add: mtxq_def)
  have mq: "m_queue (mtxs (handed m t q k) m') = (if m' = m then q else m_queue (mtxs k m'))" for m'
    by (simp add: handed_def mtx_own_def)
  have "m_queue (mtxs k m) = t # q" using assms(2) by (simp add: mtxq_def)
  show "link_ok {t} (handed m t q k)"
  proof (rule link_okI)
    fix u s
    have n: "queued k t s \<longleftrightarrow> s = CH_STATE_WTMTX m" using link_queued [OF assms(1), of t s] st by auto
    have "queued (handed m t q k) u s \<longleftrightarrow> queued k u s \<and> u \<noteq> t"
      using n d \<open>m_queue (mtxs k m) = t # q\<close> by (cases s) (auto simp: mq)
    then show "queued (handed m t q k) u s \<longleftrightarrow> is_link s \<and> state_of (handed m t q k) u = s \<and> u \<notin> {t}" using link_queued [OF assms(1), of u s] by auto
  qed (use link_okD [OF assms(1)] d in \<open>simp_all add: mq\<close>)
qed

lemma handed_own:
  assumes "own_out m k" "mtxq k m = t # q"
  shows "own_ok (handed m t q k)"
proof -
  let ?k = "upd_mtx m (\<lambda>mx. mx\<lparr>m_queue := q\<rparr>) k"
  have e: "owner ?k = owner k" "next_mtx ?k = next_mtx k" "mtxq ?k = (mtxq k)(m := q)" by (auto simp: owner_def next_mtx_def fun_eq_iff mtxq_def)
  have "set (((mtxq k)(m := q)) m') \<subseteq> set (mtxq k m')" for m' using assms(2) by (cases "m' = m") auto
  then have "(\<Union>m'. set (((mtxq k)(m := q)) m')) \<subseteq> (\<Union>m'. set (mtxq k m'))" by blast
  then have "finite (\<Union>m'. set (((mtxq k)(m := q)) m'))" using assms(1) unfolding own_out_def by (meson finite_subset)
  then have "own_out m ?k" using assms(1) unfolding own_out_def e by (simp del: fun_upd_apply) simp
  then show ?thesis unfolding handed_def by (rule own_take)
qed

lemma handed_queues: "queues_ok k \<Longrightarrow> mtxq k m = t # q \<Longrightarrow> queues_ok (handed m t q k)"
  using queues_okD(1) [of k m] by (auto simp: queues_ok_def prio_sorted_def)

lemma blocked_iff: "x \<in> blocked_by k u \<longleftrightarrow> (\<exists>m. owner k m = Some u \<and> x \<in> set (mtxq k m))"
  by (auto simp: blocked_by_def)

lemma handed_blocked:
  assumes "owner k m = Some c" "u \<noteq> c"
  shows "blocked_by (handed m t q k) u = blocked_by k u \<union> (if u = t then set q else {})"
proof (rule set_eqI)
  fix x
  have "(\<exists>m'. m' \<noteq> m \<and> owner k m' = Some u \<and> x \<in> set (mtxq k m')) \<longleftrightarrow> x \<in> blocked_by k u" unfolding blocked_iff using assms by (metis option.inject)
  moreover have "x \<in> blocked_by (handed m t q k) u \<longleftrightarrow> u = t \<and> x \<in> set q \<or> (\<exists>m'. m' \<noteq> m \<and> owner k m' = Some u \<and> x \<in> set (mtxq k m'))"
    unfolding blocked_iff by (auto split: if_splits)
  ultimately show "x \<in> blocked_by (handed m t q k) u \<longleftrightarrow> x \<in> blocked_by k u \<union> (if u = t then set q else {})" by auto
qed

text \<open>The new owner has the highest priority of those that waited; the old owner \<open>c\<close> aside, nobody else is concerned.\<close>

lemma handed_inh:
  assumes "queues_ok k" "mtxq k m = t # q" "owner k m = Some c" "u \<noteq> c" "inh k {} u"
  shows "inh (handed m t q k) {} u"
proof -
  have "\<forall>x \<in> set q. prio_of k x \<le> prio_of k t" using queues_okD(1) [OF assms(1), of m] assms(2) by (simp add: prio_sorted_def)
  then show ?thesis using assms(5) handed_blocked [OF assms(3,4), of t q] by (auto simp: inh_def demands_def)
qed

text \<open>A mutex is handed over by thread \<open>c\<close>, which has taken it off its list.\<close>

lemma hand_over_ok:
  assumes "kinv k" "queues_ok k" "own_out m k" "mtxq k m \<noteq> []" "owner k m = Some c" "\<forall>u. u \<noteq> c \<longrightarrow> P \<longrightarrow> inh k {} u"
  shows "\<exists>k' t q. mtxq k m = t # q \<and> hand_over m k = Some k' \<and> minv k' \<and> keeps k k' \<and> currp k' = currp k \<and> prio_of k' = prio_of k \<and> realprio k' = realprio k \<and>
    owner k' = (owner k)(m := Some t) \<and> mtxq k' = (mtxq k)(m := q) \<and> mtxlist k' = (mtxlist k)(t := Some m) \<and> next_mtx k' = (next_mtx k)(m := mtxlist k t) \<and>
    state_of k' t = CH_STATE_READY \<and> t \<noteq> currp k \<and> (\<forall>u. u \<noteq> c \<longrightarrow> P \<longrightarrow> inh k' {} u)"
proof -
  obtain t q where q: "mtxq k m = t # q" using assms(4) by (cases "mtxq k m") auto
  note K = current_unlinked(1,2) [OF kinvD(1) [OF assms(1)]]
  note h = handed_link [OF K(1) q]
  let ?h = "handed m t q k"
  have tc: "t \<noteq> currp k" using h(2) cur_self [OF K(2)] by auto
  have "cur_ok ?h" using K(2) by (simp add: cur_ok_def)
  then have ok: "k_ok (chSchReadyI t ?h)" using ready_ok [OF h(1)] tc by simp
  have kp: "keeps k (chSchReadyI t ?h)" by (rule keeps_trans [OF keeps_eq keeps_ready]) simp_all
  have "kinv (chSchReadyI t ?h)" using kinv_keeps [OF assms(1) ok _ kp] kinvD(2) [OF assms(1)] sem_ok_sems [of "chSchReadyI t ?h" k] by simp
  moreover have c: "calm ?h (chSchReadyI t ?h)" by (rule mtx_frame.fr_ready)
  ultimately have "minv (chSchReadyI t ?h)" using calm_ok(1,2) [OF c] handed_own [OF assms(3) q] handed_queues [OF assms(2) q] by (simp add: minv_def)
  moreover have "inh (chSchReadyI t ?h) {} u" if "u \<noteq> c" P for u
    using handed_inh [OF assms(2) q assms(5) that(1)] assms(6) that by (simp add: inh_def demands_def blocked_by_def)
  ultimately show ?thesis using q hand_over_handed [OF q] kp tc
    by (intro exI [of _ "chSchReadyI t ?h"] exI [of _ t] exI [of _ q]) (simp add: keeps_def)
qed

text \<open>The running thread is in no queue: its priority may change.\<close>

lemma set_prio_run:
  assumes "kinv k" "queues_ok k"
  shows "kinv (set_prio (currp k) p k)" "queues_ok (set_prio (currp k) p k)" "keeps k (set_prio (currp k) p k)" "currp k \<notin> blocked_by k t"
    "demands (set_prio (currp k) p k) t = demands k t"
proof -
  note K = current_unlinked(1,2) [OF kinvD(1) [OF assms(1)]]
  let ?k = "set_prio (currp k) p k"
  have c: "state_of k (currp k) = CH_STATE_CURRENT" by (rule cur_self [OF K(2)])
  have "boosted p (currp k) k = ?k" by (simp add: boosted_def c)
  then have g: "link_ok {} ?k" "queues_ok ?k" using boosted_ok [OF K(1) assms(2), of p "currp k"] by (simp_all add: boost_good_def)
  show kp: "keeps k ?k" by (rule keeps_eq) simp_all
  have "k_ok ?k" using g(1) K(2) by (simp add: k_ok_def cur_ok_def)
  then show "kinv ?k" using kinv_keeps [OF assms(1) _ _ kp] kinvD(2) [OF assms(1)] sem_ok_sems [of ?k k] by simp
  show "queues_ok ?k" by (rule g(2))
  show n: "currp k \<notin> blocked_by k t" using not_queued(2) [OF K(1), of "currp k"] c by (auto simp: blocked_iff)
  then show "demands ?k t = demands k t" unfolding demands_def by (intro image_cong) (auto simp: blocked_by_def)
qed

lemma set_prio_own [simp]: "own_ok (set_prio t p k) = own_ok k" "own_out m (set_prio t p k) = own_out m k"
  by (simp_all add: own_ok_def owns_def own_out_def)

text \<open>A state in which the running thread has taken mutex \<open>m\<close> off its list.\<close>

lemma popped:
  assumes "minv k" "mtxlist k (currp k) = Some m"
  defines "k0 \<equiv> set_mtxlist (currp k) (next_mtx k m) k"
  shows "kinv k0" "queues_ok k0" "own_out m k0" "owner k0 m = Some (currp k)" "keeps k k0" "currp k0 = currp k" "mtxq k0 = mtxq k" "prio_of k0 = prio_of k"
    "realprio k0 = realprio k" "owner k0 = owner k" "next_mtx k0 = next_mtx k" "highest k0 = highest k"
proof -
  note M = minvD [OF assms(1)]
  have o: "only_mtx k k0" unfolding k0_def by (rule only_mtx_basic)
  show "kinv k0" by (rule only_mtx_kinv [OF o M(1)])
  show "queues_ok k0" "keeps k k0" "highest k0 = highest k" using only_mtx_ok [OF o] M(3) by simp_all
qed (use own_pop [OF minvD(2) [OF assms(1)] assms(2)] in \<open>simp_all add: k0_def\<close>)

lemma unlock_waiting_ok:
  assumes "minv k" "mtxlist k (currp k) = Some m" "mtxq k m \<noteq> []"
  shows "\<exists>k' t q. mtxq k m = t # q \<and> chMtxUnlockS m k = Some k' \<and> minv k' \<and> keeps k k' \<and> currp k' = currp k \<and> (inherit_ok k \<longrightarrow> inherit_ok k') \<and>
    owner k' = (owner k)(m := Some t) \<and> mtxq k' = (mtxq k)(m := q) \<and> mtxlist k' t = Some m \<and> state_of k' t = CH_STATE_READY"
proof -
  let ?c = "currp k"
  define k0 where "k0 = set_mtxlist ?c (next_mtx k m) k"
  note p = popped [OF assms(1,2), folded k0_def]
  obtain ms where ms: "chain (next_mtx k0) (mtxlist k0 ?c) ms" "\<forall>m'. m' \<in> set ms \<longleftrightarrow> owner k0 m' = Some ?c \<and> m' \<noteq> m"
    using p(3) unfolding own_out_def by blast
  obtain r where r: "newprio_loop k0 (mtxlist k0 ?c) (realprio k0 ?c) = Some r" "realprio k0 ?c \<le> r"
    "\<forall>m \<in> set ms. \<forall>u \<in> set (mtxq k0 m). prio_of k0 u \<le> r" "r = realprio k0 ?c \<or> (\<exists>m \<in> set ms. \<exists>u \<in> set (mtxq k0 m). prio_of k0 u = r)"
    using newprio_result [OF p(2) ms(1)] by blast
  define k1 where "k1 = set_prio ?c r k0"
  have s: "kinv k1" "queues_ok k1" "keeps k0 k1" "\<And>t. ?c \<notin> blocked_by k0 t" "\<And>t. demands k1 t = demands k0 t"
    using set_prio_run [OF p(1,2)] p(6) by (simp_all add: k1_def)
  have d: "demands k0 t = demands k t" for t by (simp add: demands_def blocked_by_def p)
  have "\<forall>u. u \<noteq> ?c \<longrightarrow> inherit_ok k \<longrightarrow> inh k1 {} u" by (simp add: inherit_ok_def inh_def s(5) d p) (simp add: k1_def p)
  from hand_over_ok [OF s(1,2) _ _ _ this, of m] obtain k' t q where h: "mtxq k1 m = t # q" "hand_over m k1 = Some k'" "minv k'" "keeps k1 k'"
    "currp k' = currp k1" "prio_of k' = prio_of k1" "realprio k' = realprio k1" "owner k' = (owner k1)(m := Some t)" "mtxq k' = (mtxq k1)(m := q)"
    "mtxlist k' = (mtxlist k1)(t := Some m)" "state_of k' t = CH_STATE_READY" "t \<noteq> currp k1" "\<forall>u. u \<noteq> ?c \<longrightarrow> inherit_ok k \<longrightarrow> inh k' {} u"
    using p(3,4,7) assms(3) by (auto simp: k1_def)
  have bl: "blocked_by k' ?c = (\<Union>m' \<in> set ms. set (mtxq k0 m'))"
    using h(8,9,12) ms(2) p(6) by (auto simp: blocked_by_def k1_def split: if_splits)
  have "?c \<notin> blocked_by k' ?c" using s(4) [of ?c] ms(2) unfolding bl blocked_iff by auto
  then have "prio_of k' u = prio_of k0 u" if "u \<in> blocked_by k' ?c" for u using that h(6) by (auto simp: k1_def)
  then have "inh k' {} ?c" using r(2-4) unfolding inh_def demands_def by (simp add: h(6,7)) (auto simp: bl k1_def)
  then have "inherit_ok k \<longrightarrow> inherit_ok k'" using h(13) unfolding inherit_ok_def by metis
  moreover have "chMtxUnlockS m k = Some k'"
    using assms(3) r(1) h(2) by (simp add: chMtxUnlockS_def Let_def unlock_waiting_def chMtxQueueNotEmptyS_def k1_def k0_def mtxq_def next_mtx_def mtxlist_def realprio_def)
  ultimately show ?thesis using h p keeps_trans [OF keeps_trans [OF p(5) s(3)] h(4)]
    by (intro exI [of _ k'] exI [of _ t] exI [of _ q]) (simp add: k1_def)
qed

lemma unlock_free_ok:
  assumes "minv k" "mtxlist k (currp k) = Some m" "mtxq k m = []"
  shows "\<exists>k'. chMtxUnlockS m k = Some k' \<and> minv k' \<and> keeps k k' \<and> currp k' = currp k \<and> (inherit_ok k \<longrightarrow> inherit_ok k') \<and> highest k' = highest k \<and>
    owner k' = (owner k)(m := None)"
proof -
  define k0 where "k0 = set_mtxlist (currp k) (next_mtx k m) k"
  note p = popped [OF assms(1,2), folded k0_def]
  have o: "only_mtx k0 (mtx_free m k0)" by (rule only_mtx_basic)
  have "minv (mtx_free m k0)"
    using only_mtx_kinv [OF o p(1)] own_release [OF p(3)] only_mtx_ok(7) [OF o] p(2,7) assms(3) by (simp add: minv_def)
  moreover have "inherit_ok k \<longrightarrow> inherit_ok (mtx_free m k0)"
    using inherit_cong [of k "mtx_free m k0"] blocked_free [OF assms(3), of "mtx_free m k0" None] p by simp
  moreover have "chMtxUnlockS m k = Some (mtx_free m k0)"
    using assms(3) by (simp add: chMtxUnlockS_def Let_def chMtxQueueNotEmptyS_def k0_def mtxq_def next_mtx_def mtx_free_def)
  ultimately show ?thesis using keeps_trans [OF p(5) only_mtx_ok(5) [OF o]] only_mtx_ok(6) [OF o] p by simp
qed

lemma unlock_ok:
  assumes "minv k" "highest k" "mtxlist k (currp k) = Some m"
  shows "\<exists>k'. chMtxUnlockS m k = Some k' \<and> minv k' \<and> keeps k k' \<and> currp k' = currp k \<and> (inherit_ok k \<longrightarrow> inherit_ok k')"
    "\<exists>k'. chMtxUnlock m k = Some k' \<and> minv k' \<and> highest k' \<and> (inherit_ok k \<longrightarrow> inherit_ok k')"
proof -
  show S: "\<exists>k'. chMtxUnlockS m k = Some k' \<and> minv k' \<and> keeps k k' \<and> currp k' = currp k \<and> (inherit_ok k \<longrightarrow> inherit_ok k')"
    using unlock_waiting_ok [OF assms(1,3)] unlock_free_ok [OF assms(1,3)] by blast
  show "\<exists>k'. chMtxUnlock m k = Some k' \<and> minv k' \<and> highest k' \<and> (inherit_ok k \<longrightarrow> inherit_ok k')"
  proof (cases "mtxq k m = []")
    case True
    then have "chMtxUnlock m k = chMtxUnlockS m k" by (simp add: chMtxUnlock_def chMtxUnlockS_def Let_def chMtxQueueNotEmptyS_def mtxq_def)
    then show ?thesis using unlock_free_ok [OF assms(1,3) True] assms(2) by auto
  next
    case False
    then have e: "chMtxUnlock m k = Option.bind (chMtxUnlockS m k) chSchRescheduleS"
      by (simp add: chMtxUnlock_def chMtxUnlockS_def Let_def chMtxQueueNotEmptyS_def mtxq_def)
    obtain k1 where k1: "chMtxUnlockS m k = Some k1" "minv k1" "inherit_ok k \<longrightarrow> inherit_ok k1" using S by blast
    obtain k' where k': "chSchRescheduleS k1 = Some k'" using reschedule_returns by blast
    note c = mtx_frame.fr_reschedule [OF k']
    show ?thesis using e k1 k' kinv_reschedule [OF minvD(1) [OF k1(2)] k'] minv_calm [OF k1(2) _ c] calm_ok(3) [OF c] by auto
  qed
qed

text \<open>All mutexes of the running thread are released in turn; its inherited priority is stale meanwhile.\<close>

lemma unlock_all_loop_ok:
  assumes "minv k" "owns k (currp k) ms" "\<forall>u. u \<noteq> currp k \<longrightarrow> P \<longrightarrow> inh k {} u"
  shows "\<exists>k'. unlock_all_loop (currp k) k = Some k' \<and> minv k' \<and> keeps k k' \<and> currp k' = currp k \<and> owns k' (currp k) [] \<and>
    (\<forall>u. u \<noteq> currp k \<longrightarrow> P \<longrightarrow> inh k' {} u)"
  using assms
proof (induction ms arbitrary: k)
  case Nil
  then have "p_mtxlist (threads k (currp k)) = None" by (simp add: owns_def mtxlist_def)
  then have "unlock_all_loop (currp k) k = Some k" by (subst unlock_all_loop.simps) simp
  then show ?case using Nil keeps_refl by blast
next
  case (Cons m ms)
  let ?c = "currp k"
  have l: "mtxlist k ?c = Some m" and ch: "chain (next_mtx k) (next_mtx k m) ms" using ownsD(3) [OF Cons.prems(2)] by simp_all
  have mem: "m \<notin> set ms" "\<And>m'. m' \<in> set ms \<longleftrightarrow> owner k m' = Some ?c \<and> m' \<noteq> m"
    using ownsD(1,2) [OF Cons.prems(2)] by auto
  define k0 where "k0 = set_mtxlist ?c (next_mtx k m) k"
  note p = popped [OF Cons.prems(1) l, folded k0_def]
  have d: "demands k0 t = demands k t" for t by (simp add: demands_def blocked_by_def p)
  have i0: "\<forall>u. u \<noteq> ?c \<longrightarrow> P \<longrightarrow> inh k0 {} u" using Cons.prems(3) by (simp add: inh_def d p)
  obtain k1 where k1: "(if mtxq k m \<noteq> [] then hand_over m k0 else Some (mtx_free m k0)) = Some k1" "minv k1" "keeps k0 k1" "currp k1 = ?c"
    "owns k1 ?c ms" "\<forall>u. u \<noteq> ?c \<longrightarrow> P \<longrightarrow> inh k1 {} u"
  proof (cases "mtxq k m = []")
    case True
    have o: "only_mtx k0 (mtx_free m k0)" by (rule only_mtx_basic)
    have "minv (mtx_free m k0)"
      using only_mtx_kinv [OF o p(1)] own_release [OF p(3)] only_mtx_ok(7) [OF o] p(2,7) True by (simp add: minv_def)
    moreover have "demands (mtx_free m k0) u = demands k u" for u
      using blocked_free [OF True, of "mtx_free m k0" None u] p by (simp add: demands_def)
    then have "\<forall>u. u \<noteq> ?c \<longrightarrow> P \<longrightarrow> inh (mtx_free m k0) {} u" using Cons.prems(3) by (simp add: inh_def p)
    moreover have "owns (mtx_free m k0) ?c ms" using ch by (simp add: owns_def mem(2) k0_def)
    ultimately show ?thesis using that True only_mtx_ok(5) [OF o] p(6) by simp
  next
    case False
    obtain k1 t q where h: "hand_over m k0 = Some k1" "minv k1" "keeps k0 k1" "currp k1 = currp k0" "owner k1 = (owner k0)(m := Some t)"
      "mtxlist k1 = (mtxlist k0)(t := Some m)" "next_mtx k1 = (next_mtx k0)(m := mtxlist k0 t)" "t \<noteq> currp k0" "\<forall>u. u \<noteq> ?c \<longrightarrow> P \<longrightarrow> inh k1 {} u"
      using hand_over_ok [OF p(1-3) _ p(4) i0] False unfolding p(7) by blast
    have "owns k1 ?c ms" unfolding owns_def h(5-7) using ch mem chain_upd [OF mem(1)] h(8) p(6,10,11) by (auto simp: k0_def)
    then show ?thesis using that False h p(6) by simp
  qed
  have "unlock_all_loop ?c k = unlock_all_loop ?c k1"
    using l k1(1) by (subst unlock_all_loop.simps) (simp add: chMtxQueueNotEmptyS_def k0_def mtxlist_def mtxq_def next_mtx_def mtx_free_def split: if_splits)
  then show ?case using Cons.IH [OF k1(2)] k1(4-6) keeps_trans [OF keeps_trans [OF p(5) k1(3)]] by metis
qed

lemma unlock_all_ok:
  assumes "minv k" "highest k"
  shows "\<exists>k'. chMtxUnlockAll k = Some k' \<and> minv k' \<and> highest k' \<and> (inherit_ok k \<longrightarrow> inherit_ok k')"
proof (cases "mtxlist k (currp k)")
  case None
  then show ?thesis using assms by (simp add: chMtxUnlockAll_def mtxlist_def)
next
  case (Some m)
  let ?c = "currp k"
  obtain ms where ms: "owns k ?c ms" using own_okD(1) [OF minvD(2) [OF assms(1)]] by blast
  have "\<forall>u. u \<noteq> ?c \<longrightarrow> inherit_ok k \<longrightarrow> inh k {} u" by (simp add: inherit_ok_def)
  from unlock_all_loop_ok [OF assms(1) ms this] obtain k1 where k1: "unlock_all_loop ?c k = Some k1" "minv k1" "currp k1 = ?c" "owns k1 ?c []"
    "\<forall>u. u \<noteq> ?c \<longrightarrow> inherit_ok k \<longrightarrow> inh k1 {} u" by blast
  let ?k = "set_prio ?c (realprio k1 ?c) k1"
  have s: "kinv ?k" "queues_ok ?k" "\<And>t. demands ?k t = demands k1 t"
    using set_prio_run [OF minvD(1,3) [OF k1(2)], of "realprio k1 ?c"] k1(3) by simp_all
  have M: "minv ?k" using s(1,2) minvD(2) [OF k1(2)] by (simp add: minv_def)
  have "blocked_by k1 ?c = {}" using k1(4) by (auto simp: owns_def blocked_by_def)
  then have i: "inherit_ok ?k" if "inherit_ok k" using k1(5) that by (auto simp: inherit_ok_def inh_def s(3)) (simp_all add: demands_def)
  obtain k' where k': "chSchRescheduleS ?k = Some k'" using reschedule_returns by blast
  note c = mtx_frame.fr_reschedule [OF k']
  have "chMtxUnlockAll k = Some k'" using Some k1(1) k' by (simp add: chMtxUnlockAll_def mtxlist_def realprio_def)
  then show ?thesis using kinv_reschedule [OF s(1) k'] minv_calm [OF M _ c] calm_ok(3) [OF c] i by blast
qed

section \<open>Condition variables\<close>

lemma cond_pop:
  assumes "k_ok k" "conds k c = t # q"
  shows "link_ok {t} (upd_cond c (\<lambda>_. q) k)" "t \<noteq> currp k" "calm k (upd_cond c (\<lambda>_. q) k)" "keeps k (upd_cond c (\<lambda>_. q) k)"
proof -
  note K = current_unlinked(1,2) [OF assms(1)]
  have st: "state_of k t = CH_STATE_WTCOND c" using link_queued [OF K(1), of t "CH_STATE_WTCOND c"] assms(2) by simp
  show "link_ok {t} (upd_cond c (\<lambda>_. q) k)" using unlink_cond_ok [OF K(1) st] assms(2) by (simp add: upd_cond_def)
  show "t \<noteq> currp k" using st cur_self [OF K(2)] by auto
  show "calm k (upd_cond c (\<lambda>_. q) k)" using assms(2) by (auto simp: calm_def)
  show "keeps k (upd_cond c (\<lambda>_. q) k)" by (rule keeps_eq) simp_all
qed

lemma cond_signalI_ok:
  assumes "minv k"
  shows "minv (chCondSignalI c k)" "calm k (chCondSignalI c k)" "currp (chCondSignalI c k) = currp k"
proof -
  have "minv (chCondSignalI c k) \<and> calm k (chCondSignalI c k) \<and> currp (chCondSignalI c k) = currp k"
  proof (cases "conds k c")
    case Nil
    then show ?thesis using assms by (simp add: chCondSignalI_def queue_fifo_remove_def mtx_frame.fr_refl)
  next
    case (Cons t q)
    note M = minvD [OF assms] and p = cond_pop [OF minvD(4) [OF assms] Cons]
    let ?k = "chSchReadyI t (set_msg t MSG_OK (upd_cond c (\<lambda>_. q) k))"
    have e: "chCondSignalI c k = ?k" using Cons by (simp add: chCondSignalI_def queue_fifo_remove_def)
    have ok: "k_ok ?k" by (rule ready_msg_ok [OF p(1)]) (use p(2) M(6) in \<open>simp_all add: cur_ok_def\<close>)
    have ca: "calm k ?k" by (rule mtx_frame.fr_trans [OF p(3) mtx_frame.fr_ready_msg])
    have "kinv ?k" using kinv_keeps [OF M(1) ok] sem_ok_sems [of ?k k] kinvD(2) [OF M(1)] by (simp add: keeps_def)
    then show ?thesis using minv_calm [OF assms _ ca] ca e by simp
  qed
  then show "minv (chCondSignalI c k)" "calm k (chCondSignalI c k)" "currp (chCondSignalI c k) = currp k" by auto
qed

lemma cond_signal_ok:
  assumes "minv k" "highest k"
  shows "minv (chCondSignal c k)" "calm k (chCondSignal c k)" "highest (chCondSignal c k)"
proof -
  have "minv (chCondSignal c k) \<and> calm k (chCondSignal c k) \<and> highest (chCondSignal c k)"
  proof (cases "conds k c")
    case Nil
    then show ?thesis using assms by (simp add: chCondSignal_def queue_fifo_remove_def mtx_frame.fr_refl)
  next
    case (Cons t q)
    note M = minvD [OF assms(1)] and p = cond_pop [OF minvD(4) [OF assms(1)] Cons]
    let ?u = "upd_cond c (\<lambda>_. q) k" let ?k = "chSchWakeupS t MSG_OK ?u"
    have e: "chCondSignal c k = ?k" using Cons by (simp add: chCondSignal_def queue_fifo_remove_def)
    have "cur_ok ?u" "highest ?u" "t \<noteq> currp ?u" using M(6) assms(2) p(2) by (simp_all add: cur_ok_def highest_def)
    note w = wakeupS_ok [OF p(1) this(1,3,2), of MSG_OK]
    have ca: "calm k ?k" by (rule mtx_frame.fr_trans [OF p(3) mtx_frame.fr_wakeupS])
    have "kinv ?k"
      using kinv_keeps [OF M(1) w(1) _ keeps_trans [OF p(4) keeps_wakeupS]] sem_ok_sems [of ?k k] kinvD(2) [OF M(1)] w(3) by simp
    then show ?thesis using minv_calm [OF assms(1) _ ca] ca e w(2) by simp
  qed
  then show "minv (chCondSignal c k)" "calm k (chCondSignal c k)" "highest (chCondSignal c k)" by auto
qed

lemma cond_broadcastI_ok:
  assumes "minv k"
  shows "minv (chCondBroadcastI c k) \<and> calm k (chCondBroadcastI c k) \<and> currp (chCondBroadcastI c k) = currp k"
  using assms
proof (induction "length (conds k c)" arbitrary: k)
  case 0
  then show ?case by (subst (1 2 3) chCondBroadcastI.simps) (simp add: queue_fifo_remove_def mtx_frame.fr_refl)
next
  case (Suc n)
  then obtain t q where q: "conds k c = t # q" by (cases "conds k c") auto
  note M = minvD [OF Suc.prems] and p = cond_pop [OF minvD(4) [OF Suc.prems] q]
  let ?k = "set_msg t MSG_RESET (chSchReadyI t (upd_cond c (\<lambda>_. q) k))"
  have e: "chCondBroadcastI c k = chCondBroadcastI c ?k" using q by (subst chCondBroadcastI.simps) (simp add: queue_fifo_remove_def)
  have "k_ok (chSchReadyI t (upd_cond c (\<lambda>_. q) k))" by (rule ready_ok [OF p(1)]) (use p(2) M(6) in \<open>simp_all add: cur_ok_def\<close>)
  then have ok: "k_ok ?k" by (simp add: k_ok_def)
  have ca: "calm k ?k" by (rule mtx_frame.fr_trans [OF p(3) mtx_frame.fr_trans [OF mtx_frame.fr_ready mtx_frame.fr_msg]])
  have "kinv ?k" using kinv_keeps [OF M(1) ok] sem_ok_sems [of ?k k] kinvD(2) [OF M(1)] by (simp add: keeps_def)
  then have "minv ?k" by (rule minv_calm [OF Suc.prems _ ca])
  then show ?case using Suc.hyps(1) [of ?k] Suc.hyps(2) q mtx_frame.fr_trans [OF ca] unfolding e by simp
qed

text \<open>Joining the queue of a condition variable.\<close>

lemma cond_join:
  fixes c :: nat and k :: kernel
  defines "k1 \<equiv> upd_cond c (prio_insert (prio_of k) (currp k)) k"
  assumes "link_ok {} k" "cur_ok k" "queues_ok k"
  shows "link_ok {} (set_state (currp k) (CH_STATE_WTCOND c) k1)" "queues_ok k1"
proof -
  have cs: "state_of k (currp k) = CH_STATE_CURRENT" by (rule cur_self [OF assms(3)])
  have n: "currp k \<notin> set (conds k c)" using link_queued [OF assms(2), of "currp k" "CH_STATE_WTCOND c"] cs by simp
  show "link_ok {} (set_state (currp k) (CH_STATE_WTCOND c) k1)"
  proof (rule enter_ok [OF assms(2), where c = "currp k" and st = "CH_STATE_WTCOND c"])
    fix u st
    show "queued (set_state (currp k) (CH_STATE_WTCOND c) k1) u st \<longleftrightarrow> queued k u st \<or> u = currp k \<and> st = CH_STATE_WTCOND c \<and> is_link (CH_STATE_WTCOND c)"
      unfolding k1_def by (cases st) auto
  qed (use cs n link_okD [OF assms(2)] in \<open>simp_all add: k1_def\<close>)
  show "queues_ok k1" using assms(4) sorted_prio_insert(1) unfolding queues_ok_def prio_sorted_def k1_def by simp
qed

text \<open>The mutex taken last is released and the caller sleeps on the condition variable.\<close>

lemma cond_wait_ok:
  assumes "minv k" "highest k" "\<not> chVTIsArmedI (currp k) (vtlist k)" "currp k \<noteq> 1" "mtxlist k (currp k) \<noteq> None"
  shows "\<exists>k'. chCondWaitS c k = Some k' \<and> minv k' \<and> highest k' \<and> (inherit_ok k \<longrightarrow> inherit_ok k')"
    "\<exists>k'. chCondWaitTimeoutS now c time k = Some k' \<and> minv k' \<and> highest k' \<and> (inherit_ok k \<longrightarrow> inherit_ok k')"
proof -
  note M = minvD [OF assms(1)]
  obtain m where m: "mtxlist k (currp k) = Some m" using assms(5) by blast
  obtain k1 where k1: "chMtxUnlockS m k = Some k1" "minv k1" "keeps k k1" "currp k1 = currp k" "inherit_ok k \<longrightarrow> inherit_ok k1"
    using unlock_ok(1) [OF assms(1,2) m] by blast
  note N = minvD [OF k1(2)]
  define k2 where "k2 = upd_cond c (prio_insert (prio_of k1) (currp k1)) k1"
  note j = cond_join [OF N(5,6,3), of c, folded k2_def]
  have e: "chCondWaitS c k = chSchGoSleepS (CH_STATE_WTCOND c) k2" "chCondWaitTimeoutS now c time k = chSchGoSleepTimeoutS now (CH_STATE_WTCOND c) time k2"
    using m k1(1,4) by (simp_all add: chCondWaitS_def chCondWaitTimeoutS_def chMtxGetNextMutexS_def mtxlist_def k2_def)
  have q: "r_queue k2 \<noteq> []" using others_ready [OF N(1)] k1(4) assms(4) by (auto simp: k2_def)
  have b: "minv k' \<and> highest k' \<and> (inherit_ok k \<longrightarrow> inherit_ok k')"
    if s: "chSchGoSleepS (CH_STATE_WTCOND c) k2 = Some k' \<or> chSchGoSleepTimeoutS now (CH_STATE_WTCOND c) time k2 = Some k'" for k'
  proof -
    have vk: "keeps k1 k2" by (rule keeps_eq) (simp_all add: k2_def)
    have "\<not> chVTIsArmedI (currp k1) (vtlist k1)" "currp k1 \<noteq> 1" using assms(3,4) k1(3,4) by (simp_all add: keeps_def)
    moreover have bl: "k_ok k' \<and> highest k' \<and> sems k' = sems k1 \<and> blocks k1 k'"
      by (rule call_blocks [of k1 k2 "CH_STATE_WTCOND c" k' now time])
        (use N(4,6) j(1) vk s in \<open>simp_all add: k2_def cur_ok_def runnable_def\<close>)
    ultimately have "kinv k'" using kinv_blocks [OF N(1)] sem_ok_sems kinvD(2) [OF N(1)] by blast
    moreover have ca: "calm k2 k'"
      using s mtx_frame.fr_sleep [of k2 k2 "CH_STATE_WTCOND c" k']
        mtx_frame.fr_sleep [of k2 "k2\<lparr>vtlist := chVTDoSetI now (sleep_timer (currp k2)) time (vtlist k2)\<rparr>" "CH_STATE_WTCOND c" k']
      by (auto simp: chSchGoSleepTimeoutS_def calm_def mtxlist_def realprio_def fun_eq_iff split: if_splits)
    moreover have "own_ok k2" "inherit_ok k1 \<longrightarrow> inherit_ok k2"
      using N(2) by (simp_all add: own_ok_def owns_def inherit_ok_def inh_def demands_def blocked_by_def k2_def)
    ultimately show ?thesis using calm_ok [OF ca] j(2) k1(5) bl by (simp add: minv_def)
  qed
  show "\<exists>k'. chCondWaitS c k = Some k' \<and> minv k' \<and> highest k' \<and> (inherit_ok k \<longrightarrow> inherit_ok k')"
    using e(1) b go_sleep_returns [OF q] by metis
  show "\<exists>k'. chCondWaitTimeoutS now c time k = Some k' \<and> minv k' \<and> highest k' \<and> (inherit_ok k \<longrightarrow> inherit_ok k')"
    using e(2) b sleeps_timeout [OF q] by (metis option.exhaust)
qed

section \<open>Changing a base priority\<close>

text \<open>A thread that waits neither on a mutex nor on a condition variable gets another priority.\<close>

lemma upd_prios:
  assumes "link_ok {} k" "own_ok k" "queues_ok k" "mtxs k1 = mtxs k" "conds k1 = conds k" "mtxlist k1 = mtxlist k" "prio_of k1 = (prio_of k)(t := p)"
    "realprio k1 = (realprio k)(t := p')" "\<forall>m. state_of k t \<noteq> CH_STATE_WTMTX m" "\<forall>c. state_of k t \<noteq> CH_STATE_WTCOND c"
  shows "own_ok k1" "queues_ok k1" "demands k1 u = demands k u" "inherit_ok k \<Longrightarrow> inh k1 {} t \<Longrightarrow> inherit_ok k1"
proof -
  have e: "owner k1 = owner k" "mtxq k1 = mtxq k" "next_mtx k1 = next_mtx k" using mtx_fields [OF assms(4)] by simp_all
  show "own_ok k1" using assms(2) by (simp add: own_ok_def owns_def e assms(6))
  show "queues_ok k1" unfolding queues_ok_def prio_sorted_def e assms(5,7) using sorted_others(2,3) [OF assms(1,3)] assms(9,10) by blast
  have "t \<notin> blocked_by k u" for u using not_queued(2) [OF assms(1), of t] assms(9) by (auto simp: blocked_iff)
  then show d: "demands k1 u = demands k u" for u unfolding demands_def by (intro image_cong) (auto simp: blocked_by_def e assms(7))
  show "inherit_ok k1" if "inherit_ok k" "inh k1 {} t"
    unfolding inherit_ok_def
  proof
    fix u
    show "inh k1 {} u" using that by (cases "u = t") (simp_all add: inherit_ok_def inh_def d assms(7,8))
  qed
qed

lemma unowned_demands:
  assumes "own_ok k" "mtxlist k t = None"
  shows "demands k t = {}"
proof -
  obtain ms where "owns k t ms" using own_okD(1) [OF assms(1)] by blast
  then show ?thesis using assms(2) by (cases ms) (auto simp: owns_def demands_def blocked_by_def)
qed

text \<open>What keeps inherited priorities: a thread that owns a mutex does not lower its own priority.\<close>

fun boost_kept :: "kcall \<Rightarrow> kernel \<Rightarrow> bool" where
  "boost_kept (SetPriority p) k \<longleftrightarrow> realprio k (currp k) \<le> p \<or> mtxlist k (currp k) = None"
| "boost_kept _ k \<longleftrightarrow> True"

lemma set_priority_mtx:
  assumes "minv k" "chThdSetPriority p k = Some k'"
  shows "own_ok k'" "queues_ok k'" "inherit_ok k \<Longrightarrow> boost_kept (SetPriority p) k \<Longrightarrow> inherit_ok k'"
proof -
  note M = minvD [OF assms(1)]
  let ?c = "currp k"
  let ?f = "\<lambda>th :: thread. (if p_prio th = p_realprio th \<or> p > p_prio th then th\<lparr>p_prio := p\<rparr> else th)\<lparr>p_realprio := p\<rparr>"
  define k1 where "k1 = upd_thread ?c ?f k"
  define p' where "p' = (if prio_of k ?c = realprio k ?c \<or> p > prio_of k ?c then p else prio_of k ?c)"
  have e: "mtxs k1 = mtxs k" "conds k1 = conds k" "mtxlist k1 = mtxlist k" "prio_of k1 = (prio_of k)(?c := p')" "realprio k1 = (realprio k)(?c := p)"
    by (auto simp: k1_def p'_def mtxlist_def realprio_def prio_of_def fun_eq_iff)
  have "state_of k ?c = CH_STATE_CURRENT" by (rule cur_self [OF M(6)])
  then have u: "own_ok k1" "queues_ok k1" "\<And>u. demands k1 u = demands k u" "inherit_ok k \<Longrightarrow> inh k1 {} ?c \<Longrightarrow> inherit_ok k1"
    using upd_prios [OF M(5,2,3) e] by simp_all
  have r: "chSchRescheduleS k1 = Some k'" using assms(2) by (simp add: chThdSetPriority_def k1_def)
  note c = calm_ok [OF mtx_frame.fr_reschedule [OF r]]
  show "own_ok k'" "queues_ok k'" using c u by simp_all
  have "inh k1 {} ?c" if ik: "inherit_ok k" and bk: "boost_kept (SetPriority p) k"
  proof -
    have i: "inh k {} ?c" using ik by (simp add: inherit_ok_def)
    consider "mtxlist k ?c = None" | "realprio k ?c \<le> p" using bk by auto
    then show ?thesis
    proof cases
      case 1
      then show ?thesis using unowned_demands [OF M(2)] i by (simp add: inh_def u(3) e p'_def)
    next
      case 2
      then show ?thesis using i by (fastforce simp: inh_def u(3) e p'_def)
    qed
  qed
  then show "inherit_ok k \<Longrightarrow> boost_kept (SetPriority p) k \<Longrightarrow> inherit_ok k'" using u(4) c(3) by blast
qed

lemma create_mtx:
  assumes "minv k" "state_of k t = CH_STATE_FINAL" "mtxlist k t = None"
  shows "own_ok (chThdCreateStatic t p k)" "queues_ok (chThdCreateStatic t p k)" "inherit_ok k \<Longrightarrow> inherit_ok (chThdCreateStatic t p k)"
proof -
  note M = minvD [OF assms(1)]
  let ?k = "chThdCreateI t p k"
  have e: "mtxs ?k = mtxs k" "conds ?k = conds k" "mtxlist ?k = mtxlist k" "prio_of ?k = (prio_of k)(t := p)" "realprio ?k = (realprio k)(t := p)"
    using assms(3) by (auto simp: chThdCreateI_def thread_init_def mtxlist_def realprio_def prio_of_def fun_eq_iff)
  have u: "own_ok ?k" "queues_ok ?k" "\<And>u. demands ?k u = demands k u" "inherit_ok k \<Longrightarrow> inh ?k {} t \<Longrightarrow> inherit_ok ?k"
    using upd_prios [OF M(5,2,3) e] assms(2) by simp_all
  have "inh ?k {} t" using unowned_demands [OF M(2) assms(3)] by (simp add: inh_def u(3) e)
  then show "own_ok (chThdCreateStatic t p k)" "queues_ok (chThdCreateStatic t p k)" "inherit_ok k \<Longrightarrow> inherit_ok (chThdCreateStatic t p k)"
    using calm_ok [OF mtx_frame.fr_wakeupS [of ?k t MSG_OK]] u by (simp_all add: chThdCreateStatic_def)
qed

section \<open>The kernel with mutexes\<close>

datatype mcall = MtxLock nat | MtxTryLock nat | MtxUnlock nat | MtxUnlockAll | CondSignal nat | CondBroadcast nat | CondWait nat
  | CondWaitTimeout systime_t nat systime_t

fun mcall_exec :: "mcall \<Rightarrow> kernel \<Rightarrow> kernel option" where
  "mcall_exec (MtxLock m) k = chMtxLock m k"
| "mcall_exec (MtxTryLock m) k = Some (snd (chMtxTryLock m k))"
| "mcall_exec (MtxUnlock m) k = chMtxUnlock m k"
| "mcall_exec MtxUnlockAll k = chMtxUnlockAll k"
| "mcall_exec (CondSignal c) k = Some (chCondSignal c k)"
| "mcall_exec (CondBroadcast c) k = chCondBroadcast c k"
| "mcall_exec (CondWait c) k = chCondWait c k"
| "mcall_exec (CondWaitTimeout now c time) k = chCondWaitTimeout now c time k"

text \<open>The documented preconditions: the mutex locked last is unlocked first, a wait needs a mutex and is not immediate.\<close>

fun mcall_pre :: "mcall \<Rightarrow> kernel \<Rightarrow> bool" where
  "mcall_pre (MtxUnlock m) k \<longleftrightarrow> chMtxGetNextMutexS k = Some m"
| "mcall_pre (CondWait c) k \<longleftrightarrow> chMtxGetNextMutexS k \<noteq> None"
| "mcall_pre (CondWaitTimeout now c time) k \<longleftrightarrow> chMtxGetNextMutexS k \<noteq> None \<and> time \<noteq> TIME_IMMEDIATE"
| "mcall_pre _ k \<longleftrightarrow> True"

text \<open>A working area is used again only if its thread ended without a mutex.\<close>

fun create_pre :: "kcall \<Rightarrow> kernel \<Rightarrow> bool" where
  "create_pre (CreateStatic t p) k \<longleftrightarrow> mtxlist k t = None"
| "create_pre _ k \<longleftrightarrow> True"

text \<open>
  Steps of the kernel with mutexes.  The lock that ends a wait on a condition variable is an
  \<open>MtxLock\<close> of the resumed thread.  With \<open>strict\<close>, no thread lowers its own priority while it
  owns a mutex.
\<close>

inductive mutex_step :: "bool \<Rightarrow> kernel \<Rightarrow> kernel \<Rightarrow> bool" for strict where
  Call: "mutex_step strict k k'" if "\<not> chVTIsArmedI (currp k) (vtlist k)" "currp k \<noteq> 1" "kcall_pre c k" "create_pre c k"
    "strict \<longrightarrow> boost_kept c k" "kcall_exec c k = Some k'"
| Interrupt: "mutex_step strict k k'" if "\<not> chVTIsArmedI (currp k) (vtlist k)" "\<forall>c \<in> set cs. icall_pre c" "isr_exec cs k = Some k'"
| Resumed: "mutex_step strict k k'" if "chVTIsArmedI (currp k) (vtlist k)" "time \<noteq> TIME_INFINITE" "k' = snd (sleep_resumed now time k)"
| Mutex: "mutex_step strict k k'" if "\<not> chVTIsArmedI (currp k) (vtlist k)" "currp k \<noteq> 1" "mcall_pre c k" "mcall_exec c k = Some k'"
| SignalI: "mutex_step strict k k'" if "\<not> chVTIsArmedI (currp k) (vtlist k)" "chSchPreemption (chCondSignalI c k) = Some k'"
| BroadcastI: "mutex_step strict k k'" if "\<not> chVTIsArmedI (currp k) (vtlist k)" "chSchPreemption (chCondBroadcastI c k) = Some k'"

inductive mutex_reach :: "bool \<Rightarrow> kernel \<Rightarrow> bool" for strict where
  Init: "mutex_reach strict chSysInit"
| Step: "mutex_reach strict k \<Longrightarrow> mutex_step strict k k' \<Longrightarrow> mutex_reach strict k'"

lemma kcall_mtx:
  assumes "minv k" "highest k" "\<not> chVTIsArmedI (currp k) (vtlist k)" "currp k \<noteq> 1" "kcall_pre c k" "create_pre c k" "kcall_exec c k = Some k'"
  shows "minv k' \<and> highest k' \<and> (inherit_ok k \<longrightarrow> boost_kept c k \<longrightarrow> inherit_ok k')"
proof -
  have K: "kinv k' \<and> highest k'" by (rule kcall_kinv [OF minvD(1) [OF assms(1)] assms(2-5,7)])
  show ?thesis
  proof (cases c)
    case (SetPriority p)
    then show ?thesis using set_priority_mtx [OF assms(1), of p k'] assms(7) K by (simp add: minv_def del: boost_kept.simps)
  next
    case (CreateStatic t p)
    then show ?thesis using create_mtx [OF assms(1), of t p] assms(5-7) K by (auto simp: minv_def)
  qed (use mtx_frame.fr_kcall [OF assms(7)] minv_calm [OF assms(1)] calm_ok(3) K in auto)
qed

lemma mcall_ok:
  assumes "minv k" "highest k" "\<not> chVTIsArmedI (currp k) (vtlist k)" "currp k \<noteq> 1" "mcall_pre c k"
  shows "\<exists>k'. mcall_exec c k = Some k' \<and> minv k' \<and> highest k' \<and> (inherit_ok k \<longrightarrow> inherit_ok k')"
proof (cases c)
  case (MtxLock m)
  then show ?thesis using lock_ok [OF assms(1-4)] by (simp add: chMtxLock_def)
next
  case (MtxTryLock m)
  then show ?thesis using mtx_own_ok [OF assms(1), of m "currp k"] assms(1,2) by (auto simp: chMtxTryLock_def chMtxTryLockS_def owner_def)
next
  case (MtxUnlock m)
  then show ?thesis using unlock_ok(2) [OF assms(1,2)] assms(5) by (simp add: chMtxGetNextMutexS_def mtxlist_def)
next
  case MtxUnlockAll
  then show ?thesis using unlock_all_ok [OF assms(1,2)] by simp
next
  case (CondSignal v)
  then show ?thesis using cond_signal_ok [OF assms(1,2), of v] calm_ok(3) by auto
next
  case (CondBroadcast v)
  note b = cond_broadcastI_ok [OF assms(1), of v]
  obtain k' where k': "chSchRescheduleS (chCondBroadcastI v k) = Some k'" using reschedule_returns by blast
  note f = mtx_frame.fr_reschedule [OF k']
  have "kinv k' \<and> highest k'" using kinv_reschedule [OF minvD(1) k'] b by blast
  then show ?thesis using CondBroadcast k' b minv_calm [OF _ _ f] calm_ok(3) [OF f] calm_ok(3) [of k "chCondBroadcastI v k"] by (auto simp: chCondBroadcast_def)
next
  case (CondWait v)
  then show ?thesis using cond_wait_ok(1) [OF assms(1-4)] assms(5) by (simp add: chCondWait_def chMtxGetNextMutexS_def mtxlist_def)
next
  case (CondWaitTimeout now v time)
  then show ?thesis using cond_wait_ok(2) [OF assms(1-4)] assms(5) by (simp add: chCondWaitTimeout_def chMtxGetNextMutexS_def mtxlist_def)
qed

lemma isr_mtx:
  assumes "minv k1" "chSchPreemption k1 = Some k'"
  shows "minv k' \<and> highest k' \<and> (inherit_ok k1 \<longrightarrow> inherit_ok k')"
proof -
  have r: "chSchRescheduleS k1 = Some k'" using assms(2) by (simp add: preemption_reschedules)
  note f = mtx_frame.fr_reschedule [OF r]
  show ?thesis using kinv_reschedule [OF minvD(1) [OF assms(1)] r] minv_calm [OF assms(1) _ f] calm_ok(3) [OF f] by blast
qed

lemma mutex_step_ok: "mutex_step strict k k' \<Longrightarrow> minv k \<Longrightarrow> highest k \<Longrightarrow> minv k' \<and> highest k' \<and> (strict \<longrightarrow> inherit_ok k \<longrightarrow> inherit_ok k')"
proof (induction rule: mutex_step.induct)
  case (Call k c k')
  then show ?case using kcall_mtx by blast
next
  case (Interrupt k cs k')
  then show ?case using isr_kinv [OF minvD(1)] minv_calm mtx_frame.fr_isr calm_ok(3) by blast
next
  case (Resumed k time k' now)
  then show ?case using resumed_kinv [OF minvD(1)] minv_calm mtx_frame.fr_resumed calm_ok(3) by blast
next
  case (Mutex k c k')
  then show ?case using mcall_ok [of k c] by auto
next
  case (SignalI k c k')
  then show ?case using isr_mtx cond_signalI_ok calm_ok(3) by blast
next
  case (BroadcastI k c k')
  then show ?case using isr_mtx cond_broadcastI_ok calm_ok(3) by blast
qed

lemma init_mtx: "minv chSysInit" "inherit_ok chSysInit"
proof -
  have e: "owner chSysInit m = None" "mtxq chSysInit m = []" "conds chSysInit c = []" "mtxlist chSysInit t = None" "prio_of chSysInit t = realprio chSysInit t" for m c t
    by (simp_all add: owner_def mtxq_def mtxlist_def realprio_def sample_defs)
  have "owns chSysInit t []" for t by (simp add: owns_def e)
  then have "own_ok chSysInit" by (auto simp: own_ok_def e)
  then show "minv chSysInit" using init_kinv by (simp add: minv_def queues_ok_def prio_sorted_def e)
  show "inherit_ok chSysInit" by (simp add: inherit_ok_def inh_def demands_def blocked_by_def e)
qed

lemma mutex_reach_inv: "mutex_reach strict k \<Longrightarrow> minv k \<and> highest k \<and> (strict \<longrightarrow> inherit_ok k)"
  by (induction rule: mutex_reach.induct) (use init_mtx init_kinv(2) mutex_step_ok in blast)+

section \<open>Properties\<close>

text \<open>
  C32: mutual exclusion and queues.  In every reachable state each mutex is in the list of its owner
  and in no other, the list of a thread visits each of its mutexes once and ends; the threads queued
  on a mutex are exactly those waiting for it, in order of priority, and only a mutex with an owner
  is waited for.  The same order holds for condition variables.
\<close>

theorem mutex_ownership:
  assumes "mutex_reach strict k"
  shows "(\<forall>t. \<exists>ms. chain (\<lambda>m. m_next (mtxs k m)) (p_mtxlist (threads k t)) ms \<and> distinct ms \<and> set ms = {m. m_owner (mtxs k m) = Some t}) \<and>
    (\<forall>m t. t \<in> set (m_queue (mtxs k m)) \<longleftrightarrow> p_state (threads k t) = CH_STATE_WTMTX m) \<and>
    (\<forall>m. m_queue (mtxs k m) \<noteq> [] \<longrightarrow> m_owner (mtxs k m) \<noteq> None) \<and>
    (\<forall>m. distinct (m_queue (mtxs k m)) \<and> sorted_wrt (\<lambda>a b. p_prio (threads k a) \<ge> p_prio (threads k b)) (m_queue (mtxs k m))) \<and>
    (\<forall>c t. t \<in> set (conds k c) \<longleftrightarrow> p_state (threads k t) = CH_STATE_WTCOND c) \<and>
    (\<forall>c. distinct (conds k c) \<and> sorted_wrt (\<lambda>a b. p_prio (threads k a) \<ge> p_prio (threads k b)) (conds k c))"
proof (intro conjI allI)
  note M = minvD [OF conjunct1 [OF mutex_reach_inv [OF assms]]] and Q = queues_okD [OF M(3), unfolded prio_sorted_def prio_of_def]
  fix t m c
  obtain ms where ms: "owns k t ms" using own_okD(1) [OF M(2)] by blast
  then have "set ms = {m. m_owner (mtxs k m) = Some t}" using ownsD(1) [OF ms] by (auto simp: owner_def)
  then show "\<exists>ms. chain (\<lambda>m. m_next (mtxs k m)) (p_mtxlist (threads k t)) ms \<and> distinct ms \<and> set ms = {m. m_owner (mtxs k m) = Some t}"
    using ownsD(2,3) [OF ms] by (auto simp: next_mtx_def [abs_def] mtxlist_def)
  show "t \<in> set (m_queue (mtxs k m)) \<longleftrightarrow> p_state (threads k t) = CH_STATE_WTMTX m" "t \<in> set (conds k c) \<longleftrightarrow> p_state (threads k t) = CH_STATE_WTCOND c"
    using link_queued [OF M(5), of t "CH_STATE_WTMTX m"] link_queued [OF M(5), of t "CH_STATE_WTCOND c"] by (simp_all add: state_of_def)
  show "distinct (m_queue (mtxs k m))" "distinct (conds k c)" using link_okD(7,8) [OF M(5)] by simp_all
  show "sorted_wrt (\<lambda>a b. p_prio (threads k a) \<ge> p_prio (threads k b)) (m_queue (mtxs k m))" using Q(1) [of m] by (simp add: mtxq_def)
  show "sorted_wrt (\<lambda>a b. p_prio (threads k a) \<ge> p_prio (threads k b)) (conds k c)" by (rule Q(2))
  show "m_queue (mtxs k m) \<noteq> [] \<longrightarrow> m_owner (mtxs k m) \<noteq> None" using own_okD(2) [OF M(2), of m] by (auto simp: mtxq_def owner_def)
qed

lemma finite_waiting:
  assumes "mutex_reach strict k"
  shows "finite {p_prio (threads k u) |u m. m_owner (mtxs k m) = Some t \<and> u \<in> set (m_queue (mtxs k m))}"
proof -
  have "finite (\<Union>m. set (mtxq k m))" using own_okD(3) minvD(2) mutex_reach_inv [OF assms] by blast
  then show ?thesis by (rule finite_surj [where f = "\<lambda>u. p_prio (threads k u)"]) (auto simp: mtxq_def)
qed

text \<open>
  C31: priority inheritance.  While no thread lowers its own priority as the owner of a mutex, the
  priority of every thread is exactly the highest of its own priority and the priorities of the
  threads that wait for its mutexes.  So a thread is never blocked by an owner of lower priority, and
  nothing is left of a priority that was inherited.
\<close>

theorem no_priority_inversion:
  assumes "mutex_reach True k"
  shows "p_prio (threads k t) = Max (insert (p_realprio (threads k t))
    {p_prio (threads k u) |u m. m_owner (mtxs k m) = Some t \<and> u \<in> set (m_queue (mtxs k m))})"
proof -
  have I: "minv k" "inherit_ok k" using mutex_reach_inv [OF assms] by simp_all
  have d: "demands k t = {p_prio (threads k u) |u m. m_owner (mtxs k m) = Some t \<and> u \<in> set (m_queue (mtxs k m))}"
    by (auto simp: demands_def blocked_by_def prio_of_def owner_def mtxq_def)
  have i: "inh k {} t" using I(2) by (simp add: inherit_ok_def)
  have "finite (demands k t)" unfolding d by (rule finite_waiting [OF assms])
  then have "prio_of k t = Max (insert (realprio k t) (demands k t))" using i by (intro Max_eqI [symmetric]) (auto simp: inh_def)
  then show ?thesis unfolding d by (simp add: prio_of_def realprio_def)
qed

text \<open>
  C33: every call returns.  In a reachable state no call on a mutex or a condition variable gets stuck:
  the loop that hands priorities on ends even when the threads and the mutexes they wait for form a
  cycle, the scans of owned mutexes end, and a call that blocks finds a thread to run.
\<close>

theorem mutex_calls_return:
  assumes "mutex_reach strict k" "\<not> chVTIsArmedI (currp k) (vtlist k)" "currp k \<noteq> 1" "mcall_pre c k"
  shows "\<exists>k'. mcall_exec c k = Some k'"
  using mcall_ok [OF _ _ assms(2-4)] mutex_reach_inv [OF assms(1)] by blast

text \<open>
  Unlocking.  When the running thread unlocks the mutex it locked last and threads wait for it, the
  one with the highest priority that has waited longest becomes the owner and can run; the others
  keep waiting in order.
\<close>

lemma unlock_hands_over:
  assumes "mutex_reach strict k" "p_mtxlist (threads k (currp k)) = Some m" "m_queue (mtxs k m) = t # q"
  shows "\<exists>k'. chMtxUnlock m k = Some k' \<and> m_owner (mtxs k' m) = Some t \<and> p_mtxlist (threads k' t) = Some m \<and> m_queue (mtxs k' m) = q \<and>
    runnable (p_state (threads k' t)) \<and> (\<forall>u \<in> set q. p_prio (threads k u) \<le> p_prio (threads k t))"
proof -
  have M: "minv k" using mutex_reach_inv [OF assms(1)] by simp
  obtain k1 t' q' where k1: "mtxq k m = t' # q'" "chMtxUnlockS m k = Some k1" "owner k1 = (owner k)(m := Some t')" "mtxq k1 = (mtxq k)(m := q')"
    "mtxlist k1 t' = Some m" "state_of k1 t' = CH_STATE_READY" using unlock_waiting_ok [OF M, of m] assms(2,3) by (auto simp: mtxlist_def mtxq_def)
  obtain k' where k': "chSchRescheduleS k1 = Some k'" using reschedule_returns by blast
  have c: "mtxs k' = mtxs k1" "mtxlist k' = mtxlist k1" using mtx_frame.fr_reschedule [OF k'] by (simp_all add: calm_def)
  have "runnable (state_of k' t')" using keeps_reschedule [OF k'] k1(6) by (metis keeps_def runnable_simps(1))
  moreover have "t' = t" "q' = q" using k1(1) assms(3) by (simp_all add: mtxq_def)
  moreover have "chMtxUnlock m k = Some k'"
    using k1(2) k' assms(3) by (simp add: chMtxUnlock_def chMtxUnlockS_def Let_def chMtxQueueNotEmptyS_def)
  moreover have "\<forall>u \<in> set q. prio_of k u \<le> prio_of k t" using queues_okD(1) [OF minvD(3) [OF M], of m] assms(3) by (simp add: prio_sorted_def mtxq_def)
  ultimately show ?thesis using k1(3-5) c by (auto simp: owner_def mtxq_def mtxlist_def state_of_def prio_of_def fun_eq_iff)
qed

subsection \<open>Condition variables\<close>

lemma broadcast_wakes_all:
  assumes "minv k"
  shows "(\<forall>t. t \<in> set (conds k c) \<longrightarrow> state_of (chCondBroadcastI c k) t = CH_STATE_READY \<and> rdymsg (threads (chCondBroadcastI c k) t) = MSG_RESET) \<and>
    (\<forall>t. t \<notin> set (conds k c) \<longrightarrow> threads (chCondBroadcastI c k) t = threads k t)"
proof -
  have "distinct (conds k c)" using link_okD(8) [OF minvD(5) [OF assms]] .
  then show ?thesis
  proof (induction "conds k c" arbitrary: k)
    case Nil
    then have "chCondBroadcastI c k = k" by (subst chCondBroadcastI.simps) (simp add: queue_fifo_remove_def)
    then show ?case using Nil by simp
  next
    case (Cons t q)
    let ?k = "set_msg t MSG_RESET (chSchReadyI t (upd_cond c (\<lambda>_. q) k))"
    have e: "chCondBroadcastI c k = chCondBroadcastI c ?k" using Cons.hyps(2) [symmetric] by (subst chCondBroadcastI.simps) (simp add: queue_fifo_remove_def)
    have q: "q = conds ?k c" "t \<notin> set q" "distinct q" using Cons.hyps(2) [symmetric] Cons.prems by simp_all
    note ih = Cons.hyps(1) [OF q(1)]
    have s: "state_of (chCondBroadcastI c ?k) t = CH_STATE_READY \<and> rdymsg (threads (chCondBroadcastI c ?k) t) = MSG_RESET"
      using ih q by (simp add: state_of_def ready_threads)
    show ?case
    proof (intro conjI allI impI)
      fix u
      show "state_of (chCondBroadcastI c k) u = CH_STATE_READY" "rdymsg (threads (chCondBroadcastI c k) u) = MSG_RESET" if "u \<in> set (conds k c)"
        using that s ih q Cons.hyps(2) [symmetric] unfolding e by (cases "u = t"; simp)+
      show "threads (chCondBroadcastI c k) u = threads k u" if "u \<notin> set (conds k c)"
        using that ih q Cons.hyps(2) [symmetric] unfolding e by (simp add: ready_threads)
    qed
  qed
qed

lemma unlock_owner:
  assumes "minv k" "mtxlist k (currp k) = Some m" "chMtxUnlockS m k = Some k'"
  shows "owner k' m \<noteq> Some (currp k)"
proof (cases "mtxq k m")
  case Nil
  then show ?thesis using unlock_free_ok [OF assms(1,2)] assms(3) by auto
next
  case (Cons t q)
  note M = minvD [OF assms(1)]
  have "state_of k t = CH_STATE_WTMTX m" using link_queued [OF M(5), of t "CH_STATE_WTMTX m"] Cons by (simp add: mtxq_def)
  then have "t \<noteq> currp k" using cur_self [OF M(6)] by auto
  then show ?thesis using unlock_waiting_ok [OF assms(1,2)] assms(3) Cons by auto
qed

lemma cond_wait_waits:
  assumes "minv k" "highest k" "currp k \<noteq> 1" "mtxlist k (currp k) = Some m"
  shows "\<exists>k'. chCondWait c k = Some k' \<and> owner k' m \<noteq> Some (currp k) \<and> state_of k' (currp k) = CH_STATE_WTCOND c"
proof -
  obtain k1 where k1: "chMtxUnlockS m k = Some k1" "minv k1" "currp k1 = currp k" using unlock_ok(1) [OF assms(1,2,4)] by blast
  note N = minvD [OF k1(2)]
  let ?k = "upd_cond c (prio_insert (prio_of k1) (currp k1)) k1"
  have "r_queue ?k \<noteq> []" using others_ready [OF N(1)] k1(3) assms(3) by auto
  then obtain k' where k': "chSchGoSleepS (CH_STATE_WTCOND c) ?k = Some k'" using go_sleep_returns by blast
  have "calm ?k k'" by (rule mtx_frame.fr_sleep [OF _ k']) (simp add: calm_def)
  then have "owner k' m = owner k1 m" using mtx_fields [of k' k1] by (simp add: calm_def)
  moreover have "state_of k' (currp ?k) = CH_STATE_WTCOND c"
    by (rule go_sleep(7) [OF _ _ _ _ k']) (use cond_join(1) [OF N(5,6,3), of c] not_other_current [OF N(6)] in simp_all)
  moreover have "chCondWait c k = Some k'"
    using assms(4) k1(1,3) k' by (simp add: chCondWait_def chCondWaitS_def chMtxGetNextMutexS_def mtxlist_def)
  ultimately show ?thesis using unlock_owner [OF assms(1,4) k1(1)] k1(3) by auto
qed

text \<open>
  C34: waiting on a condition variable.  A thread that waits gives up its mutex and joins the queue of the
  variable in one step; a broadcast then makes exactly the threads in the queue ready, it among them,
  and their waits return \<open>MSG_RESET\<close>: no wake-up between the release and the wait is lost.
\<close>

theorem cond_wait_hears_broadcast:
  assumes "mutex_reach strict k" "\<not> chVTIsArmedI (currp k) (vtlist k)" "currp k \<noteq> 1" "p_mtxlist (threads k (currp k)) = Some m"
  shows "\<exists>k'. chCondWait c k = Some k' \<and> m_owner (mtxs k' m) \<noteq> Some (currp k) \<and> p_state (threads k' (currp k)) = CH_STATE_WTCOND c \<and>
    (\<forall>t. if p_state (threads k' t) = CH_STATE_WTCOND c
      then p_state (threads (chCondBroadcastI c k') t) = CH_STATE_READY \<and> rdymsg (threads (chCondBroadcastI c k') t) = MSG_RESET
      else threads (chCondBroadcastI c k') t = threads k' t)"
proof -
  have I: "minv k" "highest k" using mutex_reach_inv [OF assms(1)] by simp_all
  obtain k' where k': "chCondWait c k = Some k'" "owner k' m \<noteq> Some (currp k)" "state_of k' (currp k) = CH_STATE_WTCOND c"
    using cond_wait_waits [OF I assms(3)] assms(4) by (auto simp: mtxlist_def)
  have M: "minv k'" using cond_wait_ok(1) [OF I assms(2,3), of c] k'(1) assms(4) by (auto simp: chCondWait_def mtxlist_def)
  have "t \<in> set (conds k' c) \<longleftrightarrow> p_state (threads k' t) = CH_STATE_WTCOND c" for t
    using link_queued [OF minvD(5) [OF M], of t "CH_STATE_WTCOND c"] by (simp add: state_of_def)
  then show ?thesis using k' broadcast_wakes_all [OF M, of c] by (auto simp: owner_def state_of_def)
qed

subsection \<open>Where inheritance and deadlock freedom end\<close>

text \<open>
  C35: a thread that lowers its own priority drops what it inherited.  If the owner of a mutex runs at its
  own priority, and a thread waits for the mutex with a priority that is not above it, then lowering
  the priority leaves the owner below the thread it blocks.
\<close>

theorem set_priority_drops_inheritance:
  fixes k :: kernel
  assumes "m_owner (mtxs k m) = Some (currp k)" "u \<in> set (m_queue (mtxs k m))" "u \<noteq> currp k"
    "p_prio (threads k (currp k)) = p_realprio (threads k (currp k))" "p < p_prio (threads k u)"
  shows "\<exists>k'. chThdSetPriority p k = Some k' \<and> m_owner (mtxs k' m) = Some (currp k) \<and> u \<in> set (m_queue (mtxs k' m)) \<and>
    p_prio (threads k' (currp k)) < p_prio (threads k' u)"
proof -
  define k1 where "k1 = upd_thread (currp k)
    (\<lambda>th. (if p_prio th = p_realprio th \<or> p > p_prio th then th\<lparr>p_prio := p\<rparr> else th)\<lparr>p_realprio := p\<rparr>) k"
  have e: "mtxs k1 = mtxs k" "prio_of k1 (currp k) = p" "prio_of k1 u = prio_of k u" using assms(3,4) by (simp_all add: k1_def prio_of_def)
  obtain k' where k': "chSchRescheduleS k1 = Some k'" using reschedule_returns by blast
  have "mtxs k' = mtxs k1" "prio_of k' = prio_of k1" using mtx_frame.fr_reschedule [OF k'] by (simp_all add: calm_def)
  moreover have "chThdSetPriority p k = Some k'" using k' by (simp add: chThdSetPriority_def k1_def)
  moreover have "prio_of k' (currp k) < prio_of k' u" unfolding calculation(2) e(2,3) using assms(5) by (simp add: prio_of_def)
  ultimately show ?thesis using assms(1,2) e(1) unfolding prio_of_def by simp
qed

subsection \<open>Sample states\<close>

lemma reach_lock:
  assumes "mutex_reach s k" "\<not> chVTIsArmedI (currp k) (vtlist k)" "currp k \<noteq> 1" "chMtxLock m k \<noteq> None"
  shows "mutex_reach s (the (chMtxLock m k))"
  by (rule mutex_reach.Step [OF assms(1) mutex_step.Mutex [OF assms(2,3), where c = "MtxLock m"]]) (use assms(4) in auto)

lemma reach_call:
  assumes "mutex_reach s k" "\<not> chVTIsArmedI (currp k) (vtlist k)" "currp k \<noteq> 1" "kcall_pre c k" "create_pre c k" "boost_kept c k" "kcall_exec c k \<noteq> None"
  shows "mutex_reach s (the (kcall_exec c k))"
  by (rule mutex_reach.Step [OF assms(1) mutex_step.Call [OF assms(2-5)]]) (use assms(6,7) in auto)

text \<open>
  The main thread takes mutex 0 and starts a thread of priority 100, which preempts it.  In \<open>inh_k3\<close> that
  thread waits for mutex 0.  In \<open>dead_k5\<close> it took mutex 1 before, and the main thread waits for that.
\<close>

definition inh_k1 :: kernel where "inh_k1 = the (chMtxLock 0 sample_k1)"
definition inh_k2 :: kernel where "inh_k2 = the (kcall_exec (CreateStatic 4 100) inh_k1)"
definition inh_k3 :: kernel where "inh_k3 = the (chMtxLock 0 inh_k2)"
definition dead_k3 :: kernel where "dead_k3 = the (chMtxLock 1 inh_k2)"
definition dead_k4 :: kernel where "dead_k4 = the (chMtxLock 0 dead_k3)"
definition dead_k5 :: kernel where "dead_k5 = the (chMtxLock 1 dead_k4)"

lemma sample_k1_calls: "sample_k1 = the (kcall_exec (CreateStatic 3 NORMALPRIO) (the (kcall_exec (CreateStatic 2 NORMALPRIO) chSysInit)))"
  by (simp add: sample_k1_def)

lemma sample_k1_reach: "mutex_reach s sample_k1"
proof -
  have "mutex_reach s (the (kcall_exec (CreateStatic 2 NORMALPRIO) chSysInit))"
    by (rule reach_call [OF mutex_reach.Init]) (simp_all add: sample_defs chVTIsArmedI_def state_of_def waiters_def msgq_def mtxlist_def)
  then show ?thesis unfolding sample_k1_calls
    by (rule reach_call) (simp_all add: sample_defs chVTIsArmedI_def state_of_def waiters_def msgq_def mtxlist_def)
qed

lemma inh_reach: "mutex_reach s inh_k1" "mutex_reach s inh_k2" "mutex_reach s inh_k3"
proof -
  show 1: "mutex_reach s inh_k1" unfolding inh_k1_def by (rule reach_lock [OF sample_k1_reach]) code_simp+
  show 2: "mutex_reach s inh_k2" unfolding inh_k2_def by (rule reach_call [OF 1]) code_simp+
  show "mutex_reach s inh_k3" unfolding inh_k3_def by (rule reach_lock [OF 2]) code_simp+
qed

lemma dead_reach: "mutex_reach s dead_k3" "mutex_reach s dead_k4" "mutex_reach s dead_k5"
proof -
  show 3: "mutex_reach s dead_k3" unfolding dead_k3_def by (rule reach_lock [OF inh_reach(2)]) code_simp+
  show 4: "mutex_reach s dead_k4" unfolding dead_k4_def by (rule reach_lock [OF 3]) code_simp+
  show "mutex_reach s dead_k5" unfolding dead_k5_def by (rule reach_lock [OF 4]) code_simp+
qed


text \<open>
  The main thread owns mutex 0 and yields; thread 2, of the same priority, waits for it; thread 3
  goes to sleep and the main thread runs again.
\<close>

definition low_k2 :: kernel where "low_k2 = the (kcall_exec Yield inh_k1)"
definition low_k3 :: kernel where "low_k3 = the (chMtxLock 0 low_k2)"
definition low_k4 :: kernel where "low_k4 = the (kcall_exec (Sleep 100 10) low_k3)"

lemma low_reach: "mutex_reach s low_k4"
proof -
  have "mutex_reach s low_k2" unfolding low_k2_def by (rule reach_call [OF inh_reach(1)]) code_simp+
  then have "mutex_reach s low_k3" unfolding low_k3_def by (rule reach_lock) code_simp+
  then show ?thesis unfolding low_k4_def by (rule reach_call) code_simp+
qed

theorem mutex_ownership_witness:
  "(\<exists>ms. distinct ms \<and> set ms = {m. m_owner (mtxs dead_k5 m) = Some 0}) \<and> m_queue (mtxs dead_k5 1) \<noteq> [] \<and> m_owner (mtxs dead_k5 1) \<noteq> None"
proof -
  have "m_queue (mtxs dead_k5 1) \<noteq> []" by code_simp
  then show ?thesis using mutex_ownership [OF dead_reach(3)] by blast
qed

theorem no_priority_inversion_witness:
  "m_owner (mtxs inh_k3 0) = Some 0 \<and> m_queue (mtxs inh_k3 0) = [4] \<and> p_realprio (threads inh_k3 0) < p_prio (threads inh_k3 4) \<and>
   p_prio (threads inh_k3 4) \<le> p_prio (threads inh_k3 0)"
proof -
  have e: "m_owner (mtxs inh_k3 0) = Some 0" "m_queue (mtxs inh_k3 0) = [4]" "p_realprio (threads inh_k3 0) < p_prio (threads inh_k3 4)" by code_simp+
  let ?S = "{p_prio (threads inh_k3 u) |u m. m_owner (mtxs inh_k3 m) = Some 0 \<and> u \<in> set (m_queue (mtxs inh_k3 m))}"
  have "p_prio (threads inh_k3 4) \<in> ?S" using e(1,2) by (metis (mono_tags, lifting) list.set_intros(1) mem_Collect_eq)
  then have "p_prio (threads inh_k3 4) \<le> Max (insert (p_realprio (threads inh_k3 0)) ?S)" using finite_waiting [OF inh_reach(3) [of True], of 0] by (intro Max_ge) auto
  then show ?thesis using e no_priority_inversion [OF inh_reach(3), of 0] by simp
qed

theorem mutex_calls_return_witness: "\<exists>k'. mcall_exec (MtxLock 1) dead_k4 = Some k'"
  by (rule mutex_calls_return [OF dead_reach(2)]) code_simp+

theorem cond_wait_hears_broadcast_witness: "\<exists>k'. chCondWait 7 inh_k1 = Some k' \<and> rdymsg (threads (chCondBroadcastI 7 k') 0) = MSG_RESET"
proof -
  have e: "currp inh_k1 = 0" "\<not> chVTIsArmedI 0 (vtlist inh_k1)" "p_mtxlist (threads inh_k1 0) = Some 0" by code_simp+
  then have "\<exists>k'. chCondWait 7 inh_k1 = Some k' \<and> m_owner (mtxs k' 0) \<noteq> Some (currp inh_k1) \<and> p_state (threads k' (currp inh_k1)) = CH_STATE_WTCOND 7 \<and>
    (\<forall>t. if p_state (threads k' t) = CH_STATE_WTCOND 7
      then p_state (threads (chCondBroadcastI 7 k') t) = CH_STATE_READY \<and> rdymsg (threads (chCondBroadcastI 7 k') t) = MSG_RESET
      else threads (chCondBroadcastI 7 k') t = threads k' t)" by (intro cond_wait_hears_broadcast [OF inh_reach(1)]) simp_all
  then show ?thesis using e(1) by (auto split: if_splits)
qed

theorem set_priority_drops_inheritance_witness:
  "mutex_reach False low_k4 \<and> (\<exists>k'. chThdSetPriority 10 low_k4 = Some k' \<and> m_owner (mtxs k' 0) = Some 0 \<and> 2 \<in> set (m_queue (mtxs k' 0)) \<and>
     p_prio (threads k' 0) < p_prio (threads k' 2))"
proof -
  have e: "currp low_k4 = 0" "m_owner (mtxs low_k4 0) = Some 0" "m_queue (mtxs low_k4 0) = [2]" "p_prio (threads low_k4 0) = p_realprio (threads low_k4 0)"
    "(10 :: nat) < p_prio (threads low_k4 2)" by code_simp+
  then show ?thesis using set_priority_drops_inheritance [of low_k4 0 2 10] low_reach by simp
qed

end
