(* ===== verification/Messages.thy ===== *)
theory Messages
  imports Frame
begin

text \<open>
  Synchronous messages, \<^verbatim>\<open>os/rt/src/chmsg.c\<close>: the sender is queued on the receiving thread and blocked
  until that thread, having taken the message, releases it with an answer.  The answer is the
  message the sender is woken with.  The rest of a wait that blocked is \<open>msg_wait_rest\<close>.
\<close>

section \<open>Calls\<close>

definition chMsgSend :: "nat \<Rightarrow> msg_t \<Rightarrow> kernel \<Rightarrow> kernel option" where
  "chMsgSend tp msg k =
     (let ctp = currp k;
          k = upd_thread ctp (\<lambda>th. th\<lparr>p_msg := msg\<rparr>) k;
          k = upd_thread tp (\<lambda>th. th\<lparr>p_msgqueue := queue_insert ctp (p_msgqueue th)\<rparr>) k;
          k = (if p_state (threads k tp) = CH_STATE_WTMSG then chSchReadyI tp k else k)
      in chSchGoSleepS (CH_STATE_SNDMSGQ tp) k)"

definition chMsgIsPendingI :: "nat \<Rightarrow> kernel \<Rightarrow> bool" where "chMsgIsPendingI t k \<longleftrightarrow> p_msgqueue (threads k t) \<noteq> []"

definition msg_wait_rest :: "kernel \<Rightarrow> (nat \<times> kernel) option" where
  "msg_wait_rest k =
     do {
       (tp, q) \<leftarrow> queue_fifo_remove (p_msgqueue (threads k (currp k)));
       Some (tp, set_state tp CH_STATE_SNDMSG (upd_thread (currp k) (\<lambda>th. th\<lparr>p_msgqueue := q\<rparr>) k))
     }"

definition chMsgWait :: "kernel \<Rightarrow> (nat option \<times> kernel) option" where
  "chMsgWait k =
     (if \<not> chMsgIsPendingI (currp k) k then do { k \<leftarrow> chSchGoSleepS CH_STATE_WTMSG k; Some (None, k) }
      else do { (tp, k) \<leftarrow> msg_wait_rest k; Some (Some tp, k) })"

definition chMsgGet :: "nat \<Rightarrow> kernel \<Rightarrow> msg_t" where "chMsgGet tp k = p_msg (threads k tp)"
definition chMsgReleaseS :: "nat \<Rightarrow> msg_t \<Rightarrow> kernel \<Rightarrow> kernel" where "chMsgReleaseS tp msg k = chSchWakeupS tp msg k"
definition chMsgRelease :: "nat \<Rightarrow> msg_t \<Rightarrow> kernel \<Rightarrow> kernel" where "chMsgRelease = chMsgReleaseS"

section \<open>Calls of the base kernel\<close>

text \<open>Queues and messages are untouched, and no thread starts to wait for a message.\<close>

definition still :: "kernel \<Rightarrow> kernel \<Rightarrow> bool" where
  "still k k' \<longleftrightarrow> msgq k' = msgq k \<and> (\<forall>t. p_msg (threads k' t) = p_msg (threads k t)) \<and>
     (\<forall>t. state_of k' t = CH_STATE_WTMSG \<longrightarrow> state_of k t = CH_STATE_WTMSG)"

interpretation msg_frame: kernel_frame still
proof unfold_locales
  fix k k1 k2 :: kernel and t f
  show "still k k" by (simp add: still_def)
  show "still k k2" if "still k k1" "still k1 k2" using that by (simp add: still_def)
  show "still k (set_state t st k)" if "plain st" for st using that by (auto simp: still_def)
  show "still k (upd_thread t (\<lambda>th. th\<lparr>p_waiting := f th\<rparr>) k)" by (simp add: still_def)
  show "still k (chThdTerminate t k)" by (auto simp: still_def chThdTerminate_def msgq_def state_of_def fun_eq_iff)
qed (simp_all add: still_def)

text \<open>A thread waits for a message only while none is queued for it.\<close>

definition msg_ok :: "kernel \<Rightarrow> bool" where "msg_ok k \<longleftrightarrow> (\<forall>t. state_of k t = CH_STATE_WTMSG \<longrightarrow> msgq k t = [])"

lemma msg_ok_still: "msg_ok k \<Longrightarrow> still k k' \<Longrightarrow> msg_ok k'"
  by (simp add: msg_ok_def still_def)

lemma kcall_msg:
  assumes "msg_ok k" "kcall_pre c k" "kcall_exec c k = Some k'"
  shows "msg_ok k'"
proof (cases c)
  case (SetPriority p)
  let ?f = "\<lambda>th :: thread. (if p_prio th = p_realprio th \<or> p > p_prio th then th\<lparr>p_prio := p\<rparr> else th)\<lparr>p_realprio := p\<rparr>"
  have "still k (upd_thread (currp k) ?f k)" by (auto simp: still_def msgq_def state_of_def fun_eq_iff)
  then show ?thesis using SetPriority assms msg_frame.fr_reschedule msg_frame.fr_trans msg_ok_still by (auto simp: chThdSetPriority_def)
next
  case (CreateStatic t p)
  have "msg_ok (chThdCreateI t p k)" using assms(1) by (auto simp: msg_ok_def chThdCreateI_def thread_init_def msgq_def state_of_def)
  then show ?thesis using CreateStatic assms(3) msg_ok_still [OF _ msg_frame.fr_wakeupS] by (auto simp: chThdCreateStatic_def)
qed (use msg_frame.fr_kcall [OF assms(3)] msg_ok_still [OF assms(1)] in simp_all)

section \<open>The kernel with messages\<close>

datatype gcall = MsgSend nat msg_t | MsgWait | MsgRest | MsgRelease nat msg_t

fun gcall_exec :: "gcall \<Rightarrow> kernel \<Rightarrow> kernel option" where
  "gcall_exec (MsgSend t m) k = chMsgSend t m k"
| "gcall_exec MsgWait k = map_option snd (chMsgWait k)"
| "gcall_exec MsgRest k = map_option snd (msg_wait_rest k)"
| "gcall_exec (MsgRelease t m) k = Some (chMsgRelease t m k)"

fun gcall_pre :: "gcall \<Rightarrow> kernel \<Rightarrow> bool" where
  "gcall_pre (MsgRelease t m) k \<longleftrightarrow> state_of k t = CH_STATE_SNDMSG"
| "gcall_pre _ k \<longleftrightarrow> True"

inductive message_step :: "kernel \<Rightarrow> kernel \<Rightarrow> bool" where
  Kernel: "message_step k k'" if "kernel_step k k'"
| Call: "message_step k k'" if "\<not> chVTIsArmedI (currp k) (vtlist k)" "currp k \<noteq> 1" "gcall_pre c k" "gcall_exec c k = Some k'"

inductive message_reach :: "kernel \<Rightarrow> bool" where
  Init: "message_reach chSysInit"
| Step: "message_reach k \<Longrightarrow> message_step k k' \<Longrightarrow> message_reach k'"

text \<open>The sender joins the receiver's queue, and wakes it if it waits.\<close>

definition sent :: "nat \<Rightarrow> msg_t \<Rightarrow> kernel \<Rightarrow> kernel" where
  "sent tp m k = upd_thread tp (\<lambda>th. th\<lparr>p_msgqueue := queue_insert (currp k) (p_msgqueue th)\<rparr>) (upd_thread (currp k) (\<lambda>th. th\<lparr>p_msg := m\<rparr>) k)"

lemma sent_simps [simp]:
  "r_queue (sent t m k) = r_queue k" "currp (sent t m k) = currp k" "vtlist (sent t m k) = vtlist k" "trefs (sent t m k) = trefs k"
  "tqueues (sent t m k) = tqueues k" "sems (sent t m k) = sems k" "mtxs (sent t m k) = mtxs k" "conds (sent t m k) = conds k"
  "state_of (sent t m k) = state_of k" "waiters (sent t m k) = waiters k" "prio_of (sent t m k) = prio_of k"
  "msgq (sent t m k) = (msgq k)(t := msgq k t @ [currp k])"
  by (auto simp: sent_def state_of_def waiters_def prio_of_def msgq_def queue_insert_def fun_eq_iff)

definition told :: "nat \<Rightarrow> msg_t \<Rightarrow> kernel \<Rightarrow> kernel" where
  "told t m k = (if state_of k t = CH_STATE_WTMSG then chSchReadyI t (sent t m k) else sent t m k)"

lemma send_told: "chMsgSend t m k = chSchGoSleepS (CH_STATE_SNDMSGQ t) (told t m k)"
proof -
  have "p_state (threads (sent t m k) t) = state_of k t" by (simp add: sent_def state_of_def)
  then show ?thesis by (simp add: chMsgSend_def told_def Let_def sent_def state_of_def)
qed

lemma told_simps [simp]:
  "currp (told t m k) = currp k" "vtlist (told t m k) = vtlist k" "sems (told t m k) = sems k"
  "state_of (told t m k) = (state_of k)(t := if state_of k t = CH_STATE_WTMSG then CH_STATE_READY else state_of k t)"
  "msgq (told t m k) = (msgq k)(t := msgq k t @ [currp k])" "set (r_queue k) \<subseteq> set (r_queue (told t m k))"
  by (auto simp: told_def fun_eq_iff)

lemma told_link:
  assumes "k_ok k"
  shows "cur_ok (told t m k)" "link_ok {} (set_state (currp k) (CH_STATE_SNDMSGQ t) (told t m k))"
proof -
  note c = current_unlinked [OF assms]
  have cs: "state_of k (currp k) = CH_STATE_CURRENT" by (rule cur_self [OF c(2)])
  have n: "currp k \<notin> set (msgq k t)" using link_queued [OF c(1), of "currp k" "CH_STATE_SNDMSGQ t"] cs by simp
  have "state_of (told t m k) u = CH_STATE_CURRENT \<longleftrightarrow> state_of k u = CH_STATE_CURRENT" for u by simp
  then show cur: "cur_ok (told t m k)" using c(2) by (simp add: cur_ok_def del: told_simps(4))
  have w: "k_ok (chSchReadyI t k)" if "state_of k t = CH_STATE_WTMSG"
  proof (rule ready_ok [OF link_current [OF c(1)] c(2)])
    show "t \<noteq> currp k" using that cs by auto
  qed (use that in simp)
  define k1 where "k1 = (if state_of k t = CH_STATE_WTMSG then chSchReadyI t k else k)"
  have k1: "k_ok k1" "currp k1 = currp k" "state_of k1 = state_of (told t m k)" "prio_of k1 = prio_of k" "msgq k1 = msgq k"
    using w assms by (auto simp: k1_def fun_eq_iff)
  show "link_ok {} (set_state (currp k) (CH_STATE_SNDMSGQ t) (told t m k))"
  proof (rule enter_ok [OF current_unlinked(1,3) [OF k1(1)], where st = "CH_STATE_SNDMSGQ t", unfolded k1(2)])
    fix u st
    show "queued (set_state (currp k) (CH_STATE_SNDMSGQ t) (told t m k)) u st \<longleftrightarrow>
        queued k1 u st \<or> u = currp k \<and> st = CH_STATE_SNDMSGQ t \<and> is_link (CH_STATE_SNDMSGQ t)"
      by (cases st) (auto simp: told_def k1_def)
    show "r_queue (set_state (currp k) (CH_STATE_SNDMSGQ t) (told t m k)) = r_queue k1" by (simp add: told_def k1_def chSchReadyI_def)
    show "prio_of (set_state (currp k) (CH_STATE_SNDMSGQ t) (told t m k)) = prio_of k1" by (simp add: told_def k1_def)
  qed (use n link_okD [OF c(1)] k1(3) in \<open>simp_all add: told_def k1_def\<close>)
qed

definition ginv :: "kernel \<Rightarrow> bool" where "ginv k \<longleftrightarrow> kinv k \<and> highest k \<and> msg_ok k"

lemma sleep_state: "chSchGoSleepS st k = Some k' \<Longrightarrow> still (set_state (currp k) st k) k'"
  by (rule msg_frame.fr_sleep) (rule msg_frame.fr_refl)

lemma send_ok:
  assumes "ginv k" "\<not> chVTIsArmedI (currp k) (vtlist k)" "currp k \<noteq> 1"
  shows "\<exists>k'. chMsgSend t m k = Some k' \<and> ginv k' \<and> still (set_state (currp k) (CH_STATE_SNDMSGQ t) (told t m k)) k' \<and>
    (\<forall>u. state_of k' u = state_of (set_state (currp k) (CH_STATE_SNDMSGQ t) (told t m k)) u \<or> runnable (state_of k' u))"
proof -
  have K: "kinv k" "highest k" "msg_ok k" using assms(1) by (simp_all add: ginv_def)
  note c = current_unlinked [OF kinvD(1) [OF K(1)]] and T = told_link [OF kinvD(1) [OF K(1)], of t m]
  have "1 \<in> set (r_queue (told t m k))" using others_ready [OF K(1) assms(3)] told_simps(6) by blast
  then have "r_queue (told t m k) \<noteq> []" by auto
  then obtain k' where k': "chSchGoSleepS (CH_STATE_SNDMSGQ t) (told t m k) = Some k'" using go_sleep_returns by blast
  have b: "k_ok k' \<and> highest k' \<and> sems k' = sems k \<and> blocks k k'"
    by (rule call_blocks [of k "told t m k" "CH_STATE_SNDMSGQ t" k'])
      (use kinvD(1) [OF K(1)] T k' in \<open>simp_all add: keeps_def runnable_def\<close>)
  then have "kinv k'" using kinv_blocks [OF K(1) assms(2,3)] sem_ok_sems kinvD(2) [OF K(1)] by blast
  moreover have s: "still (set_state (currp k) (CH_STATE_SNDMSGQ t) (told t m k)) k'" using sleep_state [OF k'] by simp
  moreover have "msg_ok (set_state (currp k) (CH_STATE_SNDMSGQ t) (told t m k))" using K(3) by (auto simp: msg_ok_def)
  ultimately show ?thesis using b msg_ok_still send_told [of t m k] k' keeps_go_sleep [OF k'] by (auto simp: ginv_def keeps_def)
qed

text \<open>Taking the first message: its sender is in no queue any more.\<close>

definition taken :: "nat \<Rightarrow> nat list \<Rightarrow> kernel \<Rightarrow> kernel" where
  "taken t q k = set_state t CH_STATE_SNDMSG (upd_thread (currp k) (\<lambda>th. th\<lparr>p_msgqueue := q\<rparr>) k)"

lemma taken_simps [simp]:
  "r_queue (taken t q k) = r_queue k" "currp (taken t q k) = currp k" "vtlist (taken t q k) = vtlist k" "trefs (taken t q k) = trefs k"
  "tqueues (taken t q k) = tqueues k" "sems (taken t q k) = sems k" "mtxs (taken t q k) = mtxs k" "conds (taken t q k) = conds k"
  "state_of (taken t q k) = (state_of k)(t := CH_STATE_SNDMSG)" "waiters (taken t q k) = waiters k" "prio_of (taken t q k) = prio_of k"
  "msgq (taken t q k) = (msgq k)(currp k := q)" "p_msg (threads (taken t q k) u) = p_msg (threads k u)"
  by (auto simp: taken_def state_of_def waiters_def prio_of_def msgq_def fun_eq_iff)

lemma taken_ok:
  assumes "ginv k" "msgq k (currp k) = t # q"
  shows "ginv (taken t q k)" "state_of k t = CH_STATE_SNDMSGQ (currp k)" "t \<noteq> currp k"
proof -
  have K: "kinv k" "highest k" "msg_ok k" using assms(1) by (simp_all add: ginv_def)
  note c = current_unlinked [OF kinvD(1) [OF K(1)]]
  have d: "distinct (t # q)" using link_okD(6) [OF c(1), of "currp k"] assms(2) by simp
  show st: "state_of k t = CH_STATE_SNDMSGQ (currp k)" using link_queued [OF c(1), of t "CH_STATE_SNDMSGQ (currp k)"] assms(2) by simp
  then show tc: "t \<noteq> currp k" using cur_self [OF c(2)] by auto
  have "link_ok {} (taken t q k)"
  proof (rule link_okI)
    fix u s
    have n: "queued k t s \<longleftrightarrow> s = CH_STATE_SNDMSGQ (currp k)" using link_queued [OF c(1), of t s] st by auto
    have "queued (taken t q k) u s \<longleftrightarrow> queued k u s \<and> u \<noteq> t" using n d assms(2) by (cases s) auto
    then show "queued (taken t q k) u s \<longleftrightarrow> is_link s \<and> state_of (taken t q k) u = s \<and> u \<notin> {}" using link_queued [OF c(1), of u s] by auto
  qed (use link_okD [OF c(1)] d in simp_all)
  then have "k_ok (taken t q k)" using c(2) tc by (auto simp: k_ok_def cur_ok_def)
  moreover have "\<not> chVTIsArmedI t (vtlist k)" using kinvD(3) [OF K(1)] st by (fastforce simp: timers_ok_def armed_keys timed_def)
  then have "timers_ok (set_state t CH_STATE_SNDMSG k)" using set_state_timers [OF kinvD(3) [OF K(1)]] by blast
  then have "timers_ok (taken t q k)" by (simp add: timers_ok_def)
  moreover have "runnable (state_of (taken t q k) 1)" using kinvD(4) [OF K(1)] st by (auto simp: runnable_def)
  ultimately have "kinv (taken t q k)" using kinvD(2) [OF K(1)] sem_ok_sems [of "taken t q k" k] by (simp add: kinv_def)
  moreover have "msg_ok (taken t q k)" using K(3) cur_self [OF c(2)] by (auto simp: msg_ok_def)
  ultimately show "ginv (taken t q k)" using K(2) by (simp add: ginv_def highest_def)
qed

lemma rest_taken: "msgq k (currp k) = t # q \<Longrightarrow> msg_wait_rest k = Some (t, taken t q k)"
  by (simp add: msg_wait_rest_def msgq_def queue_fifo_remove_def taken_def)

lemma wait_ok:
  assumes "ginv k" "\<not> chVTIsArmedI (currp k) (vtlist k)" "currp k \<noteq> 1"
  shows "\<exists>r k'. chMsgWait k = Some (r, k') \<and> ginv k'"
proof (cases "msgq k (currp k)")
  case (Cons t q)
  then show ?thesis using taken_ok(1) [OF assms(1)] rest_taken by (auto simp: chMsgWait_def chMsgIsPendingI_def msgq_def)
next
  case Nil
  have K: "kinv k" "highest k" "msg_ok k" using assms(1) by (simp_all add: ginv_def)
  have "r_queue k \<noteq> []" using others_ready [OF K(1) assms(3)] by auto
  then obtain k' where k': "chSchGoSleepS CH_STATE_WTMSG k = Some k'" using go_sleep_returns by blast
  have b: "k_ok k' \<and> highest k' \<and> sems k' = sems k \<and> blocks k k'"
    by (rule call_blocks [of k k CH_STATE_WTMSG k'])
      (use kinvD(1) [OF K(1)] k' enter_unlinked [OF kinvD(1) [OF K(1)], of CH_STATE_WTMSG] in \<open>simp_all add: keeps_refl runnable_def k_ok_def\<close>)
  then have "kinv k'" using kinv_blocks [OF K(1) assms(2,3)] sem_ok_sems kinvD(2) [OF K(1)] by blast
  moreover have "msg_ok (set_state (currp k) CH_STATE_WTMSG k)" using K(3) Nil by (simp add: msg_ok_def)
  ultimately have "ginv k'" using b msg_ok_still [OF _ sleep_state [OF k']] by (simp add: ginv_def)
  then show ?thesis using k' Nil by (simp add: chMsgWait_def chMsgIsPendingI_def msgq_def)
qed

lemma release_ok:
  assumes "ginv k" "state_of k t = CH_STATE_SNDMSG"
  shows "ginv (chMsgRelease t m k)" "runnable (state_of (chMsgRelease t m k) t)" "rdymsg (threads (chMsgRelease t m k) t) = m"
proof -
  have K: "kinv k" "highest k" "msg_ok k" using assms(1) by (simp_all add: ginv_def)
  note c = current_unlinked [OF kinvD(1) [OF K(1)]]
  have tc: "t \<noteq> currp k" using assms(2) cur_self [OF c(2)] by auto
  have "link_ok {t} k" using link_current [OF c(1), of t] assms(2) by simp
  note w = wakeupS_ok [OF this c(2) tc K(2), of m]
  have "kinv (chMsgRelease t m k)"
    using kinv_keeps [OF K(1) w(1) _ keeps_wakeupS] sem_ok_sems [OF w(3)] kinvD(2) [OF K(1)] by (simp add: chMsgRelease_def chMsgReleaseS_def)
  then show "ginv (chMsgRelease t m k)"
    using w(2) msg_ok_still [OF K(3) msg_frame.fr_wakeupS] by (simp add: ginv_def chMsgRelease_def chMsgReleaseS_def)
  show "runnable (state_of (chMsgRelease t m k) t)" "rdymsg (threads (chMsgRelease t m k) t) = m"
    using wakeupS_runs(1,3) tc by (simp_all add: chMsgRelease_def chMsgReleaseS_def)
qed

lemma message_reach_inv: "message_reach k \<Longrightarrow> ginv k"
proof (induction rule: message_reach.induct)
  case Init
  have "state_of chSysInit t \<noteq> CH_STATE_WTMSG" for t by (simp add: sample_defs state_of_def)
  then show ?case using init_kinv by (simp add: ginv_def msg_ok_def)
next
  case (Step k k')
  from Step.hyps(2) show ?case
  proof cases
    case Kernel
    then have "kinv k' \<and> highest k'" using kernel_step_kinv Step.IH by (simp add: ginv_def)
    moreover have "msg_ok k'"
      using Kernel Step.IH
      by (cases rule: kernel_step.cases) (auto simp: ginv_def intro: kcall_msg msg_ok_still msg_frame.fr_isr msg_frame.fr_resumed)
    ultimately show ?thesis by (simp add: ginv_def)
  next
    case (Call c)
    show ?thesis
    proof (cases c)
      case (MsgSend t m)
      then show ?thesis using send_ok [OF Step.IH Call(1,2), of t m] Call(4) by auto
    next
      case MsgWait
      then show ?thesis using wait_ok [OF Step.IH Call(1,2)] Call(4) by auto
    next
      case MsgRest
      then obtain t q where "msgq k (currp k) = t # q" using Call(4)
        by (auto simp: msg_wait_rest_def msgq_def queue_fifo_remove_def split: list.splits)
      then show ?thesis using MsgRest Call(4) taken_ok(1) [OF Step.IH] rest_taken by auto
    next
      case (MsgRelease t m)
      then show ?thesis using release_ok(1) [OF Step.IH] Call(3,4) by auto
    qed
  qed
qed

section \<open>Properties\<close>

text \<open>
  C37: synchronous messages.  In every reachable state a thread that waits for a message has none queued.
  A send puts the sender at the end of the receiver's queue, with its message, and a receiver that
  waits can run.  A receiver with messages queued gets the thread that has waited longest, with the
  message it sent; releasing that thread lets it run with the answer as its result.
\<close>

theorem messages_in_order:
  assumes "message_reach k" "\<not> chVTIsArmedI (currp k) (vtlist k)" "currp k \<noteq> 1"
  shows "(\<forall>t. p_state (threads k t) = CH_STATE_WTMSG \<longrightarrow> p_msgqueue (threads k t) = []) \<and>
    (\<exists>k'. chMsgSend u m k = Some k' \<and> p_msgqueue (threads k' u) = p_msgqueue (threads k u) @ [currp k] \<and> chMsgGet (currp k) k' = m \<and>
       (p_state (threads k u) = CH_STATE_WTMSG \<longrightarrow> runnable (p_state (threads k' u)))) \<and>
    (case p_msgqueue (threads k (currp k)) of
       [] \<Rightarrow> \<exists>k'. chMsgWait k = Some (None, k')
     | t # q \<Rightarrow> \<exists>k'. chMsgWait k = Some (Some t, k') \<and> p_msgqueue (threads k' (currp k)) = q \<and> chMsgGet t k' = chMsgGet t k \<and>
         runnable (p_state (threads (chMsgRelease t r k') t)) \<and> rdymsg (threads (chMsgRelease t r k') t) = r)"
proof (intro conjI)
  have G: "ginv k" by (rule message_reach_inv [OF assms(1)])
  then show "\<forall>t. p_state (threads k t) = CH_STATE_WTMSG \<longrightarrow> p_msgqueue (threads k t) = []" by (simp add: ginv_def msg_ok_def state_of_def msgq_def)
  have cs: "state_of k (currp k) = CH_STATE_CURRENT" using G cur_self [OF current_unlinked(2) [OF kinvD(1), of k]] by (simp add: ginv_def)
  obtain k' where k': "chMsgSend u m k = Some k'" "still (set_state (currp k) (CH_STATE_SNDMSGQ u) (told u m k)) k'"
    "\<forall>v. state_of k' v = state_of (set_state (currp k) (CH_STATE_SNDMSGQ u) (told u m k)) v \<or> runnable (state_of k' v)"
    using send_ok [OF G assms(2,3)] by blast
  have "p_msg (threads (told u m k) (currp k)) = m" by (simp add: told_def sent_def ready_threads)
  then have "msgq k' u = msgq k u @ [currp k]" "chMsgGet (currp k) k' = m" using k'(2) by (simp_all add: still_def chMsgGet_def)
  moreover have "runnable (state_of k' u)" if "state_of k u = CH_STATE_WTMSG" using spec [OF k'(3), of u] that cs by auto
  ultimately show "\<exists>k'. chMsgSend u m k = Some k' \<and> p_msgqueue (threads k' u) = p_msgqueue (threads k u) @ [currp k] \<and> chMsgGet (currp k) k' = m \<and>
       (p_state (threads k u) = CH_STATE_WTMSG \<longrightarrow> runnable (p_state (threads k' u)))" using k'(1) by (simp add: msgq_def state_of_def)
  show "case p_msgqueue (threads k (currp k)) of
       [] \<Rightarrow> \<exists>k'. chMsgWait k = Some (None, k')
     | t # q \<Rightarrow> \<exists>k'. chMsgWait k = Some (Some t, k') \<and> p_msgqueue (threads k' (currp k)) = q \<and> chMsgGet t k' = chMsgGet t k \<and>
         runnable (p_state (threads (chMsgRelease t r k') t)) \<and> rdymsg (threads (chMsgRelease t r k') t) = r"
  proof (cases "msgq k (currp k)")
    case Nil
    then obtain r' k' where "chMsgWait k = Some (r', k')" "r' = None"
      using wait_ok [OF G assms(2,3)] by (auto simp: chMsgWait_def chMsgIsPendingI_def msgq_def bind_eq_Some_conv)
    then show ?thesis using Nil by (simp add: msgq_def)
  next
    case (Cons t q)
    note t = taken_ok [OF G Cons]
    have "chMsgWait k = Some (Some t, taken t q k)" using rest_taken [OF Cons] Cons by (simp add: chMsgWait_def chMsgIsPendingI_def msgq_def)
    moreover have "p_msgqueue (threads (taken t q k) (currp k)) = q" by (simp add: taken_def)
    ultimately show ?thesis using Cons release_ok(2,3) [OF t(1), of t r] by (simp add: msgq_def state_of_def chMsgGet_def)
  qed
qed

text \<open>The main thread of the sample sends 7 to thread 2, which runs next and takes the message.\<close>

definition msg_k :: kernel where "msg_k = the (chMsgSend 2 7 sample_k1)"

lemma kernel_message_reach: "kernel_reach k \<Longrightarrow> message_reach k"
  by (induction rule: kernel_reach.induct) (auto intro: message_reach.intros message_step.Kernel)

lemma msg_reach: "message_reach msg_k"
proof -
  have s: "\<not> chVTIsArmedI (currp sample_k1) (vtlist sample_k1)" "currp sample_k1 \<noteq> 1" "chMsgSend 2 7 sample_k1 \<noteq> None" by code_simp+
  show ?thesis
    by (rule message_reach.Step [OF kernel_message_reach [OF sample_reach(1)] message_step.Call [OF s(1,2), where c = "MsgSend 2 7"]])
      (use s(3) in \<open>auto simp: msg_k_def\<close>)
qed

theorem messages_in_order_witness:
  "currp msg_k = 2 \<and> (\<exists>k'. chMsgWait msg_k = Some (Some 0, k') \<and> chMsgGet 0 k' = 7 \<and> rdymsg (threads (chMsgRelease 0 5 k') 0) = 5)"
proof -
  have s: "currp msg_k = 2" "\<not> chVTIsArmedI (currp msg_k) (vtlist msg_k)" "p_msgqueue (threads msg_k 2) = [0]" "chMsgGet 0 msg_k = 7" by code_simp+
  then show ?thesis using messages_in_order [OF msg_reach s(2), of 3 0 5] by auto
qed

end
