(* ===== verification/Memcore.thy ===== *)
theory Memcore
  imports Prelude "HOL-Library.Multiset"
begin

unbundle bit_operations_syntax

text \<open>
  The core memory manager and the memory pools: \<^verbatim>\<open>os/rt/src/chmemcore.c\<close>, \<^verbatim>\<open>os/rt/src/chmempools.c\<close> and
  their headers.  Addresses and sizes are 32-bit words, \<open>0\<close> is the null pointer.  A memory provider
  (\<^verbatim>\<open>memgetfunc_t\<close>) is a function on a state of its own; the locale \<open>memget\<close> states what its clients rely
  on, and the core manager provides it.
\<close>

section \<open>Alignment\<close>

definition MEM_ALIGN_MASK :: u32 where "MEM_ALIGN_MASK = 7"
definition MEM_ALIGN_PREV :: "u32 \<Rightarrow> u32" where "MEM_ALIGN_PREV p = p AND NOT MEM_ALIGN_MASK"
definition MEM_ALIGN_NEXT :: "u32 \<Rightarrow> u32" where "MEM_ALIGN_NEXT p = MEM_ALIGN_PREV (p + MEM_ALIGN_MASK)"
definition MEM_IS_ALIGNED :: "u32 \<Rightarrow> bool" where "MEM_IS_ALIGNED p \<longleftrightarrow> p AND MEM_ALIGN_MASK = 0"

section \<open>The core manager\<close>

record core =
  nextmem :: u32
  endmem :: u32

definition core_init :: "u32 \<Rightarrow> u32 \<Rightarrow> core" where
  "core_init heap_base heap_end = \<lparr>nextmem = MEM_ALIGN_NEXT heap_base, endmem = MEM_ALIGN_PREV heap_end\<rparr>"

definition chCoreAllocI :: "u32 \<Rightarrow> core \<Rightarrow> u32 \<times> core" where
  "chCoreAllocI size0 c =
     (let sz = MEM_ALIGN_NEXT size0
      in if endmem c - nextmem c < sz then (0, c)
         else (nextmem c, c\<lparr>nextmem := nextmem c + sz\<rparr>))"

definition chCoreAlloc :: "u32 \<Rightarrow> core \<Rightarrow> u32 \<times> core" where "chCoreAlloc = chCoreAllocI"

definition chCoreGetStatusX :: "core \<Rightarrow> u32" where "chCoreGetStatusX c = endmem c - nextmem c"

section \<open>Memory pools\<close>

text \<open>The free objects hold the link to the next one; \<open>ph\<close> maps the address of an object to its link.\<close>

record memory_pool =
  mp_next :: u32
  mp_object_size :: u32

type_synonym 'c provider = "(u32 \<Rightarrow> 'c \<Rightarrow> u32 \<times> 'c) option"
type_synonym links = "u32 \<Rightarrow> u32"

definition chPoolObjectInit :: "u32 \<Rightarrow> memory_pool" where
  "chPoolObjectInit sz = \<lparr>mp_next = 0, mp_object_size = sz\<rparr>"

definition chPoolFreeI :: "u32 \<Rightarrow> memory_pool \<times> links \<Rightarrow> memory_pool \<times> links" where
  "chPoolFreeI objp = (\<lambda>(mp, ph). (mp\<lparr>mp_next := objp\<rparr>, ph(objp := mp_next mp)))"

definition chPoolFree :: "u32 \<Rightarrow> memory_pool \<times> links \<Rightarrow> memory_pool \<times> links" where "chPoolFree = chPoolFreeI"
definition chPoolAdd :: "u32 \<Rightarrow> memory_pool \<times> links \<Rightarrow> memory_pool \<times> links" where "chPoolAdd = chPoolFree"

fun chPoolLoadArray :: "u32 \<Rightarrow> nat \<Rightarrow> memory_pool \<times> links \<Rightarrow> memory_pool \<times> links" where
  "chPoolLoadArray p n s =
     (if n \<noteq> 0 then chPoolLoadArray (p + mp_object_size (fst (chPoolAdd p s))) (n - 1) (chPoolAdd p s) else s)"

declare chPoolLoadArray.simps [simp del]

definition chPoolAllocI :: "'c provider \<Rightarrow> memory_pool \<times> links \<Rightarrow> 'c \<Rightarrow> u32 \<times> (memory_pool \<times> links) \<times> 'c" where
  "chPoolAllocI mp_provider = (\<lambda>(mp, ph) c.
     if mp_next mp \<noteq> 0 then (mp_next mp, (mp\<lparr>mp_next := ph (mp_next mp)\<rparr>, ph), c)
     else (case mp_provider of
             Some get \<Rightarrow> (case get (mp_object_size mp) c of (objp, c') \<Rightarrow> (objp, (mp, ph), c'))
           | None \<Rightarrow> (0, (mp, ph), c)))"

definition chPoolAlloc :: "'c provider \<Rightarrow> memory_pool \<times> links \<Rightarrow> 'c \<Rightarrow> u32 \<times> (memory_pool \<times> links) \<times> 'c" where
  "chPoolAlloc = chPoolAllocI"

section \<open>Alignment facts\<close>

lemma unat_align_prev: "unat (MEM_ALIGN_PREV p) = unat p div 8 * 8"
proof -
  have m: "mask 3 = (7 :: u32)" by (simp add: mask_eq_exp_minus_1)
  have "p AND NOT (mask 3) = push_bit 3 (drop_bit 3 p)" by (auto intro!: bit_word_eqI simp: bit_simps)
  then have "unat (MEM_ALIGN_PREV p) = unat (push_bit 3 (drop_bit 3 p))"
    by (simp only: MEM_ALIGN_PREV_def MEM_ALIGN_MASK_def m)
  also have "\<dots> = (unat p div 8 * 8) mod 2 ^ 32"
    by (simp add: unat_word_ariths unat_div push_bit_eq_mult drop_bit_eq_div)
  finally have "unat (MEM_ALIGN_PREV p) = (unat p div 8 * 8) mod 2 ^ 32" .
  moreover have "unat p div 8 * 8 \<le> unat p" by (rule div_times_less_eq_dividend)
  moreover have "unat p < 2 ^ 32" using unsigned_less [of p, where 'a = nat] by simp
  ultimately show ?thesis by simp
qed

lemma unat_align_next:
  assumes "unat p \<le> 2 ^ 32 - 8"
  shows "unat (MEM_ALIGN_NEXT p) = (unat p + 7) div 8 * 8"
proof -
  have "unat (p + 7) = unat p + 7" using assms by (simp add: unat_word_ariths)
  then show ?thesis by (simp add: MEM_ALIGN_NEXT_def MEM_ALIGN_MASK_def unat_align_prev)
qed

lemma align_next_bounds:
  assumes "unat p \<le> 2 ^ 32 - 8"
  shows "unat p \<le> unat (MEM_ALIGN_NEXT p)" and "unat (MEM_ALIGN_NEXT p) < unat p + 8" and "8 dvd unat (MEM_ALIGN_NEXT p)"
  using unat_align_next [OF assms] by simp_all

text \<open>Sizes within seven bytes of the address space wrap to zero.\<close>

lemma align_next_wraps: "2 ^ 32 - 8 < unat p \<Longrightarrow> MEM_ALIGN_NEXT p = 0"
proof -
  assume p: "2 ^ 32 - 8 < unat p"
  have "unat p < 2 ^ 32" using unsigned_less [of p, where 'a = nat] by simp
  then have "unat (p + 7) < 8" using p by (auto simp: unat_word_ariths mod_if)
  then have "unat (MEM_ALIGN_NEXT p) = 0"
    unfolding MEM_ALIGN_NEXT_def MEM_ALIGN_MASK_def by (simp add: unat_align_prev div_less)
  then show ?thesis by (metis unsigned_eq_0_iff)
qed

section \<open>Blocks of memory\<close>

text \<open>\<open>hits bs x\<close> counts the blocks (start and length) of \<open>bs\<close> that contain the byte \<open>x\<close>.\<close>

definition inside :: "nat \<Rightarrow> nat \<times> nat \<Rightarrow> bool" where "inside x = (\<lambda>(a, n). a \<le> x \<and> x < a + n)"
definition hits :: "(nat \<times> nat) list \<Rightarrow> nat \<Rightarrow> nat" where "hits bs x = length (filter (inside x) bs)"
definition apart :: "nat \<times> nat \<Rightarrow> nat \<times> nat \<Rightarrow> bool" where
  "apart = (\<lambda>(a, n) (b, m). a + n \<le> b \<or> b + m \<le> a)"

lemma hits_simps [simp]:
  "hits [] x = 0" "hits (b # bs) x = (if inside x b then 1 else 0) + hits bs x" "hits (bs @ cs) x = hits bs x + hits cs x"
  by (simp_all add: hits_def)

lemma hits_pos: "0 < hits bs x \<longleftrightarrow> (\<exists>b \<in> set bs. inside x b)"
  by (induction bs) auto

lemma hits_remove1: "b \<in> set bs \<Longrightarrow> hits (remove1 b bs) x = hits bs x - (if inside x b then 1 else 0)"
  and hits_mem: "b \<in> set bs \<Longrightarrow> inside x b \<Longrightarrow> 0 < hits bs x"
  by (induction bs) (auto simp: hits_pos)

lemma hits_perm: "mset bs = mset cs \<Longrightarrow> hits bs x = hits cs x"
  by (metis hits_def mset_filter size_mset)

text \<open>No byte is hit twice exactly when the blocks are pairwise apart.\<close>

lemma apart_hits:
  assumes "\<And>x. hits (b # bs) x \<le> 1" and "c \<in> set bs" and "0 < snd b" and "0 < snd c"
  shows "apart b c"
proof (rule ccontr)
  assume na: "\<not> apart b c"
  obtain a n e m where bc: "b = (a, n)" "c = (e, m)" by (cases b, cases c)
  have "inside (max a e) b" "inside (max a e) c"
    using na assms(3,4) by (auto simp: bc apart_def inside_def)
  then have "1 < hits (b # bs) (max a e)" using hits_mem [OF assms(2)] by simp
  then show False using assms(1) [of "max a e"] by simp
qed

lemma hits_apart: "\<forall>c \<in> set bs. apart b c \<Longrightarrow> inside x b \<Longrightarrow> hits bs x = 0"
proof -
  assume "\<forall>c \<in> set bs. apart b c" "inside x b"
  then have "\<not> (\<exists>c \<in> set bs. inside x c)" by (fastforce simp: apart_def inside_def)
  then show ?thesis using hits_pos [of bs x] by blast
qed

section \<open>Memory providers\<close>

text \<open>
  What a client of a memory provider relies on: a block that is handed out lies in the part of the
  provider's range \<open>[brk, limit)\<close> that was free before and is not after, and is aligned.
\<close>

locale memget =
  fixes get :: "u32 \<Rightarrow> 'c \<Rightarrow> u32 \<times> 'c" and prov_ok :: "'c \<Rightarrow> bool" and brk :: "'c \<Rightarrow> nat" and limit :: "'c \<Rightarrow> nat"
  assumes get_ok: "prov_ok c \<Longrightarrow> prov_ok (snd (get n c))"
    and get_none: "prov_ok c \<Longrightarrow> fst (get n c) = 0 \<Longrightarrow> snd (get n c) = c"
    and get_some: "prov_ok c \<Longrightarrow> unat n \<le> 2 ^ 32 - 8 \<Longrightarrow> fst (get n c) \<noteq> 0 \<Longrightarrow>
      brk c \<le> unat (fst (get n c)) \<and> unat (fst (get n c)) + unat n \<le> brk (snd (get n c)) \<and> 8 dvd unat (fst (get n c))"
    and get_limit: "prov_ok c \<Longrightarrow> limit (snd (get n c)) = limit c"
    and brk_limit: "prov_ok c \<Longrightarrow> 0 < brk c \<and> brk c \<le> limit c \<and> limit c < 2 ^ 32"
begin

lemma get_brk: "prov_ok c \<Longrightarrow> unat n \<le> 2 ^ 32 - 8 \<Longrightarrow> brk c \<le> brk (snd (get n c))"
  using get_none [of c n] get_some [of c n] by (cases "fst (get n c) = 0") auto

text \<open>A block outside the free range stays apart from everything handed out later.\<close>

lemma get_apart:
  assumes "prov_ok c" and "unat n \<le> 2 ^ 32 - 8" and "fst (get n c) \<noteq> 0" and "a + m \<le> brk c \<or> limit c \<le> a"
  shows "apart (unat (fst (get n c)), unat n) (a, m)"
    and "a + m \<le> brk (snd (get n c)) \<or> limit (snd (get n c)) \<le> a"
  using get_some [OF assms(1-3)] brk_limit [OF get_ok [OF assms(1), of n]] get_limit [OF assms(1), of n] assms(4)
  by (auto simp: apart_def)

end

definition core_ok :: "core \<Rightarrow> bool" where
  "core_ok c \<longleftrightarrow> 0 < nextmem c \<and> nextmem c \<le> endmem c \<and> 8 dvd unat (nextmem c) \<and> 8 dvd unat (endmem c)"

lemma core_init_ok:
  assumes "0 < unat b" and "unat b \<le> 2 ^ 32 - 16" and "unat b + 8 \<le> unat e"
  shows "core_ok (core_init b e)"
proof -
  have n: "unat (MEM_ALIGN_NEXT b) = (unat b + 7) div 8 * 8" using assms(2) by (simp add: unat_align_next)
  then have "0 < unat (MEM_ALIGN_NEXT b)" using assms(1) by simp
  moreover have "(unat b + 7) div 8 * 8 \<le> unat e div 8 * 8" using assms(3) by (simp add: div_le_mono)
  ultimately show ?thesis
    by (simp add: core_ok_def core_init_def n unat_align_prev word_le_nat_alt word_less_nat_alt)
qed

text \<open>The block the core manager hands out: the next aligned bytes, if that many are left.\<close>

lemma core_get:
  assumes "core_ok c" and "unat n \<le> 2 ^ 32 - 8"
  shows "let m = (unat n + 7) div 8 * 8 in
    if unat (endmem c) < unat (nextmem c) + m then chCoreAlloc n c = (0, c)
    else fst (chCoreAlloc n c) = nextmem c \<and> endmem (snd (chCoreAlloc n c)) = endmem c
       \<and> unat (nextmem (snd (chCoreAlloc n c))) = unat (nextmem c) + m"
proof -
  define m where "m = (unat n + 7) div 8 * 8"
  have m: "unat (MEM_ALIGN_NEXT n) = m" using unat_align_next [OF assms(2)] by (simp add: m_def)
  have d: "unat (endmem c - nextmem c) = unat (endmem c) - unat (nextmem c)"
    using assms(1) by (simp add: core_ok_def unat_sub)
  have le: "unat (nextmem c) \<le> unat (endmem c)" using assms(1) by (simp add: core_ok_def word_le_nat_alt)
  have lt: "endmem c - nextmem c < MEM_ALIGN_NEXT n \<longleftrightarrow> unat (endmem c) < unat (nextmem c) + m"
    using le by (auto simp: word_less_nat_alt d m)
  have "unat (endmem c) < 2 ^ 32" using unsigned_less [of "endmem c", where 'a = nat] by simp
  then have "\<not> unat (endmem c) < unat (nextmem c) + m \<Longrightarrow> unat (nextmem c + MEM_ALIGN_NEXT n) = unat (nextmem c) + m"
    by (simp add: unat_word_ariths m)
  then show ?thesis unfolding m_def [symmetric] Let_def by (simp add: chCoreAlloc_def chCoreAllocI_def lt)
qed

lemma core_get_wrapped:
  assumes "core_ok c" and "2 ^ 32 - 8 < unat n"
  shows "chCoreAlloc n c = (nextmem c, c)"
  by (simp add: chCoreAlloc_def chCoreAllocI_def align_next_wraps [OF assms(2)])

interpretation core: memget chCoreAlloc core_ok "\<lambda>c. unat (nextmem c)" "\<lambda>c. unat (endmem c)"
proof (unfold_locales, goal_cases)
  case (1 c n)
  show ?case
  proof (cases "unat n \<le> 2 ^ 32 - 8")
    case True
    then show ?thesis using core_get [OF 1 True] 1
      by (auto simp: core_ok_def Let_def word_le_nat_alt word_less_nat_alt split: if_splits)
  next
    case False
    then show ?thesis using core_get_wrapped [OF 1] 1 by simp
  qed
next
  case (2 c n)
  have "nextmem c \<noteq> 0" using 2(1) by (auto simp: core_ok_def)
  then show ?case using core_get [OF 2(1), of n] core_get_wrapped [OF 2(1), of n] 2
    by (cases "unat n \<le> 2 ^ 32 - 8") (auto simp: Let_def split: if_splits)
next
  case (3 c n)
  then show ?case using core_get [OF 3(1,2)] by (auto simp: Let_def core_ok_def split: if_splits)
next
  case (4 c n)
  then show ?case using core_get [OF 4, of n] core_get_wrapped [OF 4, of n]
    by (cases "unat n \<le> 2 ^ 32 - 8") (auto simp: Let_def split: if_splits)
next
  case (5 c)
  then show ?case using unsigned_less [of "endmem c", where 'a = nat]
    by (simp add: core_ok_def word_le_nat_alt word_less_nat_alt)
qed

section \<open>The objects of a pool\<close>

fun plist :: "links \<Rightarrow> u32 \<Rightarrow> u32 list \<Rightarrow> bool" where
  "plist ph p [] \<longleftrightarrow> p = 0"
| "plist ph p (a # as) \<longleftrightarrow> p = a \<and> a \<noteq> 0 \<and> plist ph (ph a) as"

abbreviation obj :: "u32 \<Rightarrow> u32 \<Rightarrow> nat \<times> nat" where "obj sz a \<equiv> (unat a, unat sz)"

definition objs_ok :: "u32 \<Rightarrow> nat \<Rightarrow> nat \<Rightarrow> u32 list \<Rightarrow> bool" where
  "objs_ok sz t l os \<longleftrightarrow> (\<forall>x. hits (map (obj sz) os) x \<le> 1) \<and> (\<forall>a \<in> set os. a \<noteq> 0 \<and> (unat a + unat sz \<le> t \<or> l \<le> unat a))"

text \<open>A pool with its provider and the objects in use.\<close>

type_synonym 'c pool_state = "(memory_pool \<times> links) \<times> 'c \<times> u32 list"

definition pool_ok :: "('c \<Rightarrow> bool) \<Rightarrow> ('c \<Rightarrow> nat) \<Rightarrow> ('c \<Rightarrow> nat) \<Rightarrow> 'c pool_state \<Rightarrow> bool" where
  "pool_ok prov_ok brk limit = (\<lambda>((mp, ph), c, used). prov_ok c \<and> 0 < unat (mp_object_size mp)
     \<and> unat (mp_object_size mp) \<le> 2 ^ 32 - 8
     \<and> (\<exists>xs. plist ph (mp_next mp) xs \<and> objs_ok (mp_object_size mp) (brk c) (limit c) (xs @ used)))"

inductive pool_step :: "'c provider \<Rightarrow> 'c pool_state \<Rightarrow> 'c pool_state \<Rightarrow> bool" for prov where
  alloc: "chPoolAlloc prov s c = (p, s', c') \<Longrightarrow> pool_step prov (s, c, used) (s', c', if p = 0 then used else p # used)"
| free: "p \<in> set used \<Longrightarrow> pool_step prov (s, c, used) (chPoolFree p s, c, remove1 p used)"

lemma plist_upd: "a \<notin> set xs \<Longrightarrow> plist (ph(a := v)) p xs = plist ph p xs"
  by (induction xs arbitrary: p) auto

lemma objs_ok_perm: "mset os = mset os' \<Longrightarrow> objs_ok sz t l os = objs_ok sz t l os'"
proof -
  assume m: "mset os = mset os'"
  then have "mset (map (obj sz) os) = mset (map (obj sz) os')" by simp
  then have "hits (map (obj sz) os) x = hits (map (obj sz) os') x" for x by (rule hits_perm)
  moreover have "set os = set os'" using m by (rule mset_eq_setD)
  ultimately show ?thesis by (simp add: objs_ok_def)
qed

lemma objs_ok_distinct: "objs_ok sz t l os \<Longrightarrow> 0 < unat sz \<Longrightarrow> distinct os"
proof (induction os)
  case (Cons a os)
  have h: "hits (map (obj sz) (a # os)) x \<le> 1" for x using Cons.prems(1) by (simp only: objs_ok_def)
  have "hits (map (obj sz) os) x \<le> 1" for x using h [of x] by (simp split: if_splits)
  then have "objs_ok sz t l os" using Cons.prems(1) by (simp add: objs_ok_def)
  moreover have "a \<notin> set os"
  proof
    assume "a \<in> set os"
    then have "apart (obj sz a) (obj sz a)" using h Cons.prems(2) by (intro apart_hits [of _ "map (obj sz) os"]) auto
    then show False using Cons.prems(2) by (simp add: apart_def)
  qed
  ultimately show ?case using Cons by simp
qed simp

lemma objs_ok_Cons:
  assumes "objs_ok sz t l os" and "a \<noteq> 0" and "unat a + unat sz \<le> t' \<or> l \<le> unat a" and "t \<le> t'"
    and "\<forall>b \<in> set os. apart (obj sz a) (obj sz b)"
  shows "objs_ok sz t' l (a # os)"
proof -
  have "hits (map (obj sz) (a # os)) x \<le> 1" for x
    using assms(1,5) hits_apart [of "map (obj sz) os" "obj sz a" x] by (simp add: objs_ok_def)
  then show ?thesis using assms by (auto simp: objs_ok_def)
qed

context memget
begin

abbreviation pok :: "'c pool_state \<Rightarrow> bool" where "pok \<equiv> pool_ok prov_ok brk limit"

lemma pool_free_ok:
  assumes "pok (s, c, used)" and "p \<in> set used"
  shows "pok (chPoolFree p s, c, remove1 p used)"
proof -
  obtain mp ph where s: "s = (mp, ph)" by (cases s)
  from assms(1) obtain xs where xs: "plist ph (mp_next mp) xs" "objs_ok (mp_object_size mp) (brk c) (limit c) (xs @ used)"
    and ok: "prov_ok c" "0 < unat (mp_object_size mp)" "unat (mp_object_size mp) \<le> 2 ^ 32 - 8" by (auto simp: pool_ok_def s)
  have d: "p \<notin> set xs" using objs_ok_distinct [OF xs(2) ok(2)] assms(2) by auto
  have "p \<noteq> 0" using xs(2) assms(2) by (auto simp: objs_ok_def)
  then have "plist (ph(p := mp_next mp)) p (p # xs)" using plist_upd [OF d] xs(1) by simp
  moreover have "mset (xs @ used) = mset ((p # xs) @ remove1 p used)" using assms(2) by simp
  then have "objs_ok (mp_object_size mp) (brk c) (limit c) ((p # xs) @ remove1 p used)"
    using xs(2) objs_ok_perm by blast
  ultimately show ?thesis
    using ok by (auto simp: pool_ok_def chPoolFree_def chPoolFreeI_def s simp del: plist.simps intro!: exI [of _ "p # xs"])
qed

lemma pool_alloc_ok:
  assumes "pok (s, c, used)" and "prov = None \<or> prov = Some get" and "chPoolAlloc prov s c = (p, s', c')"
  shows "pok (s', c', if p = 0 then used else p # used)"
proof -
  obtain mp ph where s: "s = (mp, ph)" by (cases s)
  from assms(1) obtain xs where xs: "plist ph (mp_next mp) xs" "objs_ok (mp_object_size mp) (brk c) (limit c) (xs @ used)"
    and ok: "prov_ok c" "0 < unat (mp_object_size mp)" "unat (mp_object_size mp) \<le> 2 ^ 32 - 8" by (auto simp: pool_ok_def s)
  show ?thesis
  proof (cases xs)
    case (Cons a as)
    then have p: "p = a" "s' = (mp\<lparr>mp_next := ph a\<rparr>, ph)" "c' = c" "a \<noteq> 0" "plist ph (ph a) as"
      using assms(3) xs(1) by (auto simp: chPoolAlloc_def chPoolAllocI_def s)
    have "mset (xs @ used) = mset (as @ a # used)" using Cons by simp
    then have "objs_ok (mp_object_size mp) (brk c) (limit c) (as @ a # used)" using xs(2) objs_ok_perm by blast
    then show ?thesis using p ok by (auto simp: pool_ok_def)
  next
    case Nil
    then have z: "mp_next mp = 0" using xs(1) by simp
    show ?thesis
    proof (cases prov)
      case None
      then have "p = 0" "s' = s" "c' = c" using assms(3) z by (simp_all add: chPoolAlloc_def chPoolAllocI_def s)
      then show ?thesis using assms(1) by simp
    next
      case (Some g)
      then have g: "p = fst (get (mp_object_size mp) c)" "c' = snd (get (mp_object_size mp) c)" "s' = s"
        using assms(2,3) z by (auto simp: chPoolAlloc_def chPoolAllocI_def s split: prod.splits)
      show ?thesis
      proof (cases "p = 0")
        case True
        then show ?thesis using g get_none [OF ok(1)] assms(1) by simp
      next
        case False
        note gs = get_some [OF ok(1,3) False [unfolded g]] and ga = get_apart [OF ok(1,3) False [unfolded g]]
        have "objs_ok (mp_object_size mp) (brk c') (limit c') (p # used)"
        proof (rule objs_ok_Cons)
          show "objs_ok (mp_object_size mp) (brk c) (limit c') used" using xs(2) Nil get_limit [OF ok(1)] g by simp
          show "\<forall>b \<in> set used. apart (obj (mp_object_size mp) p) (obj (mp_object_size mp) b)"
            using xs(2) ga(1) g by (auto simp: objs_ok_def)
        qed (use gs False g get_brk [OF ok(1,3)] in auto)
        then show ?thesis using False g ok get_ok [OF ok(1)] z by (auto simp: pool_ok_def s intro!: exI [of _ "[]"])
      qed
    qed
  qed
qed

lemma pool_steps_ok:
  "(pool_step prov)\<^sup>*\<^sup>* s s' \<Longrightarrow> prov = None \<or> prov = Some get \<Longrightarrow> pok s \<Longrightarrow> pok s'"
proof (induction rule: rtranclp_induct)
  case (step s' s'')
  then have "pok s'" by blast
  from step(2) show ?case
  proof cases
    case (alloc s c p s1 c1 used)
    show ?thesis unfolding alloc(2) by (rule pool_alloc_ok [OF _ step.prems(1) alloc(3)]) (use \<open>pok s'\<close> alloc(1) in simp)
  next
    case (free p used s c)
    show ?thesis unfolding free(2) by (rule pool_free_ok [OF _ free(3)]) (use \<open>pok s'\<close> free(1) in simp)
  qed
qed

end

lemma load_array_objs:
  assumes "plist ph (mp_next mp) xs" and "objs_ok sz t l (xs @ used)" and "sz = mp_object_size mp" and "0 < unat sz"
    and "p \<noteq> 0" and "unat p + n * unat sz < 2 ^ 32" and "unat p + n * unat sz \<le> t \<or> l \<le> unat p"
    and "\<forall>b \<in> set (xs @ used). apart (unat p, n * unat sz) (obj sz b)"
  shows "\<exists>mp' ph' xs'. chPoolLoadArray p n (mp, ph) = (mp', ph') \<and> plist ph' (mp_next mp') xs' \<and> mp_object_size mp' = sz
    \<and> objs_ok sz t l (xs' @ used) \<and> length xs' = length xs + n"
  using assms
proof (induction n arbitrary: p mp ph xs)
  case 0
  then show ?case by (auto simp: chPoolLoadArray.simps)
next
  case (Suc n)
  let ?mp = "mp\<lparr>mp_next := p\<rparr>" and ?ph = "ph(p := mp_next mp)"
  have far: "apart (obj sz p) (obj sz b)" "apart (unat p + unat sz, n * unat sz) (obj sz b)" if "b \<in> set (xs @ used)" for b
    using bspec [OF Suc.prems(8) that] by (auto simp: apart_def)
  have np: "p \<notin> set xs" using far(1) [of p] Suc.prems(4) by (auto simp: apart_def)
  have l1: "plist ?ph (mp_next ?mp) (p # xs)" using plist_upd [OF np] Suc.prems(1,5) by simp
  have o1: "objs_ok sz t l ((p # xs) @ used)"
    using objs_ok_Cons [OF Suc.prems(2,5), of t] Suc.prems(7) far(1) by auto
  show ?case
  proof (cases n)
    case 0
    have "chPoolLoadArray p (Suc n) (mp, ph) = (?mp, ?ph)"
      by (simp add: 0 chPoolLoadArray.simps chPoolAdd_def chPoolFree_def chPoolFreeI_def)
    moreover have "mp_object_size ?mp = sz" "length (p # xs) = length xs + Suc n" using Suc.prems(3) 0 by simp_all
    ultimately show ?thesis using l1 o1 by blast
  next
    case (Suc m)
    have up: "unat (p + sz) = unat p + unat sz" using Suc.prems(6) Suc by (simp add: unat_word_ariths)
    have "chPoolLoadArray p (Suc n) (mp, ph) = chPoolLoadArray (p + sz) n (?mp, ?ph)"
      using Suc.prems(3) by (subst chPoolLoadArray.simps) (simp add: chPoolAdd_def chPoolFree_def chPoolFreeI_def)
    moreover have "\<exists>mp' ph' xs'. chPoolLoadArray (p + sz) n (?mp, ?ph) = (mp', ph') \<and> plist ph' (mp_next mp') xs'
        \<and> mp_object_size mp' = sz \<and> objs_ok sz t l (xs' @ used) \<and> length xs' = length (p # xs) + n"
    proof (rule Suc.IH [OF l1 o1])
      show "p + sz \<noteq> 0" using up Suc.prems(4) by (metis add_gr_0 unsigned_0 less_irrefl)
      show "\<forall>b \<in> set ((p # xs) @ used). apart (unat (p + sz), n * unat sz) (obj sz b)"
        using far(2) by (auto simp: up apart_def)
    qed (use Suc.prems(3,4,6,7) up in auto)
    ultimately show ?thesis by simp
  qed
qed

text \<open>A freed object is the next one to be handed out, and the pool is then as before.\<close>

lemma pool_lifo:
  assumes "p \<noteq> 0"
  shows "chPoolAlloc prov (chPoolFree p (mp, ph)) c = (p, (mp, ph(p := mp_next mp)), c)"
  using assms by (simp add: chPoolAlloc_def chPoolAllocI_def chPoolFree_def chPoolFreeI_def)

text \<open>
  C30: a memory pool never hands out overlapping objects.  Whatever sequence of allocations and
  releases follows the loading of an array of objects that lies outside the free range of the
  core manager, the objects in use are distinct and do not overlap, those that were loaded and
  those obtained from the core manager when the pool ran empty alike.
\<close>

theorem pool_objects_exclusive:
  assumes "core_ok c" and "0 < unat sz" and "unat sz \<le> 2 ^ 32 - 8" and "p \<noteq> 0" and "unat p + n * unat sz < 2 ^ 32"
    and "unat p + n * unat sz \<le> unat (nextmem c) \<or> unat (endmem c) \<le> unat p"
    and "(pool_step (Some chCoreAlloc))\<^sup>*\<^sup>* (chPoolLoadArray p n (chPoolObjectInit sz, ph), c, []) (s, c', used)"
  shows "distinct used \<and> mp_object_size (fst s) = sz
    \<and> (\<forall>a \<in> set used. \<forall>b \<in> set used. a \<noteq> b \<longrightarrow> apart (unat a, unat sz) (unat b, unat sz))"
proof -
  obtain mp' ph' xs' where l: "chPoolLoadArray p n (chPoolObjectInit sz, ph) = (mp', ph')" "plist ph' (mp_next mp') xs'"
    "mp_object_size mp' = sz" "objs_ok sz (unat (nextmem c)) (unat (endmem c)) (xs' @ [])"
    using load_array_objs [of ph "chPoolObjectInit sz" "[]" sz "unat (nextmem c)" "unat (endmem c)" "[]" p n] assms(2,4-6)
    by (auto simp: chPoolObjectInit_def objs_ok_def)
  then have "core.pok (chPoolLoadArray p n (chPoolObjectInit sz, ph), c, [])"
    using assms(1-3) by (auto simp: pool_ok_def)
  from core.pool_steps_ok [OF assms(7) _ this] have ok: "core.pok (s, c', used)" by blast
  obtain mp ph1 where s: "s = (mp, ph1)" by (cases s)
  have "mp_object_size (fst (fst y)) = mp_object_size (fst (fst x))" if "(pool_step (Some chCoreAlloc))\<^sup>*\<^sup>* x y" for x y
    using that
  proof (induction rule: rtranclp_induct)
    case (step y z)
    from step(2) have "mp_object_size (fst (fst z)) = mp_object_size (fst (fst y))"
      by (cases rule: pool_step.cases)
        (auto simp: chPoolAlloc_def chPoolAllocI_def chPoolFree_def chPoolFreeI_def split: prod.splits if_splits)
    with step.IH show ?case by simp
  qed simp
  from this [OF assms(7)] have sz: "mp_object_size mp = sz" using l by (simp add: s)
  from ok obtain xs where o: "objs_ok sz (unat (nextmem c')) (unat (endmem c')) (xs @ used)" by (auto simp: pool_ok_def s sz)
  have d: "distinct used" using objs_ok_distinct [OF o assms(2)] by simp
  have "apart (obj sz a) (obj sz b)" if "a \<in> set used" "b \<in> set used" "a \<noteq> b" for a b
  proof -
    have "mset (xs @ used) = mset (a # remove1 a (xs @ used))" using that(1) by (simp add: Un_iff)
    then have "objs_ok sz (unat (nextmem c')) (unat (endmem c')) (a # remove1 a (xs @ used))" using o objs_ok_perm by blast
    then have "hits (obj sz a # map (obj sz) (remove1 a (xs @ used))) x \<le> 1" for x by (simp add: objs_ok_def)
    moreover have "obj sz b \<in> set (map (obj sz) (remove1 a (xs @ used)))" using that by (auto simp: remove1_append)
    ultimately show ?thesis using assms(2) by (intro apart_hits [of _ "map (obj sz) (remove1 a (xs @ used))"]) auto
  qed
  then show ?thesis using d sz s by auto
qed

definition pool_sample :: "(memory_pool \<times> links) \<times> core" where
  "pool_sample = (chPoolLoadArray 0x100 2 (chPoolObjectInit 16, \<lambda>_. 0), core_init 0x1000 0x2000)"

theorem pool_objects_exclusive_witness:
  "apart (unat (fst (chPoolAlloc (Some chCoreAlloc) (fst pool_sample) (snd pool_sample))), 16) (0x100, 16)
   \<and> fst (chPoolAlloc (Some chCoreAlloc) (fst pool_sample) (snd pool_sample)) = 0x110"
proof -
  let ?c = "snd pool_sample"
  obtain p1 s1 c1 where a1: "chPoolAlloc (Some chCoreAlloc) (fst pool_sample) ?c = (p1, s1, c1)" by (metis prod_cases3)
  obtain p2 s2 c2 where a2: "chPoolAlloc (Some chCoreAlloc) s1 c1 = (p2, s2, c2)" by (metis prod_cases3)
  have "fst (chPoolAlloc (Some chCoreAlloc) (fst pool_sample) ?c) = 0x110"
    "fst (case chPoolAlloc (Some chCoreAlloc) (fst pool_sample) ?c of (p, s, c) \<Rightarrow> chPoolAlloc (Some chCoreAlloc) s c) = 0x100" by code_simp+
  then have p: "p1 = 0x110" "p2 = 0x100" by (simp_all add: a1 a2)
  have st1: "pool_step (Some chCoreAlloc) (fst pool_sample, ?c, []) (s1, c1, [p1])"
    using pool_step.alloc [OF a1, of "[]"] p by simp
  have st2: "pool_step (Some chCoreAlloc) (s1, c1, [p1]) (s2, c2, [p2, p1])"
    using pool_step.alloc [OF a2, of "[p1]"] p by simp
  have f: "fst pool_sample = chPoolLoadArray 0x100 2 (chPoolObjectInit 16, \<lambda>_. 0)" by (simp only: pool_sample_def fst_conv)
  have "(pool_step (Some chCoreAlloc))\<^sup>*\<^sup>* (chPoolLoadArray 0x100 2 (chPoolObjectInit 16, \<lambda>_. 0), ?c, []) (s2, c2, [p2, p1])"
    unfolding f [symmetric]
    by (rule converse_rtranclp_into_rtranclp [where r = "pool_step (Some chCoreAlloc)", OF st1
          r_into_rtranclp [where r = "pool_step (Some chCoreAlloc)", OF st2]])
  moreover have "nextmem ?c = 0x1000" by code_simp
  moreover have "core_ok ?c" unfolding pool_sample_def snd_conv by (rule core_init_ok) simp_all
  ultimately have "apart (unat p1, unat (16 :: u32)) (unat p2, unat (16 :: u32))"
    using pool_objects_exclusive [where c = ?c and sz = 16 and p = "0x100" and n = 2 and ph = "\<lambda>_. 0" and s = s2 and c' = c2 and used = "[p2, p1]"] p by simp
  then show ?thesis using p by (simp add: a1)
qed

end
