(* ===== verification/Heap_alloc.thy ===== *)
theory Heap_alloc
  imports Memcore
begin

text \<open>
  The heap allocator, \<^verbatim>\<open>os/rt/src/chheap.c\<close>.  The memory holds block headers at 32-bit addresses; the
  union of the link and the owner of a block is one field.  A heap is known by the address of its
  descriptor, whose list header lies 8 bytes after its start (behind the provider pointer, aligned).
  The mutex of the heap makes each call one step.  The memory provider of a heap is an argument,
  with the state it works on.
\<close>

section \<open>Definitions\<close>

record heap_header =
  h_next :: u32
  h_size :: u32

type_synonym hmem = "u32 \<Rightarrow> heap_header"

definition H_FREE :: "u32 \<Rightarrow> u32" where "H_FREE heapp = heapp + 8"
definition LIMIT :: "hmem \<Rightarrow> u32 \<Rightarrow> u32" where "LIMIT m p = p + 8 + h_size (m p)"

definition heap_init :: "u32 \<Rightarrow> hmem \<Rightarrow> hmem" where
  "heap_init default_heap m = m(H_FREE default_heap := \<lparr>h_next = 0, h_size = 0\<rparr>)"

definition chHeapObjectInit :: "u32 \<Rightarrow> u32 \<Rightarrow> u32 \<Rightarrow> hmem \<Rightarrow> hmem" where
  "chHeapObjectInit heapp buf sz m =
     m(H_FREE heapp := \<lparr>h_next = buf, h_size = 0\<rparr>, buf := \<lparr>h_next = 0, h_size = sz - 8\<rparr>)"

text \<open>The block found by the search is taken whole or split; then it is marked with its owner.\<close>

definition heap_take :: "u32 \<Rightarrow> u32 \<Rightarrow> u32 \<Rightarrow> u32 \<Rightarrow> hmem \<Rightarrow> hmem" where
  "heap_take heapp sz qp hp m =
     (let m = (if h_size (m hp) < sz + 8 then m(qp := (m qp)\<lparr>h_next := h_next (m hp)\<rparr>)
               else let fp = hp + 8 + sz;
                        m = m(fp := (m fp)\<lparr>h_next := h_next (m hp)\<rparr>);
                        m = m(fp := (m fp)\<lparr>h_size := h_size (m hp) - 8 - sz\<rparr>);
                        m = m(qp := (m qp)\<lparr>h_next := fp\<rparr>)
                    in m(hp := (m hp)\<lparr>h_size := sz\<rparr>))
      in m(hp := (m hp)\<lparr>h_next := heapp\<rparr>))"

partial_function (option) alloc_loop :: "u32 \<Rightarrow> u32 \<Rightarrow> u32 \<Rightarrow> hmem \<Rightarrow> (u32 \<times> hmem) option" where
  "alloc_loop heapp sz qp m =
     (if h_next (m qp) = 0 then Some (0, m)
      else if sz \<le> h_size (m (h_next (m qp)))
           then Some (h_next (m qp) + 8, heap_take heapp sz qp (h_next (m qp)) m)
           else alloc_loop heapp sz (h_next (m qp)) m)"

definition chHeapAlloc :: "u32 \<Rightarrow> 'c provider \<Rightarrow> u32 \<Rightarrow> u32 \<Rightarrow> hmem \<times> 'c \<Rightarrow> (u32 \<times> hmem \<times> 'c) option" where
  "chHeapAlloc default_heap h_provider heapp0 size0 = (\<lambda>(m, c).
     (let heapp = (if heapp0 = 0 then default_heap else heapp0); sz = MEM_ALIGN_NEXT size0
      in do {
        (p, m) \<leftarrow> alloc_loop heapp sz (H_FREE heapp) m;
        if p \<noteq> 0 then Some (p, m, c)
        else (case h_provider of
                Some get \<Rightarrow> (case get (sz + 8) c of (hp, c') \<Rightarrow>
                  if hp \<noteq> 0 then Some (hp + 8, m(hp := \<lparr>h_next = heapp, h_size = sz\<rparr>), c') else Some (0, m, c'))
              | None \<Rightarrow> Some (0, m, c))
      }))"

definition heap_insert :: "u32 \<Rightarrow> u32 \<Rightarrow> hmem \<Rightarrow> hmem" where
  "heap_insert qp hp m =
     (let m = m(hp := (m hp)\<lparr>h_next := h_next (m qp)\<rparr>);
          m = m(qp := (m qp)\<lparr>h_next := hp\<rparr>);
          m = (if LIMIT m hp = h_next (m hp) then
                 let m = m(hp := (m hp)\<lparr>h_size := h_size (m hp) + (h_size (m (h_next (m hp))) + 8)\<rparr>)
                 in m(hp := (m hp)\<lparr>h_next := h_next (m (h_next (m hp)))\<rparr>)
               else m)
      in if LIMIT m qp = hp then
           let m = m(qp := (m qp)\<lparr>h_size := h_size (m qp) + (h_size (m hp) + 8)\<rparr>)
           in m(qp := (m qp)\<lparr>h_next := h_next (m hp)\<rparr>)
         else m)"

partial_function (option) free_loop :: "u32 \<Rightarrow> u32 \<Rightarrow> u32 \<Rightarrow> hmem \<Rightarrow> hmem option" where
  "free_loop h_free hp qp m =
     (if (qp = h_free \<or> qp < hp) \<and> (h_next (m qp) = 0 \<or> hp < h_next (m qp))
      then Some (heap_insert qp hp m)
      else free_loop h_free hp (h_next (m qp)) m)"

definition chHeapFree :: "u32 \<Rightarrow> hmem \<Rightarrow> hmem option" where
  "chHeapFree p m =
     (let hp = p - 8; heapp = h_next (m hp) in free_loop (H_FREE heapp) hp (H_FREE heapp) m)"

partial_function (option) status_loop :: "hmem \<Rightarrow> u32 \<Rightarrow> u32 \<Rightarrow> u32 \<Rightarrow> (u32 \<times> u32) option" where
  "status_loop m qp n sz =
     (if h_next (m qp) = 0 then Some (n, sz)
      else status_loop m (h_next (m qp)) (n + 1) (sz + h_size (m (h_next (m qp)))))"

definition chHeapStatus :: "u32 \<Rightarrow> u32 \<Rightarrow> hmem \<Rightarrow> (u32 \<times> u32) option" where
  "chHeapStatus default_heap heapp0 m = status_loop m (H_FREE (if heapp0 = 0 then default_heap else heapp0)) 0 0"

declare alloc_loop.simps [code] free_loop.simps [code] status_loop.simps [code]

section \<open>Blocks\<close>

text \<open>A block is its address and size; it occupies its header and its body.\<close>

type_synonym block = "u32 \<times> u32"

abbreviation ext :: "block \<Rightarrow> nat \<times> nat" where "ext b \<equiv> (unat (fst b), 8 + unat (snd b))"

fun lseg :: "hmem \<Rightarrow> block list \<Rightarrow> bool" where
  "lseg m [] \<longleftrightarrow> True"
| "lseg m ((a, s) # bs) \<longleftrightarrow> h_size (m a) = s \<and> h_next (m a) = (case bs of [] \<Rightarrow> 0 | b # _ \<Rightarrow> fst b) \<and> a \<noteq> 0 \<and> lseg m bs"

text \<open>The abstract operations on the list of free blocks.\<close>

fun first_fit :: "u32 \<Rightarrow> block list \<Rightarrow> (block \<times> block list) option" where
  "first_fit sz [] = None"
| "first_fit sz ((a, s) # bs) =
     (if sz \<le> s then
        (if s < sz + 8 then Some ((a, s), bs) else Some ((a, sz), (a + 8 + sz, s - 8 - sz) # bs))
      else map_option (\<lambda>(b, bs'). (b, (a, s) # bs')) (first_fit sz bs))"

fun join :: "block \<Rightarrow> block list \<Rightarrow> block list" where
  "join b [] = [b]"
| "join b (c # bs) = (if fst b + 8 + snd b = fst c then (fst b, snd b + (snd c + 8)) # bs else b # c # bs)"

fun give_back :: "block \<Rightarrow> block list \<Rightarrow> block list" where
  "give_back b [] = [b]"
| "give_back b (c # bs) = (if fst b < fst c then join b (c # bs) else join c (give_back b bs))"

abbreviation bend :: "block \<Rightarrow> nat" where "bend b \<equiv> unat (fst b) + 8 + unat (snd b)"

definition good :: "block \<Rightarrow> bool" where
  "good b \<longleftrightarrow> fst b \<noteq> 0 \<and> bend b < 2 ^ 32 \<and> 8 dvd unat (fst b) \<and> 8 dvd unat (snd b)"

text \<open>Free blocks are in address order and no two of them touch.\<close>

abbreviation gaps :: "block list \<Rightarrow> bool" where "gaps \<equiv> sorted_wrt (\<lambda>b c. bend b < unat (fst c))"

lemma unat_bend: "good (a, s) \<Longrightarrow> unat (a + 8 + s) = unat a + 8 + unat s"
  by (simp add: good_def unat_word_ariths)

lemma touch_iff: "good b \<Longrightarrow> fst b + 8 + snd b = c \<longleftrightarrow> bend b = unat c"
  by (metis unat_bend prod.collapse word_unat_eq_iff)

lemma join_block:
  assumes "good b" and "good c" and "bend b = unat (fst c)"
  shows "unat (snd b + (snd c + 8)) = unat (snd b) + (unat (snd c) + 8)" and "good (fst b, snd b + (snd c + 8))"
proof -
  have "unat (snd c + 8) = unat (snd c) + 8" using assms(2) by (simp add: good_def unat_word_ariths)
  then show u: "unat (snd b + (snd c + 8)) = unat (snd b) + (unat (snd c) + 8)"
    using assms by (simp add: good_def unat_word_ariths)
  show "good (fst b, snd b + (snd c + 8))" using assms u by (simp add: good_def)
qed

lemma join_props:
  assumes "good b" and "\<forall>c \<in> set bs. good c"
  shows "\<forall>c \<in> set (join b bs). good c" and "hits (map ext (join b bs)) x = hits (map ext (b # bs)) x"
    and "fst (hd (join b bs)) = fst b" and "join b bs \<noteq> []"
    and "fst ` set (join b bs) \<subseteq> fst ` set (b # bs)"
proof -
  have "(\<forall>c \<in> set (join b bs). good c) \<and> hits (map ext (join b bs)) x = hits (map ext (b # bs)) x
      \<and> fst (hd (join b bs)) = fst b \<and> join b bs \<noteq> [] \<and> fst ` set (join b bs) \<subseteq> fst ` set (b # bs)"
  proof (cases bs)
    case (Cons c cs)
    show ?thesis
    proof (cases "fst b + 8 + snd b = fst c")
      case True
      then have t: "bend b = unat (fst c)" using touch_iff [OF assms(1)] by simp
      have gc: "good c" using assms(2) Cons by simp
      show ?thesis using True Cons assms join_block [OF assms(1) gc t] t by (auto simp: inside_def)
    qed (use Cons assms in auto)
  qed (use assms in auto)
  then show "\<forall>c \<in> set (join b bs). good c" "hits (map ext (join b bs)) x = hits (map ext (b # bs)) x"
    "fst (hd (join b bs)) = fst b" "join b bs \<noteq> []" "fst ` set (join b bs) \<subseteq> fst ` set (b # bs)" by blast+
qed

lemma join_gaps:
  assumes "good b" and "\<forall>c \<in> set bs. good c" and "gaps bs" and "\<forall>c \<in> set bs. bend b \<le> unat (fst c)"
  shows "gaps (join b bs)"
proof (cases bs)
  case (Cons c cs)
  have gc: "good c" using assms(2) Cons by simp
  show ?thesis
  proof (cases "fst b + 8 + snd b = fst c")
    case True
    then have t: "bend b = unat (fst c)" using touch_iff [OF assms(1)] by simp
    show ?thesis using True Cons assms(3) join_block [OF assms(1) gc t] t by auto
  next
    case False
    then have "bend b < unat (fst c)" using touch_iff [OF assms(1)] assms(4) Cons by force
    then show ?thesis using False Cons assms(3) by force
  qed
qed simp

lemma give_back_props:
  assumes "good b" and "\<forall>c \<in> set bs. good c" and "gaps bs" and "\<forall>c \<in> set bs. apart (ext b) (ext c)"
  shows "(\<forall>c \<in> set (give_back b bs). good c) \<and> hits (map ext (give_back b bs)) x = hits (map ext (b # bs)) x
    \<and> gaps (give_back b bs) \<and> fst ` set (give_back b bs) \<subseteq> fst ` set (b # bs)"
  using assms
proof (induction bs)
  case (Cons c bs)
  show ?case
  proof (cases "fst b < fst c")
    case True
    then have "bend b \<le> unat (fst c)" using Cons.prems(4) by (auto simp: apart_def word_less_nat_alt)
    then have "\<forall>d \<in> set (c # bs). bend b \<le> unat (fst d)" using Cons.prems(3) by fastforce
    with join_gaps [OF Cons.prems(1-3)] join_props [OF Cons.prems(1,2)] True show ?thesis by simp
  next
    case False
    have ih: "(\<forall>c \<in> set (give_back b bs). good c) \<and> hits (map ext (give_back b bs)) x = hits (map ext (b # bs)) x
        \<and> gaps (give_back b bs) \<and> fst ` set (give_back b bs) \<subseteq> fst ` set (b # bs)"
      by (rule Cons.IH) (use Cons.prems in auto)
    have gc: "good c" using Cons.prems(2) by simp
    have "bend c \<le> unat (fst b)" using Cons.prems(4) False by (auto simp: apart_def word_less_nat_alt)
    moreover have "\<forall>d \<in> set bs. bend c \<le> unat (fst d)" using Cons.prems(3) by auto
    ultimately have "\<forall>d \<in> set (give_back b bs). bend c \<le> unat (fst d)" using ih by fastforce
    then have "gaps (join c (give_back b bs))" using ih by (intro join_gaps [OF gc]) auto
    moreover have "fst ` set (join c (give_back b bs)) \<subseteq> fst ` set (b # c # bs)"
    proof -
      have "fst ` set (join c (give_back b bs)) \<subseteq> insert (fst c) (fst ` set (give_back b bs))"
        "fst ` set (give_back b bs) \<subseteq> insert (fst b) (fst ` set bs)"
        using join_props(5) [OF gc, of "give_back b bs"] ih by simp_all
      then show ?thesis unfolding list.set image_insert by blast
    qed
    ultimately show ?thesis using join_props(1,2) [OF gc, of "give_back b bs"] ih False by simp
  qed
qed simp

lemma first_fit_props:
  assumes "first_fit sz bs = Some (b, bs')" and "\<forall>c \<in> set bs. good c" and "gaps bs" and "8 dvd unat sz"
  shows "(\<forall>c \<in> set (b # bs'). good c) \<and> hits (map ext (b # bs')) x = hits (map ext bs) x
    \<and> gaps bs' \<and> sz \<le> snd b \<and> (\<forall>c \<in> set bs'. \<exists>d \<in> set bs. unat (fst d) \<le> unat (fst c))"
  using assms
proof (induction bs arbitrary: b bs')
  case (Cons c bs)
  obtain a s where c: "c = (a, s)" by (cases c)
  have gc: "good (a, s)" using Cons.prems(2) c by simp
  show ?case
  proof (cases "sz \<le> s")
    case True
    have le: "unat sz \<le> unat s" using True by (simp add: word_le_nat_alt)
    have u8: "unat (sz + 8) = unat sz + 8" using le gc by (simp add: good_def unat_word_ariths)
    show ?thesis
    proof (cases "s < sz + 8")
      case True
      then show ?thesis using Cons.prems \<open>sz \<le> s\<close> c by auto
    next
      case False
      then have s8: "unat sz + 8 \<le> unat s" by (simp add: word_less_nat_alt u8)
      have us: "unat (s - 8 - sz) = unat s - 8 - unat sz"
      proof -
        have "unat (s - 8) = unat s - 8" using s8 by (simp add: unat_sub word_le_nat_alt)
        then show ?thesis using s8 by (simp add: unat_sub word_le_nat_alt)
      qed
      have ga: "good (a, sz)" using gc le Cons.prems(4) by (simp add: good_def)
      have uf: "unat (a + 8 + sz) = unat a + 8 + unat sz" by (rule unat_bend [OF ga])
      have gf: "good (a + 8 + sz, s - 8 - sz)"
        unfolding good_def fst_conv snd_conv uf us using gc s8 Cons.prems(4) uf by (auto simp: good_def dvd_diff_nat)
      have "b = (a, sz)" "bs' = (a + 8 + sz, s - 8 - sz) # bs" using Cons.prems(1) True False by (simp_all add: c)
      then show ?thesis using ga gf uf us s8 Cons.prems(2,3) by (auto simp: c inside_def)
    qed
  next
    case False
    then obtain bs1 where f: "first_fit sz bs = Some (b, bs1)" "bs' = (a, s) # bs1"
      using Cons.prems(1) by (auto simp: c)
    from Cons.IH [OF f(1)] Cons.prems have ih: "(\<forall>c \<in> set (b # bs1). good c) \<and> hits (map ext (b # bs1)) x = hits (map ext bs) x
        \<and> gaps bs1 \<and> sz \<le> snd b \<and> (\<forall>c \<in> set bs1. \<exists>d \<in> set bs. unat (fst d) \<le> unat (fst c))" by simp
    have "bend (a, s) < unat (fst d)" if "d \<in> set bs1" for d
      using ih that Cons.prems(3) by (fastforce simp: c)
    then show ?thesis using ih gc f(2) by (auto simp: c)
  qed
qed simp

section \<open>The search for a block\<close>

definition far :: "u32 \<Rightarrow> block list \<Rightarrow> bool" where "far q bs \<longleftrightarrow> (\<forall>b \<in> set bs. \<not> inside (unat q) (ext b))"

definition untouched :: "u32 \<Rightarrow> block list \<Rightarrow> hmem \<Rightarrow> hmem \<Rightarrow> bool" where
  "untouched q bs m m' \<longleftrightarrow> (\<forall>x. x \<noteq> q \<longrightarrow> far x bs \<longrightarrow> m' x = m x)"

lemma lseg_frame: "\<forall>b \<in> set bs. m' (fst b) = m (fst b) \<Longrightarrow> lseg m' bs = lseg m bs"
  by (induction bs) auto

lemma far_Cons: "far x (b # bs) \<longleftrightarrow> \<not> inside (unat x) (ext b) \<and> far x bs"
  by (simp add: far_def)

lemma far_neq: "far x bs \<Longrightarrow> b \<in> set bs \<Longrightarrow> fst b \<noteq> x"
  by (auto simp: far_def inside_def)

lemma gaps_far: "gaps (b # bs) \<Longrightarrow> unat x \<le> bend b \<Longrightarrow> far x bs"
  by (fastforce simp: far_def inside_def)

lemma heap_take_whole:
  assumes "lseg m ((q, sq) # (a, s) # bs)" and "gaps ((a, s) # bs)" and "far q ((a, s) # bs)" and "s < sz + 8"
  shows "lseg (heap_take heapp sz q a m) ((q, sq) # bs)" and "heap_take heapp sz q a m a = \<lparr>h_next = heapp, h_size = s\<rparr>"
    and "untouched q ((a, s) # bs) m (heap_take heapp sz q a m)"
proof -
  have ne: "a \<noteq> q" using far_neq [OF assms(3), of "(a, s)"] by simp
  have fq: "far q bs" and fa: "far a bs" using assms(3) gaps_far [OF assms(2), of a] by (simp_all add: far_Cons)
  have t: "heap_take heapp sz q a m = m(q := (m q)\<lparr>h_next := h_next (m a)\<rparr>, a := (m a)\<lparr>h_next := heapp\<rparr>)"
    using assms(1,4) ne by (simp add: heap_take_def Let_def)
  have "lseg (heap_take heapp sz q a m) bs = lseg m bs"
    by (rule lseg_frame) (use far_neq [OF fq] far_neq [OF fa] in \<open>auto simp: t\<close>)
  then show "lseg (heap_take heapp sz q a m) ((q, sq) # bs)" using assms(1) ne by (simp add: t split: list.splits)
  show "heap_take heapp sz q a m a = \<lparr>h_next = heapp, h_size = s\<rparr>" using assms(1) by (simp add: t)
  show "untouched q ((a, s) # bs) m (heap_take heapp sz q a m)"
    by (auto simp: untouched_def t far_Cons inside_def)
qed

lemma heap_take_split:
  assumes "lseg m ((q, sq) # (a, s) # bs)" and "gaps ((a, s) # bs)" and "far q ((a, s) # bs)" and "\<not> s < sz + 8"
    and "sz \<le> s" and "good (a, s)"
  shows "lseg (heap_take heapp sz q a m) ((q, sq) # (a + 8 + sz, s - 8 - sz) # bs)"
    and "heap_take heapp sz q a m a = \<lparr>h_next = heapp, h_size = sz\<rparr>"
    and "untouched q ((a, s) # bs) m (heap_take heapp sz q a m)"
proof -
  let ?f = "a + 8 + sz"
  have le: "unat sz \<le> unat s" using assms(5) by (simp add: word_le_nat_alt)
  have "unat (sz + 8) = unat sz + 8" using le assms(6) by (simp add: good_def unat_word_ariths)
  then have s8: "unat sz + 8 \<le> unat s" using assms(4) by (simp add: word_less_nat_alt)
  have uf: "unat ?f = unat a + 8 + unat sz" using le assms(6) by (simp add: good_def unat_word_ariths)
  have inf: "inside (unat ?f) (ext (a, s))" using s8 by (simp add: inside_def uf)
  have "unat ?f \<noteq> unat a" using uf by linarith
  then have fa: "?f \<noteq> a" by metis
  have fq: "?f \<noteq> q" using inf assms(3) by (metis far_Cons)
  have ne: "a \<noteq> q" "?f \<noteq> a" "?f \<noteq> q" using far_neq [OF assms(3), of "(a, s)"] fa fq by simp_all
  have f0: "?f \<noteq> 0" using uf by (metis add_is_0 unsigned_0 numeral_neq_zero)
  have fs: "far q bs" "far a bs" "far ?f bs"
    using assms(3) gaps_far [OF assms(2), of a] gaps_far [OF assms(2), of ?f] s8 uf by (simp_all add: far_Cons)
  have t: "heap_take heapp sz q a m = m(?f := \<lparr>h_next = h_next (m a), h_size = s - 8 - sz, \<dots> = more (m ?f)\<rparr>,
      q := (m q)\<lparr>h_next := ?f\<rparr>, a := (m a)\<lparr>h_size := sz, h_next := heapp\<rparr>)"
    using assms(1,4) ne unfolding heap_take_def Let_def by (auto simp: fun_eq_iff)
  have "lseg (heap_take heapp sz q a m) bs = lseg m bs"
    by (rule lseg_frame) (use far_neq [OF fs(1)] far_neq [OF fs(2)] far_neq [OF fs(3)] in \<open>auto simp: t\<close>)
  then show "lseg (heap_take heapp sz q a m) ((q, sq) # (?f, s - 8 - sz) # bs)"
    using assms(1) ne f0 by (simp add: t split: list.splits)
  show "heap_take heapp sz q a m a = \<lparr>h_next = heapp, h_size = sz\<rparr>" by (simp add: t)
  show "untouched q ((a, s) # bs) m (heap_take heapp sz q a m)"
    using inf by (auto simp: untouched_def t far_Cons inside_def)
qed

lemma alloc_loop_refines:
  assumes "lseg m ((q, sq) # bs)" and "gaps bs" and "far q bs" and "\<forall>b \<in> set bs. good b"
  shows "case first_fit sz bs of None \<Rightarrow> alloc_loop heapp sz q m = Some (0, m)
    | Some (b, bs') \<Rightarrow> \<exists>m'. alloc_loop heapp sz q m = Some (fst b + 8, m') \<and> lseg m' ((q, sq) # bs')
        \<and> m' (fst b) = \<lparr>h_next = heapp, h_size = snd b\<rparr> \<and> untouched q bs m m'"
  using assms
proof (induction bs arbitrary: q sq)
  case Nil
  then show ?case by (simp add: alloc_loop.simps)
next
  case (Cons c bs)
  obtain a s where c: "c = (a, s)" by (cases c)
  have nx: "h_next (m q) = a" "a \<noteq> 0" "h_size (m a) = s" using Cons.prems(1) by (simp_all add: c)
  note take = heap_take_whole [OF Cons.prems(1-3) [unfolded c]] heap_take_split [OF Cons.prems(1-3) [unfolded c]]
  show ?case
  proof (cases "sz \<le> s")
    case True
    have l: "alloc_loop heapp sz q m = Some (a + 8, heap_take heapp sz q a m)"
      using nx True by (subst alloc_loop.simps) simp
    have "good (a, s)" using Cons.prems(4) c by simp
    then show ?thesis using l True take by (cases "s < sz + 8") (simp_all add: c)
  next
    case False
    have l: "alloc_loop heapp sz q m = alloc_loop heapp sz a m"
      using nx False by (subst alloc_loop.simps) simp
    have fa: "far a bs" using gaps_far [of "(a, s)" bs a] Cons.prems(2) c by simp
    have ih: "case first_fit sz bs of None \<Rightarrow> alloc_loop heapp sz a m = Some (0, m)
      | Some (b, bs') \<Rightarrow> \<exists>m'. alloc_loop heapp sz a m = Some (fst b + 8, m') \<and> lseg m' ((a, s) # bs')
          \<and> m' (fst b) = \<lparr>h_next = heapp, h_size = snd b\<rparr> \<and> untouched a bs m m'"
      by (rule Cons.IH) (use Cons.prems fa in \<open>auto simp: c\<close>)
    show ?thesis
    proof (cases "first_fit sz bs")
      case None
      then show ?thesis using ih l False by (simp add: c)
    next
      case (Some r)
      obtain b bs' where r: "r = (b, bs')" by (cases r)
      from ih obtain m' where m': "alloc_loop heapp sz a m = Some (fst b + 8, m')" "lseg m' ((a, s) # bs')"
        "m' (fst b) = \<lparr>h_next = heapp, h_size = snd b\<rparr>" "untouched a bs m m'" by (auto simp: Some r)
      have "q \<noteq> a" "far q bs" using far_neq [OF Cons.prems(3), of "(a, s)"] Cons.prems(3) by (auto simp: c far_Cons)
      then have "m' q = m q" using m'(4) by (simp add: untouched_def)
      then have "lseg m' ((q, sq) # (a, s) # bs')" using m'(2) Cons.prems(1) by (simp add: c)
      moreover have "untouched q (c # bs) m m'"
        unfolding untouched_def
      proof (intro allI impI)
        fix x assume "x \<noteq> q" and x: "far x (c # bs)"
        then show "m' x = m x" using m'(4) far_neq [OF x, of c] by (simp add: untouched_def far_Cons c)
      qed
      ultimately show ?thesis using m' l False by (auto simp: c Some r)
    qed
  qed
qed

section \<open>The return of a block\<close>

lemma heap_insert_lseg:
  assumes "lseg m ((q, sq) # bs)" and "h_size (m h) = sh" and "good (h, sh)" and "h \<noteq> q"
    and "h \<notin> fst ` set bs" and "q \<notin> fst ` set bs" and "distinct (map fst bs)"
  shows "lseg (heap_insert q h m) (join (q, sq) (join (h, sh) bs))"
    and "x \<noteq> q \<Longrightarrow> x \<noteq> h \<Longrightarrow> heap_insert q h m x = m x"
proof -
  have h0: "h \<noteq> 0" using assms(3) by (simp add: good_def)
  have "unat (h + 8 + sh) \<noteq> 0" using unat_bend [OF assms(3)] by linarith
  then have lim: "h + 8 + sh \<noteq> 0" by (metis unsigned_0)
  have q0: "q \<noteq> 0" using assms(1) by simp
  show "lseg (heap_insert q h m) (join (q, sq) (join (h, sh) bs))"
  proof (cases bs)
    case Nil
    then show ?thesis using assms(1,2,4) h0 lim q0 by (auto simp: heap_insert_def LIMIT_def Let_def)
  next
    case (Cons c cs)
    obtain a s where c: "c = (a, s)" by (cases c)
    let ?m = "heap_insert q h m"
    have ne: "a \<noteq> q" "a \<noteq> h" "a \<notin> fst ` set cs" "q \<notin> fst ` set cs" "h \<notin> fst ` set cs"
      using assms(5-7) by (auto simp: Cons c)
    have eqs: "?m x = m x" if "x \<noteq> q" "x \<noteq> h" for x using that by (auto simp: heap_insert_def Let_def)
    have "?m (fst b) = m (fst b)" if "b \<in> set (c # cs)" for b
      by (rule eqs) (use that assms(5,6) Cons in \<open>metis imageI\<close>)+
    then have tl: "lseg ?m (c # cs) = lseg m (c # cs)" "lseg ?m cs = lseg m cs"
      by (auto intro!: lseg_frame simp del: lseg.simps)
    have l: "h_next (m q) = a" "h_size (m q) = sq" "h_size (m a) = s" "a \<noteq> 0" "lseg m ((a, s) # cs)"
      using assms(1) by (simp_all add: Cons c)
    show ?thesis using l tl ne assms(2,4) h0 q0
      by (cases "h + 8 + sh = a"; cases "q + 8 + sq = h") (simp_all add: Cons c heap_insert_def LIMIT_def Let_def split: list.splits)
  qed
  show "x \<noteq> q \<Longrightarrow> x \<noteq> h \<Longrightarrow> heap_insert q h m x = m x" by (auto simp: heap_insert_def Let_def)
qed

lemma join_hd: "\<exists>b rs. join x ys = b # rs \<and> fst b = fst x"
  by (cases ys; cases x) auto

lemma gaps_distinct: "gaps bs \<Longrightarrow> distinct (map fst bs)"
  by (induction bs) force+

lemma free_loop_refines:
  assumes "lseg m ((q, sq) # bs)" and "gaps bs" and "far q bs" and "\<forall>c \<in> set bs. good c"
    and "h_size (m h) = sh" and "good (h, sh)" and "\<forall>c \<in> set bs. apart (ext (h, sh)) (ext c)"
    and "h \<noteq> q" and "q = hf \<or> q < h" and "bs \<noteq> [] \<Longrightarrow> q + 8 + sq \<noteq> fst (hd bs)"
  shows "\<exists>m'. free_loop hf h q m = Some m' \<and> lseg m' (join (q, sq) (give_back (h, sh) bs))
    \<and> (\<forall>x. x \<noteq> q \<longrightarrow> x \<noteq> h \<longrightarrow> x \<notin> fst ` set bs \<longrightarrow> m' x = m x)"
  using assms
proof (induction bs arbitrary: q sq)
  case Nil
  have "free_loop hf h q m = Some (heap_insert q h m)"
    using Nil.prems(1,9) by (subst free_loop.simps) simp
  then show ?case using heap_insert_lseg [OF Nil.prems(1,5,6,8)] by simp
next
  case (Cons c bs)
  obtain a s where c: "c = (a, s)" by (cases c)
  have ga: "good (a, s)" "apart (ext (h, sh)) (ext (a, s))" using Cons.prems(4,7) by (simp_all add: c)
  have nx: "h_next (m q) = a" "a \<noteq> 0" using Cons.prems(1) by (simp_all add: c)
  have hn: "h \<notin> fst ` set (c # bs)" using Cons.prems(7) by (auto simp: apart_def)
  have qn: "q \<notin> fst ` set (c # bs)" using far_neq [OF Cons.prems(3)] by blast
  show ?case
  proof (cases "h < a")
    case True
    have "free_loop hf h q m = Some (heap_insert q h m)"
      using nx True Cons.prems(9) by (subst free_loop.simps) simp
    then show ?thesis
      using heap_insert_lseg [OF Cons.prems(1,5,6,8) hn qn gaps_distinct [OF Cons.prems(2)]] True by (simp add: c)
  next
    case False
    have "a \<noteq> h" using hn c by auto
    then have lt: "a < h" using False by simp
    have l: "free_loop hf h q m = free_loop hf h a m"
      using nx False by (subst free_loop.simps) simp
    have fa: "far a bs" using gaps_far [of "(a, s)" bs a] Cons.prems(2) c by simp
    have touch: "a + 8 + s \<noteq> fst (hd bs)" if "bs \<noteq> []"
      using that Cons.prems(2) touch_iff [OF ga(1), of "fst (hd bs)"] by (cases bs) (auto simp: c)
    obtain m' where m': "free_loop hf h a m = Some m'" "lseg m' (join (a, s) (give_back (h, sh) bs))"
      "\<forall>x. x \<noteq> a \<longrightarrow> x \<noteq> h \<longrightarrow> x \<notin> fst ` set bs \<longrightarrow> m' x = m x"
      using Cons.IH [of a s] Cons.prems fa lt touch \<open>a \<noteq> h\<close> by (auto simp: c)
    let ?r = "join (a, s) (give_back (h, sh) bs)"
    have "m' q = m q" using m'(3) qn Cons.prems(8) by (auto simp: c)
    moreover obtain b rs where r: "?r = b # rs" "fst b = a"
      using join_hd [of "(a, s)" "give_back (h, sh) bs"] by auto
    moreover have "q + 8 + sq \<noteq> a" using Cons.prems(10) by (simp add: c)
    ultimately have "lseg m' (join (q, sq) ?r)" using m'(2) Cons.prems(1) by (simp add: c)
    then show ?thesis using m' l False by (auto simp: c)
  qed
qed

section \<open>The invariant of a heap\<close>

text \<open>
  \<open>R\<close> is the memory the heap manages: every byte of it is in exactly one block, free or in use.  The
  list header lies outside, and not directly before a block.
\<close>

definition heap_list :: "u32 \<Rightarrow> nat set \<Rightarrow> hmem \<Rightarrow> block list \<Rightarrow> block list \<Rightarrow> bool" where
  "heap_list heapp R m used bs \<longleftrightarrow> lseg m ((H_FREE heapp, 0) # bs) \<and> gaps bs \<and> (\<forall>b \<in> set (bs @ used). good b)
     \<and> (\<forall>x. hits (map ext (bs @ used)) x = (if x \<in> R then 1 else 0))
     \<and> (\<forall>b \<in> set used. m (fst b) = \<lparr>h_next = heapp, h_size = snd b\<rparr>)
     \<and> unat (H_FREE heapp) \<notin> R \<and> unat (H_FREE heapp + 8) \<notin> R"

definition heap_ok :: "u32 \<Rightarrow> nat set \<Rightarrow> hmem \<Rightarrow> block list \<Rightarrow> bool" where
  "heap_ok heapp R m used \<longleftrightarrow> (\<exists>bs. heap_list heapp R m used bs)"

lemma heap_listD:
  assumes "heap_list heapp R m used bs"
  shows "lseg m ((H_FREE heapp, 0) # bs)" "gaps bs" "\<And>b. b \<in> set (bs @ used) \<Longrightarrow> good b"
    "\<And>x. hits (map ext (bs @ used)) x = (if x \<in> R then 1 else 0)"
    "\<And>b. b \<in> set used \<Longrightarrow> m (fst b) = \<lparr>h_next = heapp, h_size = snd b\<rparr>"
    "unat (H_FREE heapp) \<notin> R" "unat (H_FREE heapp + 8) \<notin> R"
  using assms unfolding heap_list_def by blast+

lemma heap_start:
  assumes "heap_list heapp R m used bs" and "b \<in> set (bs @ used)" and "inside x (ext b)"
  shows "x \<in> R"
proof -
  have "0 < hits (map ext (bs @ used)) x" by (rule hits_mem [of "ext b"]) (use assms in auto)
  then show ?thesis using heap_listD(4) [OF assms(1), of x] by (simp split: if_splits)
qed

lemma heap_first: "heap_list heapp R m used bs \<Longrightarrow> b \<in> set (bs @ used) \<Longrightarrow> unat (fst b) \<in> R"
  by (rule heap_start [of _ _ _ _ _ b]) (simp_all add: inside_def)

lemma heap_far:
  assumes "heap_list heapp R m used bs"
  shows "far (H_FREE heapp) bs" and "b \<in> set used \<Longrightarrow> far (fst b) bs \<and> fst b \<noteq> H_FREE heapp"
proof -
  show "far (H_FREE heapp) bs"
    using heap_start [OF assms] heap_listD(6) [OF assms] unfolding far_def by (metis Un_iff set_append)
  assume b: "b \<in> set used"
  have "fst b \<noteq> H_FREE heapp" using heap_first [OF assms, of b] heap_listD(6) [OF assms] b by auto
  moreover have "far (fst b) bs"
  proof -
    let ?x = "unat (fst b)"
    have "0 < hits (map ext used) ?x" by (rule hits_mem [of "ext b"]) (use b in \<open>auto simp: inside_def\<close>)
    moreover have "hits (map ext bs) ?x + hits (map ext used) ?x \<le> 1" using heap_listD(4) [OF assms, of ?x] by simp
    ultimately have "\<not> 0 < hits (map ext bs) ?x" by simp
    then show ?thesis by (auto simp: far_def hits_pos)
  qed
  ultimately show "far (fst b) bs \<and> fst b \<noteq> H_FREE heapp" by blast
qed

lemma heap_apart:
  assumes "heap_list heapp R m used bs" and "b \<in> set used"
  shows "c \<in> set (bs @ remove1 b used) \<Longrightarrow> apart (ext b) (ext c)"
proof -
  assume c: "c \<in> set (bs @ remove1 b used)"
  have "mset (bs @ used) = mset (b # bs @ remove1 b used)" using assms(2) by simp
  then have "mset (map ext (bs @ used)) = mset (map ext (b # bs @ remove1 b used))" by (simp only: mset_map)
  then have "mset (map ext (bs @ used)) = mset (ext b # map ext (bs @ remove1 b used))" by (simp only: list.map)
  from hits_perm [OF this] have "hits (ext b # map ext (bs @ remove1 b used)) x = (if x \<in> R then 1 else 0)" for x
    using heap_listD(4) [OF assms(1), of x] by (simp only:)
  then have "hits (ext b # map ext (bs @ remove1 b used)) x \<le> 1" for x
    by (simp only: split: if_split) simp
  then show ?thesis using c by (intro apart_hits [of _ "map ext (bs @ remove1 b used)"]) auto
qed

section \<open>The operations keep the invariant\<close>

lemma heap_free_ok:
  assumes "heap_list heapp R m used bs" and "b \<in> set used"
  shows "\<exists>m'. chHeapFree (fst b + 8) m = Some m' \<and> heap_list heapp R m' (remove1 b used) (give_back b bs)"
proof -
  note inv = heap_listD [OF assms(1)]
  let ?hf = "H_FREE heapp"
  have gb: "good (fst b, snd b)" using inv(3) assms(2) by simp
  have apb: "\<forall>c \<in> set bs. apart (ext b) (ext c)" using heap_apart [OF assms] by simp
  have gbs: "\<forall>c \<in> set bs. good c" using inv(3) by simp
  have mb: "m (fst b) = \<lparr>h_next = heapp, h_size = snd b\<rparr>" by (rule inv(5) [OF assms(2)])
  have hb: "fst b \<noteq> ?hf" using heap_far(2) [OF assms] by blast
  have starts: "fst c \<noteq> ?hf + 8" if "c \<in> set (bs @ used)" for c using heap_first [OF assms(1) that] inv(7) by metis
  obtain m' where m': "free_loop ?hf (fst b) ?hf m = Some m'" "lseg m' (join (?hf, 0) (give_back (fst b, snd b) bs))"
    "\<forall>x. x \<noteq> ?hf \<longrightarrow> x \<noteq> fst b \<longrightarrow> x \<notin> fst ` set bs \<longrightarrow> m' x = m x"
    using free_loop_refines [OF inv(1,2) heap_far(1) [OF assms(1)] gbs _ gb, of ?hf] mb hb apb starts [of "hd bs"]
    by (metis (no_types, lifting) add.right_neutral heap_header.select_convs(2) hd_in_set prod.collapse Un_iff set_append)
  have gp: "(\<forall>c \<in> set (give_back b bs). good c) \<and> hits (map ext (give_back b bs)) x = hits (map ext (b # bs)) x
      \<and> gaps (give_back b bs) \<and> fst ` set (give_back b bs) \<subseteq> fst ` set (b # bs)" for x
    by (rule give_back_props) (use gb gbs inv(2) apb in auto)
  have "join (?hf, 0) (give_back b bs) = (?hf, 0) # give_back b bs"
  proof (cases "give_back b bs")
    case (Cons c cs)
    then have "fst c \<in> fst ` set (b # bs)" using gp by force
    then obtain d where "d \<in> set (b # bs)" "fst d = fst c" by (metis imageE)
    then have "fst c \<noteq> ?hf + 8" using starts [of d] assms(2) by auto
    then show ?thesis by (simp add: Cons)
  qed simp
  then have "lseg m' ((?hf, 0) # give_back b bs)" using m'(2) by simp
  moreover have "hits (map ext (give_back b bs @ remove1 b used)) x = (if x \<in> R then 1 else 0)" for x
  proof -
    have "mset (bs @ used) = mset ((b # bs) @ remove1 b used)" using assms(2) by simp
    then have "mset (map ext (bs @ used)) = mset (map ext ((b # bs) @ remove1 b used))" by (simp only: mset_map)
    from hits_perm [OF this, of x] show ?thesis using inv(4) [of x] gp [of x] by simp
  qed
  moreover have "m' (fst d) = \<lparr>h_next = heapp, h_size = snd d\<rparr>" if "d \<in> set (remove1 b used)" for d
  proof -
    have d: "d \<in> set used" using that set_remove1_subset by fastforce
    have "fst d \<noteq> fst b" using heap_apart [OF assms, of d] that by (auto simp: apart_def)
    moreover have "fst d \<noteq> ?hf" "fst d \<notin> fst ` set bs" using heap_far(2) [OF assms(1) d] by (auto dest: far_neq)
    ultimately show ?thesis using m'(3) inv(5) [OF d] by simp
  qed
  moreover have "\<forall>c \<in> set (give_back b bs @ remove1 b used). good c"
    using gp inv(3) set_remove1_subset [of b used] by auto
  moreover have "chHeapFree (fst b + 8) m = Some m'" using m'(1) mb by (simp add: chHeapFree_def)
  ultimately show ?thesis using inv(6,7) gp by (auto simp: heap_list_def)
qed

lemma heap_search_ok:
  assumes "heap_list heapp R m used bs" and "8 dvd unat sz"
  shows "case first_fit sz bs of None \<Rightarrow> alloc_loop heapp sz (H_FREE heapp) m = Some (0, m)
    | Some (b, bs') \<Rightarrow> \<exists>m'. alloc_loop heapp sz (H_FREE heapp) m = Some (fst b + 8, m') \<and> sz \<le> snd b
        \<and> heap_list heapp R m' (b # used) bs'"
proof -
  note inv = heap_listD [OF assms(1)]
  have gbs: "\<forall>c \<in> set bs. good c" using inv(3) by simp
  note al = alloc_loop_refines [OF inv(1,2) heap_far(1) [OF assms(1)] gbs, where sz = sz and heapp = heapp]
  show ?thesis
  proof (cases "first_fit sz bs")
    case (Some r)
    obtain b bs' where r: "r = (b, bs')" by (cases r)
    from al obtain m' where m': "alloc_loop heapp sz (H_FREE heapp) m = Some (fst b + 8, m')"
      "lseg m' ((H_FREE heapp, 0) # bs')" "m' (fst b) = \<lparr>h_next = heapp, h_size = snd b\<rparr>" "untouched (H_FREE heapp) bs m m'"
      by (auto simp: Some r simp del: lseg.simps)
    note ff = first_fit_props [OF Some [unfolded r] gbs inv(2) assms(2)]
    have "m' (fst d) = \<lparr>h_next = heapp, h_size = snd d\<rparr>" if "d \<in> set used" for d
      using m'(4) heap_far(2) [OF assms(1) that] inv(5) [OF that] by (simp add: untouched_def)
    moreover have "hits (map ext (bs' @ b # used)) x = (if x \<in> R then 1 else 0)" for x
      using inv(4) [of x] ff [of x] by simp
    ultimately have "heap_list heapp R m' (b # used) bs'"
      using m'(2,3) ff inv(3,6,7) unfolding heap_list_def by auto
    then show ?thesis using m'(1) ff by (auto simp: Some r)
  qed (use al in simp)
qed

text \<open>The memory of a heap and its list header lie outside the free range of its provider.\<close>

definition outside :: "u32 \<Rightarrow> nat set \<Rightarrow> nat \<Rightarrow> nat \<Rightarrow> bool" where
  "outside heapp R brk limit \<longleftrightarrow> (\<forall>x \<in> R \<union> {unat (H_FREE heapp), unat (H_FREE heapp + 8)}. x < brk \<or> limit \<le> x)"

definition heap_fit :: "u32 \<Rightarrow> nat set \<Rightarrow> ('c \<Rightarrow> bool) \<Rightarrow> ('c \<Rightarrow> nat) \<Rightarrow> ('c \<Rightarrow> nat) \<Rightarrow> (hmem \<times> 'c) \<times> block list \<Rightarrow> bool" where
  "heap_fit heapp R prov_ok brk limit = (\<lambda>((m, c), used). prov_ok c \<and> outside heapp R (brk c) (limit c) \<and> heap_ok heapp R m used)"

lemma heap_grow:
  assumes "heap_list heapp R m used bs" and "good (hp, sz)"
    and out: "\<forall>x \<in> R \<union> {unat (H_FREE heapp), unat (H_FREE heapp + 8)}. \<not> inside x (ext (hp, sz))"
  shows "heap_list heapp (R \<union> {unat hp..<unat hp + 8 + unat sz}) (m(hp := \<lparr>h_next = heapp, h_size = sz\<rparr>)) ((hp, sz) # used) bs"
proof -
  note inv = heap_listD [OF assms(1)]
  let ?m = "m(hp := \<lparr>h_next = heapp, h_size = sz\<rparr>)"
  have new: "inside x (ext (hp, sz)) \<longleftrightarrow> unat hp \<le> x \<and> x < unat hp + 8 + unat sz" for x by (auto simp: inside_def)
  have hpR: "unat hp \<notin> R" "hp \<noteq> H_FREE heapp" using out new [of "unat hp"] by auto
  have ne: "fst b \<noteq> hp" if "b \<in> set (bs @ used)" for b using heap_first [OF assms(1) that] hpR(1) by auto
  have "lseg ?m ((H_FREE heapp, 0) # bs) = lseg m ((H_FREE heapp, 0) # bs)"
    by (rule lseg_frame) (use ne hpR(2) in auto)
  moreover have "hits (map ext (bs @ (hp, sz) # used)) x = (if x \<in> R \<union> {unat hp..<unat hp + 8 + unat sz} then 1 else 0)" for x
    using inv(4) [of x] out new [of x] by auto
  moreover have "unat (H_FREE heapp) \<notin> {unat hp..<unat hp + 8 + unat sz}" "unat (H_FREE heapp + 8) \<notin> {unat hp..<unat hp + 8 + unat sz}"
    using out unfolding new by auto
  ultimately show ?thesis using inv ne assms(2) by (auto simp: heap_list_def)
qed

lemma small_align:
  assumes "unat size0 \<le> 2 ^ 32 - 16"
  shows "8 dvd unat (MEM_ALIGN_NEXT size0)" and "unat size0 \<le> unat (MEM_ALIGN_NEXT size0)"
    and "unat (MEM_ALIGN_NEXT size0 + 8) = unat (MEM_ALIGN_NEXT size0) + 8" and "unat (MEM_ALIGN_NEXT size0) \<le> 2 ^ 32 - 16"
proof -
  have le: "unat size0 \<le> 2 ^ 32 - 8" using assms by simp
  note b = align_next_bounds [OF le]
  show "8 dvd unat (MEM_ALIGN_NEXT size0)" "unat size0 \<le> unat (MEM_ALIGN_NEXT size0)" using b by simp_all
  show u: "unat (MEM_ALIGN_NEXT size0) \<le> 2 ^ 32 - 16" using b(2,3) assms by (auto elim!: dvdE)
  show "unat (MEM_ALIGN_NEXT size0 + 8) = unat (MEM_ALIGN_NEXT size0) + 8" using u by (simp add: unat_word_ariths)
qed

context memget
begin

lemma heap_alloc_ok:
  assumes "heap_fit heapp R prov_ok brk limit ((m, c), used)" and "heapp \<noteq> 0" and "unat size0 \<le> 2 ^ 32 - 16"
    and "prov = None \<or> prov = Some get"
  shows "\<exists>p m' c'. chHeapAlloc dh prov heapp size0 (m, c) = Some (p, m', c') \<and>
    (if p = 0 then heap_fit heapp R prov_ok brk limit ((m', c'), used)
     else \<exists>s R'. R \<subseteq> R' \<and> (prov = None \<longrightarrow> R' = R) \<and> unat size0 \<le> unat s \<and> m' (p - 8) = \<lparr>h_next = heapp, h_size = s\<rparr>
        \<and> heap_fit heapp R' prov_ok brk limit ((m', c'), (p - 8, s) # used))"
proof -
  define sz where "sz = MEM_ALIGN_NEXT size0"
  note al = small_align [OF assms(3), folded sz_def]
  from assms(1) obtain bs where l: "heap_list heapp R m used bs" and ok: "prov_ok c" and out: "outside heapp R (brk c) (limit c)"
    by (auto simp: heap_fit_def heap_ok_def)
  note se = heap_search_ok [OF l al(1)]
  have p8: "fst b + 8 \<noteq> 0" if "good b" for b
  proof -
    have "unat (fst b + 8) = unat (fst b) + 8" using that by (simp add: good_def unat_word_ariths)
    then show ?thesis by (metis add_is_0 numeral_neq_zero unsigned_0)
  qed
  show ?thesis
  proof (cases "first_fit sz bs")
    case (Some r)
    obtain b bs' where r: "r = (b, bs')" by (cases r)
    from se obtain m' where m': "alloc_loop heapp sz (H_FREE heapp) m = Some (fst b + 8, m')" "sz \<le> snd b"
      "heap_list heapp R m' (b # used) bs'" by (auto simp: Some r)
    have nz: "fst b + 8 \<noteq> 0" using p8 heap_listD(3) [OF m'(3), of b] by simp
    have "chHeapAlloc dh prov heapp size0 (m, c) = Some (fst b + 8, m', c)"
      using m'(1) nz assms(2) by (simp add: chHeapAlloc_def sz_def [symmetric] Let_def)
    moreover have "heap_fit heapp R prov_ok brk limit ((m', c), (fst b + 8 - 8, snd b) # used)"
      using m'(3) ok out by (auto simp: heap_fit_def heap_ok_def)
    moreover have "unat size0 \<le> unat (snd b)" using al(2) m'(2) by (simp add: word_le_nat_alt)
    moreover have "m' (fst b + 8 - 8) = \<lparr>h_next = heapp, h_size = snd b\<rparr>" using heap_listD(5) [OF m'(3), of b] by simp
    ultimately show ?thesis using nz by (intro exI [of _ "fst b + 8"] exI [of _ m'] exI [of _ c]) auto
  next
    case None
    have al0: "alloc_loop heapp sz (H_FREE heapp) m = Some (0, m)" using se None by simp
    have none: "chHeapAlloc dh prov heapp size0 (m, c) =
        (case prov of None \<Rightarrow> Some (0, m, c) | Some get \<Rightarrow> (case get (sz + 8) c of (hp, c') \<Rightarrow>
           if hp \<noteq> 0 then Some (hp + 8, m(hp := \<lparr>h_next = heapp, h_size = sz\<rparr>), c') else Some (0, m, c')))"
      using al0 assms(2) by (simp add: chHeapAlloc_def sz_def [symmetric] Let_def split: option.splits)
    show ?thesis
    proof (cases "prov = None \<or> fst (get (sz + 8) c) = 0")
      case True
      then have "chHeapAlloc dh prov heapp size0 (m, c) = Some (0, m, c)"
        using none assms(4) get_none [OF ok, of "sz + 8"] by (auto split: prod.splits)
      then show ?thesis using assms(1) by simp
    next
      case False
      define hp where "hp = fst (get (sz + 8) c)"
      define c' where "c' = snd (get (sz + 8) c)"
      have nz: "hp \<noteq> 0" using False by (simp add: hp_def)
      have n8: "unat (sz + 8) \<le> 2 ^ 32 - 8" using al(3,4) by simp
      note gs = get_some [OF ok n8 nz [unfolded hp_def], folded hp_def c'_def] and top = brk_limit [OF get_ok [OF ok, of "sz + 8"], folded c'_def]
      have lim: "limit c' = limit c" unfolding c'_def by (rule get_limit [OF ok])
      have g: "good (hp, sz)" using gs top al(1,3) nz by (auto simp: good_def)
      have "\<forall>x \<in> R \<union> {unat (H_FREE heapp), unat (H_FREE heapp + 8)}. \<not> inside x (ext (hp, sz))"
        using out gs top al(3) lim unfolding outside_def inside_def by fastforce
      note hg = heap_grow [OF l g this]
      have "outside heapp (R \<union> {unat hp..<unat hp + 8 + unat sz}) (brk c') (limit c')"
        using out gs top al(3) lim unfolding outside_def by fastforce
      then have fit: "heap_fit heapp (R \<union> {unat hp..<unat hp + 8 + unat sz}) prov_ok brk limit
          ((m(hp := \<lparr>h_next = heapp, h_size = sz\<rparr>), c'), (hp, sz) # used)"
        using hg get_ok [OF ok, of "sz + 8"] by (auto simp: heap_fit_def heap_ok_def c'_def)
      have "chHeapAlloc dh prov heapp size0 (m, c) = Some (hp + 8, m(hp := \<lparr>h_next = heapp, h_size = sz\<rparr>), c')"
        using none assms(4) False by (auto simp: hp_def c'_def split: prod.splits)
      moreover have "hp + 8 \<noteq> 0" using p8 [OF g] by simp
      moreover have "R \<subseteq> R \<union> {unat hp..<unat hp + 8 + unat sz}" by simp
      ultimately show ?thesis
        using fit al(2) False by (intro exI [of _ "hp + 8"] exI [of _ "m(hp := \<lparr>h_next = heapp, h_size = sz\<rparr>)"] exI [of _ c']) auto
    qed
  qed
qed

end

section \<open>Sequences of calls\<close>

text \<open>The calls on a heap, with the blocks in use; requests within 16 bytes of the address space are excluded.\<close>

inductive heap_step :: "u32 \<Rightarrow> 'c provider \<Rightarrow> u32 \<Rightarrow> (hmem \<times> 'c) \<times> block list \<Rightarrow> (hmem \<times> 'c) \<times> block list \<Rightarrow> bool"
  for dh prov heapp where
  alloc: "unat size0 \<le> 2 ^ 32 - 16 \<Longrightarrow> chHeapAlloc dh prov heapp size0 (m, c) = Some (p, m', c') \<Longrightarrow>
    heap_step dh prov heapp ((m, c), used) ((m', c'), if p = 0 then used else (p - 8, h_size (m' (p - 8))) # used)"
| free: "b \<in> set used \<Longrightarrow> chHeapFree (fst b + 8) m = Some m' \<Longrightarrow>
    heap_step dh prov heapp ((m, c), used) ((m', c), remove1 b used)"

context memget
begin

lemma heap_steps_fit:
  assumes "(heap_step dh prov heapp)\<^sup>*\<^sup>* s s'" and "heap_fit heapp R prov_ok brk limit s" and "heapp \<noteq> 0"
    and "prov = None \<or> prov = Some get"
  shows "\<exists>R'. heap_fit heapp R' prov_ok brk limit s' \<and> (prov = None \<longrightarrow> R' = R)"
  using assms(1)
proof (induction rule: rtranclp_induct)
  case base
  then show ?case using assms(2) by blast
next
  case (step s' s'')
  then obtain R' where R': "heap_fit heapp R' prov_ok brk limit s'" "prov = None \<longrightarrow> R' = R" by blast
  from step(2) show ?case
  proof cases
    case (alloc size0 m c p m' c' used)
    show ?thesis
      using heap_alloc_ok [OF R'(1) [unfolded alloc(1)] assms(3) alloc(3) assms(4), of dh] alloc(2,4) R'(2)
      by (cases "p = 0") auto
  next
    case (free b used m m' c)
    from R'(1) obtain bs where "heap_list heapp R' m used bs" "prov_ok c" "outside heapp R' (brk c) (limit c)"
      by (auto simp: heap_fit_def heap_ok_def free(1))
    with heap_free_ok [OF this(1) free(3)] free(4) show ?thesis
      using R'(2) by (auto simp: free(2) heap_fit_def heap_ok_def)
  qed
qed

text \<open>What a client sees in such a state: blocks in use do not overlap, and every call returns.\<close>

lemma heap_fit_client:
  assumes "heap_fit heapp R prov_ok brk limit ((m, c), used)" and "heapp \<noteq> 0" and "prov = None \<or> prov = Some get"
  shows "distinct used \<and> (\<forall>b \<in> set used. 8 dvd unat (fst b) \<and> {unat (fst b)..<bend b} \<subseteq> R
      \<and> m (fst b) = \<lparr>h_next = heapp, h_size = snd b\<rparr>)"
    and "\<forall>b \<in> set used. \<forall>d \<in> set used. b \<noteq> d \<longrightarrow> apart (ext b) (ext d)"
    and "unat size0 \<le> 2 ^ 32 - 16 \<Longrightarrow> \<exists>r. chHeapAlloc dh prov heapp size0 (m, c) = Some r"
    and "b \<in> set used \<Longrightarrow> \<exists>m'. chHeapFree (fst b + 8) m = Some m'"
proof -
  from assms(1) obtain bs where l: "heap_list heapp R m used bs" by (auto simp: heap_fit_def heap_ok_def)
  note inv = heap_listD [OF l]
  show ap: "\<forall>b \<in> set used. \<forall>d \<in> set used. b \<noteq> d \<longrightarrow> apart (ext b) (ext d)"
    using heap_apart [OF l] in_set_remove1 by fastforce
  have "distinct used"
  proof (rule ccontr)
    assume "\<not> distinct used"
    then obtain xs b ys zs where "used = xs @ [b] @ ys @ [b] @ zs" using not_distinct_decomp by blast
    then have "b \<in> set used" "b \<in> set (remove1 b used)" by (simp_all add: remove1_append)
    then have "apart (ext b) (ext b)" using heap_apart [OF l] by simp
    then show False by (simp add: apart_def)
  qed
  moreover have "{unat (fst b)..<bend b} \<subseteq> R" if "b \<in> set used" for b
    using heap_start [OF l, of b] that by (auto simp: inside_def)
  ultimately show "distinct used \<and> (\<forall>b \<in> set used. 8 dvd unat (fst b) \<and> {unat (fst b)..<bend b} \<subseteq> R
      \<and> m (fst b) = \<lparr>h_next = heapp, h_size = snd b\<rparr>)"
    using inv(3,5) by (auto simp: good_def)
  show "unat size0 \<le> 2 ^ 32 - 16 \<Longrightarrow> \<exists>r. chHeapAlloc dh prov heapp size0 (m, c) = Some r"
    using heap_alloc_ok [OF assms(1,2) _ assms(3), of size0 dh] by blast
  show "b \<in> set used \<Longrightarrow> \<exists>m'. chHeapFree (fst b + 8) m = Some m'"
    using heap_free_ok [OF l] by blast
qed

end

text \<open>A heap without a provider.\<close>

interpretation nomem: memget "\<lambda>n c. (0, c)" "\<lambda>_ :: unit. True" "\<lambda>_. 1" "\<lambda>_. 1"
  by unfold_locales simp_all

definition heap_layout :: "u32 \<Rightarrow> u32 \<Rightarrow> u32 \<Rightarrow> bool" where
  "heap_layout heapp buf sz \<longleftrightarrow> heapp \<noteq> 0 \<and> H_FREE heapp \<noteq> 0 \<and> buf \<noteq> 0 \<and> MEM_IS_ALIGNED buf \<and> MEM_IS_ALIGNED sz
     \<and> 8 \<le> unat sz \<and> unat buf + unat sz < 2 ^ 32
     \<and> \<not> inside (unat (H_FREE heapp)) (unat buf, unat sz) \<and> \<not> inside (unat (H_FREE heapp + 8)) (unat buf, unat sz)"

lemma aligned_dvd: "MEM_IS_ALIGNED p \<Longrightarrow> 8 dvd unat p"
proof -
  assume "MEM_IS_ALIGNED p"
  then have "p AND mask 3 = 0" by (simp add: MEM_IS_ALIGNED_def MEM_ALIGN_MASK_def mask_eq_exp_minus_1)
  then have "take_bit 3 p = 0" by (simp add: take_bit_eq_mask)
  then have "take_bit 3 (unat p) = 0" by (metis unsigned_0 unsigned_take_bit_eq)
  then show ?thesis by (simp add: take_bit_eq_0_iff)
qed

lemma heap_object_init:
  assumes "heap_layout heapp buf sz"
  shows "heap_list heapp {unat buf..<unat buf + unat sz} (chHeapObjectInit heapp buf sz m) [] [(buf, sz - 8)]"
proof -
  have u: "unat (sz - 8) = unat sz - 8" using assms by (simp add: heap_layout_def unat_sub word_le_nat_alt)
  have d: "8 dvd unat buf" "8 dvd unat sz" using assms aligned_dvd by (auto simp: heap_layout_def)
  have g: "good (buf, sz - 8)" using assms d u by (auto simp: heap_layout_def good_def)
  have "H_FREE heapp \<noteq> buf" using assms by (auto simp: heap_layout_def inside_def)
  then have "lseg (chHeapObjectInit heapp buf sz m) [(H_FREE heapp, 0), (buf, sz - 8)]"
    using assms by (auto simp: heap_layout_def chHeapObjectInit_def)
  then show ?thesis using g u assms by (auto simp: heap_list_def heap_layout_def inside_def)
qed

section \<open>Properties\<close>

text \<open>
  C27: heap blocks never overlap.  After any sequence of allocations and releases on a heap over a
  static buffer the blocks in use are aligned, lie with their headers inside the buffer, do not
  overlap and carry their owner and size; every further request of less than \<open>2\<^sup>3\<^sup>2 - 16\<close> bytes and
  every release of a block in use returns.
\<close>

theorem heap_blocks_disjoint:
  assumes "heap_layout heapp buf sz"
    and "(heap_step dh None heapp)\<^sup>*\<^sup>* ((chHeapObjectInit heapp buf sz m0, ()), []) ((m, ()), used)"
  shows "distinct used
    \<and> (\<forall>b \<in> set used. 8 dvd unat (fst b) \<and> unat buf \<le> unat (fst b) \<and> bend b \<le> unat buf + unat sz
        \<and> m (fst b) = \<lparr>h_next = heapp, h_size = snd b\<rparr> \<and> (\<exists>m'. chHeapFree (fst b + 8) m = Some m'))
    \<and> (\<forall>b \<in> set used. \<forall>d \<in> set used. b \<noteq> d \<longrightarrow> apart (ext b) (ext d))
    \<and> (\<forall>size0. unat size0 \<le> 2 ^ 32 - 16 \<longrightarrow> (\<exists>r. chHeapAlloc dh None heapp size0 (m, ()) = Some r))"
proof -
  have h: "heapp \<noteq> 0" using assms(1) by (simp add: heap_layout_def)
  have "heap_fit heapp {unat buf..<unat buf + unat sz} (\<lambda>_. True) (\<lambda>_. 1) (\<lambda>_. 1) ((chHeapObjectInit heapp buf sz m0, ()), [])"
    using heap_object_init [OF assms(1)] by (auto simp: heap_fit_def heap_ok_def outside_def)
  from nomem.heap_steps_fit [OF assms(2) this h]
  have fit: "heap_fit heapp {unat buf..<unat buf + unat sz} (\<lambda>_. True) (\<lambda>_. 1) (\<lambda>_. 1) ((m, ()), used)" by auto
  note cl = nomem.heap_fit_client [OF fit h, of None]
  have "unat buf \<le> unat (fst b) \<and> bend b \<le> unat buf + unat sz" if "b \<in> set used" for b
  proof -
    have "{unat (fst b)..<bend b} \<subseteq> {unat buf..<unat buf + unat sz}" using cl(1) that by blast
    then show ?thesis by (simp add: atLeastLessThan_subset_iff)
  qed
  moreover have "\<exists>m'. chHeapFree (fst b + 8) m = Some m'" if "b \<in> set used" for b using cl(4) that by simp
  moreover have "\<exists>r. chHeapAlloc dh None heapp size0 (m, ()) = Some r" if "unat size0 \<le> 2 ^ 32 - 16" for size0 using cl(3) that by simp
  ultimately show ?thesis using cl(1,2) by (intro conjI ballI allI impI) simp_all
qed

lemma heap_whole:
  assumes "heap_list heapp {lo..<hi} m [] bs" and "lo < hi"
  shows "\<exists>a s. bs = [(a, s)] \<and> unat a = lo \<and> unat a + 8 + unat s = hi"
proof -
  note inv = heap_listD [OF assms(1)]
  have cov: "\<exists>d \<in> set bs. inside x (ext d)" if "lo \<le> x" "x < hi" for x
  proof -
    have "0 < hits (map ext bs) x" using inv(4) [of x] that by simp
    then show ?thesis by (simp add: hits_pos)
  qed
  have R: "lo \<le> unat (fst d) \<and> bend d \<le> hi" if "d \<in> set bs" for d
    using heap_start [OF assms(1), of d "unat (fst d)"] heap_start [OF assms(1), of d "bend d - 1"] that
    by (auto simp: inside_def)
  obtain b cs where bs: "bs = b # cs" using cov [of lo] assms(2) by (cases bs) auto
  have later: "bend b < unat (fst d)" if "d \<in> set cs" for d using inv(2) that by (simp add: bs)
  have b: "unat (fst b) = lo"
    using cov [of lo] R [of b] later assms(2) by (fastforce simp: bs inside_def)
  have "cs = []"
  proof (rule ccontr)
    assume "cs \<noteq> []"
    then obtain c where c: "c \<in> set cs" by (cases cs) auto
    have "bend b < hi" using later [OF c] R [of c] c by (simp add: bs)
    with cov [of "bend b"] b obtain d where d: "d \<in> set bs" "inside (bend b) (ext d)" by auto
    then show False using later [of d] by (auto simp: bs inside_def)
  qed
  moreover have "bend b = hi"
  proof -
    have "inside (hi - 1) (ext b)" using cov [of "hi - 1"] assms(2) \<open>cs = []\<close> by (simp add: bs)
    then show ?thesis using R [of b] by (auto simp: bs inside_def)
  qed
  ultimately show ?thesis using b by (cases b) (auto simp: bs)
qed

text \<open>
  C28: a heap is whole again when everything is returned.  After any sequence of calls that leaves no
  block in use, in whatever order the blocks were returned, the free list is one block over the whole
  buffer, as after the initialisation: the status is one fragment of the full size, and any request
  that fits the empty heap is served.
\<close>

theorem heap_whole_again:
  assumes "heap_layout heapp buf sz"
    and "(heap_step dh None heapp)\<^sup>*\<^sup>* ((chHeapObjectInit heapp buf sz m0, ()), []) ((m, ()), [])"
  shows "chHeapStatus dh heapp m = Some (1, sz - 8)
    \<and> (\<forall>size0. unat size0 \<le> unat sz - 8 \<longrightarrow> (\<exists>m'. chHeapAlloc dh None heapp size0 (m, ()) = Some (buf + 8, m', ())))"
proof -
  have h: "heapp \<noteq> 0" and sz: "8 \<le> unat sz" "unat buf + unat sz < 2 ^ 32" "MEM_IS_ALIGNED sz" using assms(1) by (simp_all add: heap_layout_def)
  have "heap_fit heapp {unat buf..<unat buf + unat sz} (\<lambda>_. True) (\<lambda>_. 1) (\<lambda>_. 1) ((chHeapObjectInit heapp buf sz m0, ()), [])"
    using heap_object_init [OF assms(1)] by (auto simp: heap_fit_def heap_ok_def outside_def)
  from nomem.heap_steps_fit [OF assms(2) this h]
  obtain bs where l: "heap_list heapp {unat buf..<unat buf + unat sz} m [] bs" by (auto simp: heap_fit_def heap_ok_def)
  from heap_whole [OF l] sz(1) obtain a s where bs: "bs = [(a, s)]" "unat a = unat buf" "unat a + 8 + unat s = unat buf + unat sz" by auto
  have a: "a = buf" using bs(2) by (simp only: word_unat_eq_iff)
  have us: "unat (sz - 8) = unat sz - 8" using sz(1) by (simp add: unat_sub word_le_nat_alt)
  have "unat s = unat (sz - 8)" using bs(2,3) us by simp
  then have s: "s = sz - 8" by (simp only: word_unat_eq_iff)
  have ls: "lseg m [(H_FREE heapp, 0), (buf, sz - 8)]" using heap_listD(1) [OF l] by (simp add: bs(1) a s)
  have b0: "buf \<noteq> 0" using assms(1) by (simp add: heap_layout_def)
  have b8: "8 \<le> unat buf"
  proof -
    have "unat buf \<noteq> 0" using b0 by (metis unsigned_eq_0_iff)
    moreover have "8 dvd unat buf" using aligned_dvd assms(1) by (simp add: heap_layout_def)
    ultimately show ?thesis by (auto dest: dvd_imp_le)
  qed
  have st: "chHeapStatus dh heapp m = Some (1, sz - 8)"
    using ls h b0 unfolding chHeapStatus_def by (subst status_loop.simps, subst status_loop.simps) simp
  have "\<exists>m'. chHeapAlloc dh None heapp size0 (m, ()) = Some (buf + 8, m', ())" if "unat size0 \<le> unat sz - 8" for size0
  proof -
    have le: "unat size0 \<le> 2 ^ 32 - 16" using that sz b8 by simp
    note al = small_align [OF le]
    have "unat (MEM_ALIGN_NEXT size0) < unat sz"
      using align_next_bounds(2) [of size0] le that sz(1) by simp
    then have "unat (MEM_ALIGN_NEXT size0) \<le> unat sz - 8" using al(1) aligned_dvd [OF sz(3)] by (auto elim!: dvdE)
    then have "MEM_ALIGN_NEXT size0 \<le> sz - 8" by (simp add: word_le_nat_alt us)
    then have "alloc_loop heapp (MEM_ALIGN_NEXT size0) (H_FREE heapp) m = Some (buf + 8, heap_take heapp (MEM_ALIGN_NEXT size0) (H_FREE heapp) buf m)"
      using ls b0 by (subst alloc_loop.simps) simp
    moreover have "buf + 8 \<noteq> 0"
    proof -
      have "unat (buf + 8) = unat buf + 8" using sz by (simp add: unat_word_ariths)
      then show ?thesis by (metis add_is_0 numeral_neq_zero unsigned_0)
    qed
    ultimately show ?thesis using h by (simp add: chHeapAlloc_def Let_def)
  qed
  then show ?thesis using st by blast
qed

definition heap_sample :: "hmem" where
  "heap_sample = chHeapObjectInit 0x100 0x1000 0x100 (\<lambda>_. \<lparr>h_next = 0, h_size = 0\<rparr>)"
definition heap_get :: "u32 \<Rightarrow> hmem \<Rightarrow> u32 \<times> hmem" where
  "heap_get n m = (case chHeapAlloc 0x200 None 0x100 n (m, ()) of Some (p, m', _) \<Rightarrow> (p, m') | None \<Rightarrow> (0, m))"

lemma heap_sample_layout: "heap_layout 0x100 0x1000 0x100"
proof -
  have "MEM_IS_ALIGNED 0x1000" "MEM_IS_ALIGNED 0x100" by code_simp+
  then show ?thesis by (simp add: heap_layout_def H_FREE_def inside_def)
qed

lemma heap_get_step:
  assumes "unat n \<le> 2 ^ 32 - 16" and "fst (heap_get n m) \<noteq> 0"
  shows "heap_step 0x200 None 0x100 ((m, ()), used)
    ((snd (heap_get n m), ()), (fst (heap_get n m) - 8, h_size (snd (heap_get n m) (fst (heap_get n m) - 8))) # used)"
proof -
  obtain p m' u where "chHeapAlloc 0x200 None 0x100 n (m, ()) = Some (p, m', u)"
    using assms(2) by (auto simp: heap_get_def split: option.splits)
  from heap_step.alloc [OF assms(1) this, of used] this assms(2) show ?thesis
    by (simp add: heap_get_def)
qed

lemma sample_run:
  defines "m1 \<equiv> snd (heap_get 10 heap_sample)"
  defines "m2 \<equiv> snd (heap_get 20 m1)"
  shows "heap_step 0x200 None 0x100 ((heap_sample, ()), []) ((m1, ()), [(0x1000, 16)])"
    and "heap_step 0x200 None 0x100 ((m1, ()), [(0x1000, 16)]) ((m2, ()), [(0x1018, 24), (0x1000, 16)])"
proof -
  have "fst (heap_get 10 heap_sample) = 0x1008" "h_size (snd (heap_get 10 heap_sample) 0x1000) = 16"
    "fst (heap_get 20 (snd (heap_get 10 heap_sample))) = 0x1020"
    "h_size (snd (heap_get 20 (snd (heap_get 10 heap_sample))) 0x1018) = 24" by code_simp+
  then show "heap_step 0x200 None 0x100 ((heap_sample, ()), []) ((m1, ()), [(0x1000, 16)])"
    "heap_step 0x200 None 0x100 ((m1, ()), [(0x1000, 16)]) ((m2, ()), [(0x1018, 24), (0x1000, 16)])"
    using heap_get_step [of 10 heap_sample "[]"] heap_get_step [of 20 m1 "[(0x1000, 16)]"] by (simp_all add: m1_def m2_def)
qed

definition heap_put :: "u32 \<Rightarrow> hmem \<Rightarrow> hmem" where
  "heap_put p m = (case chHeapFree p m of Some m' \<Rightarrow> m' | None \<Rightarrow> m)"
definition heap_sample2 :: hmem where "heap_sample2 = snd (heap_get 20 (snd (heap_get 10 heap_sample)))"

lemma sample_two: "(heap_step 0x200 None 0x100)\<^sup>*\<^sup>* ((heap_sample, ()), []) ((heap_sample2, ()), [(0x1018, 24), (0x1000, 16)])"
  unfolding heap_sample2_def
  by (rule converse_rtranclp_into_rtranclp [where r = "heap_step 0x200 None 0x100", OF sample_run(1)
        r_into_rtranclp [where r = "heap_step 0x200 None 0x100", OF sample_run(2)]])

lemma sample_returned:
  "(heap_step 0x200 None 0x100)\<^sup>*\<^sup>* ((heap_sample, ()), []) ((heap_put 0x1020 (heap_put 0x1008 heap_sample2), ()), [])"
proof -
  have "\<not> Option.is_none (chHeapFree 0x1008 heap_sample2)" "\<not> Option.is_none (chHeapFree 0x1020 (heap_put 0x1008 heap_sample2))"
    by code_simp+
  then have "chHeapFree (fst (0x1000, 16 :: u32) + 8) heap_sample2 = Some (heap_put 0x1008 heap_sample2)"
    "chHeapFree (fst (0x1018, 24 :: u32) + 8) (heap_put 0x1008 heap_sample2) = Some (heap_put 0x1020 (heap_put 0x1008 heap_sample2))"
    by (simp_all add: heap_put_def Option.is_none_def split: option.splits)
  then have "heap_step 0x200 None 0x100 ((heap_sample2, ()), [(0x1018, 24), (0x1000, 16)])
      ((heap_put 0x1008 heap_sample2, ()), remove1 (0x1000, 16) [(0x1018, 24), (0x1000, 16)])"
    and "heap_step 0x200 None 0x100 ((heap_put 0x1008 heap_sample2, ()), [(0x1018, 24)])
      ((heap_put 0x1020 (heap_put 0x1008 heap_sample2), ()), remove1 (0x1018, 24) [(0x1018, 24)])"
    by (auto intro!: heap_step.free simp del: remove1.simps)
  with sample_two show ?thesis by (simp add: rtranclp.rtrancl_into_rtrancl)
qed

theorem heap_blocks_disjoint_witness:
  "apart (ext (0x1018, 24)) (ext (0x1000, 16)) \<and> heap_sample2 0x1018 = \<lparr>h_next = 0x100, h_size = 24\<rparr>
   \<and> bend (0x1018, 24) \<le> unat (0x1000 :: u32) + unat (0x100 :: u32)"
  using heap_blocks_disjoint [OF heap_sample_layout sample_two [unfolded heap_sample_def]] by simp

theorem heap_whole_again_witness:
  "chHeapStatus 0x200 0x100 (heap_put 0x1020 (heap_put 0x1008 heap_sample2)) = Some (1, 0xF8)"
  using heap_whole_again [OF heap_sample_layout sample_returned [unfolded heap_sample_def]] by simp

text \<open>
  C29: huge requests wrap.  A request of more than \<open>2\<^sup>3\<^sup>2 - 8\<close> bytes is rounded up to zero: a heap with
  a free block then returns a block of less than eight bytes for it.  On a fresh default heap a
  request of \<open>2\<^sup>3\<^sup>2 - 16\<close> to \<open>2\<^sup>3\<^sup>2 - 8\<close> bytes wraps when the header is added: the core manager is asked
  for zero bytes, and the block returned lies in memory that the next core allocation hands out again.
\<close>

theorem heap_size_wraps:
  assumes "heap_layout heapp buf sz" and "2 ^ 32 - 8 < unat size0"
    and "core_ok c" and "dh \<noteq> 0" and "2 ^ 32 - 16 < unat size1" and "unat size1 \<le> 2 ^ 32 - 8"
    and "unat n \<le> 2 ^ 32 - 8" and "unat (nextmem c) + unat n + 7 \<le> unat (endmem c)"
  shows "(\<exists>m'. chHeapAlloc dh None heapp size0 (chHeapObjectInit heapp buf sz m, ()) = Some (buf + 8, m', ()) \<and> unat (h_size (m' buf)) < 8)
    \<and> (\<exists>m'. chHeapAlloc dh (Some chCoreAlloc) dh size1 (heap_init dh m, c) = Some (nextmem c + 8, m', c))
    \<and> fst (chCoreAlloc n c) = nextmem c"
proof (intro conjI)
  note l = heap_object_init [OF assms(1), of m]
  have lay: "heapp \<noteq> 0" "buf \<noteq> 0" "buf \<noteq> H_FREE heapp" using assms(1) by (auto simp: heap_layout_def inside_def)
  have "alloc_loop heapp 0 (H_FREE heapp) (chHeapObjectInit heapp buf sz m) =
      Some (buf + 8, heap_take heapp 0 (H_FREE heapp) buf (chHeapObjectInit heapp buf sz m))"
    using heap_listD(1) [OF l] lay by (subst alloc_loop.simps) simp
  moreover have "buf + 8 \<noteq> 0"
  proof -
    have "unat (buf + 8) = unat buf + 8" using assms(1) by (simp add: heap_layout_def unat_word_ariths)
    then show ?thesis by (metis add_is_0 numeral_neq_zero unsigned_0)
  qed
  moreover have "unat (h_size (heap_take heapp 0 (H_FREE heapp) buf (chHeapObjectInit heapp buf sz m) buf)) < 8"
    using lay heap_listD(1) [OF l] by (auto simp: heap_take_def Let_def word_less_nat_alt)
  ultimately show "\<exists>m'. chHeapAlloc dh None heapp size0 (chHeapObjectInit heapp buf sz m, ()) = Some (buf + 8, m', ()) \<and> unat (h_size (m' buf)) < 8"
    using lay(1) by (simp add: chHeapAlloc_def align_next_wraps [OF assms(2)] Let_def)
  have "(unat size1 + 7) div 8 = 536870911" using assms(5,6) by simp
  then have "unat (MEM_ALIGN_NEXT size1) = 2 ^ 32 - 8" using unat_align_next [OF assms(6)] by simp
  then have "unat (MEM_ALIGN_NEXT size1 + 8) = 0" by (simp add: unat_word_ariths)
  then have z: "MEM_ALIGN_NEXT size1 + 8 = 0" by (metis unsigned_eq_0_iff)
  have "nextmem c \<noteq> 0" using assms(3) by (auto simp: core_ok_def)
  moreover have "chCoreAlloc 0 c = (nextmem c, c)"
  proof -
    have "MEM_ALIGN_NEXT 0 = 0" by code_simp
    then show ?thesis by (simp add: chCoreAlloc_def chCoreAllocI_def)
  qed
  moreover have "alloc_loop dh s (H_FREE dh) (heap_init dh m) = Some (0, heap_init dh m)" for s
    by (subst alloc_loop.simps) (simp add: heap_init_def)
  ultimately show "\<exists>m'. chHeapAlloc dh (Some chCoreAlloc) dh size1 (heap_init dh m, c) = Some (nextmem c + 8, m', c)"
    using assms(4) z by (simp add: chHeapAlloc_def Let_def)
  show "fst (chCoreAlloc n c) = nextmem c"
    using core_get [OF assms(3,7)] assms(8) by (auto simp: Let_def split: if_splits)
qed

theorem heap_size_wraps_witness:
  "\<exists>m'. chHeapAlloc 0x200 None 0x100 0xFFFFFFFC (heap_sample, ()) = Some (0x1008, m', ()) \<and> unat (h_size (m' 0x1000)) < 8"
proof -
  have "core_ok (core_init 0x2000 0x3000)" by (rule core_init_ok) simp_all
  moreover have "nextmem (core_init 0x2000 0x3000) = 0x2000" "endmem (core_init 0x2000 0x3000) = 0x3000" by code_simp+
  ultimately show ?thesis
    using heap_size_wraps [OF heap_sample_layout, where c = "core_init 0x2000 0x3000" and ?size0.0 = "0xFFFFFFFC" and ?size1.0 = "0xFFFFFFF8"
        and dh = "0x200" and n = 8 and m = "\<lambda>_. \<lparr>h_next = 0, h_size = 0\<rparr>"]
    by (simp add: heap_sample_def)
qed

text \<open>The default heap, fed by the core manager: its blocks do not overlap each other nor the free core memory.\<close>

lemma default_heap_blocks_disjoint:
  assumes "core_ok c0" and "dh \<noteq> 0" and "H_FREE dh \<noteq> 0" and "outside dh {} (unat (nextmem c0)) (unat (endmem c0))"
    and "(heap_step dh (Some chCoreAlloc) dh)\<^sup>*\<^sup>* ((heap_init dh m0, c0), []) ((m, c), used)"
  shows "distinct used \<and> (\<forall>b \<in> set used. \<forall>d \<in> set used. b \<noteq> d \<longrightarrow> apart (ext b) (ext d))"
    and "b \<in> set used \<Longrightarrow> inside x (ext b) \<Longrightarrow> x < unat (nextmem c) \<or> unat (endmem c) \<le> x"
proof -
  have "heap_list dh {} (heap_init dh m0) [] []"
    using assms(3) by (simp add: heap_list_def heap_init_def)
  then have "heap_fit dh {} core_ok (\<lambda>c. unat (nextmem c)) (\<lambda>c. unat (endmem c)) ((heap_init dh m0, c0), [])"
    using assms(1,4) by (auto simp: heap_fit_def heap_ok_def)
  from core.heap_steps_fit [OF assms(5) this assms(2)]
  obtain R where fit: "heap_fit dh R core_ok (\<lambda>c. unat (nextmem c)) (\<lambda>c. unat (endmem c)) ((m, c), used)" by blast
  note cl = core.heap_fit_client [OF fit assms(2), of None]
  show "distinct used \<and> (\<forall>b \<in> set used. \<forall>d \<in> set used. b \<noteq> d \<longrightarrow> apart (ext b) (ext d))" using cl(1,2) by simp
  assume b: "b \<in> set used" "inside x (ext b)"
  from fit obtain bs where l: "heap_list dh R m used bs" by (auto simp: heap_fit_def heap_ok_def)
  have "x \<in> R" by (rule heap_start [OF l _ b(2)]) (simp add: b(1))
  then show "x < unat (nextmem c) \<or> unat (endmem c) \<le> x" using fit by (auto simp: heap_fit_def outside_def)
qed

end
